(* ===== verification/Prelude.thy ===== *)
theory Prelude
  imports Main "HOL-Library.Word" "HOL-Library.Monad_Syntax"
begin

text \<open>
  Shared vocabulary of the development: bytes and fixed-width integers, the two byte orders of
  Go's \<open>encoding/binary\<close>, bounds-checked stores into a byte slice (\<open>None\<close> is the runtime panic),
  and the cursor with which the builders of this repository fill a buffer from left to right.
  The collection \<open>byte_simps\<close> holds the length and round-trip facts the component proofs use.
\<close>

named_theorems byte_simps \<open>lengths and round trips of byte-level encodings\<close>

section \<open>Bytes and integers\<close>

type_synonym byte = "8 word"
type_synonym bytes = "byte list"
type_synonym u16 = "16 word"
type_synonym u32 = "32 word"
type_synonym u64 = "64 word"

text \<open>Little- and big-endian encodings of \<open>v mod 256 ^ n\<close> on \<open>n\<close> bytes.\<close>

primrec le :: "nat \<Rightarrow> nat \<Rightarrow> bytes" where
  "le 0 v = []"
| "le (Suc n) v = word_of_nat v # le n (v div 256)"

definition be :: "nat \<Rightarrow> nat \<Rightarrow> bytes" where
  "be n v = rev (le n v)"

primrec un_le :: "bytes \<Rightarrow> nat" where
  "un_le [] = 0"
| "un_le (b # bs) = unat b + 256 * un_le bs"

definition un_be :: "bytes \<Rightarrow> nat" where
  "un_be bs = un_le (rev bs)"

lemma length_le [simp, byte_simps]: "length (le n v) = n"
  by (induction n arbitrary: v) simp_all

lemma length_be [simp, byte_simps]: "length (be n v) = n"
  by (simp add: be_def)

lemma unat_byte_of_nat: "unat (word_of_nat v :: byte) = v mod 256"
  by (simp add: unat_of_nat)

lemma un_le_le [byte_simps]: "un_le (le n v) = v mod 256 ^ n"
  by (induction n arbitrary: v)
    (simp_all add: unat_byte_of_nat mod_mult2_eq mult.commute)

lemma un_be_be [byte_simps]: "un_be (be n v) = v mod 256 ^ n"
  by (simp add: un_be_def be_def un_le_le)

lemma un_le_bound: "un_le bs < 256 ^ length bs"
proof (induction bs)
  case Nil
  then show ?case by simp
next
  case (Cons b bs)
  have "unat b < 256" using unsigned_less [of b, where ?'a = nat] by simp
  with Cons show ?case by simp
qed

lemma le_un_le [byte_simps]: "n = length bs \<Longrightarrow> le n (un_le bs) = bs"
proof (induction bs arbitrary: n)
  case Nil
  then show ?case by simp
next
  case (Cons b bs)
  have lt: "unat b < 256" using unsigned_less [of b, where ?'a = nat] by simp
  have "(word_of_nat (unat b + 256 * un_le bs) :: byte) = b"
    by (rule word_unat_eq_iff [THEN iffD2], simp only: unat_byte_of_nat) (use lt in simp)
  with Cons lt show ?case by simp
qed

lemma be_un_be [byte_simps]: "n = length bs \<Longrightarrow> be n (un_be bs) = bs"
  by (simp add: be_def un_be_def le_un_le)

lemma un_be_bound: "un_be bs < 256 ^ length bs"
  using un_le_bound [of "rev bs"] by (simp add: un_be_def)

lemma le_inject: "v < 256 ^ n \<Longrightarrow> w < 256 ^ n \<Longrightarrow> le n v = le n w \<Longrightarrow> v = w"
  by (metis un_le_le mod_less)

lemma be_inject: "v < 256 ^ n \<Longrightarrow> w < 256 ^ n \<Longrightarrow> be n v = be n w \<Longrightarrow> v = w"
  by (metis un_be_be mod_less)

lemma le_mod: "le n (v mod 256 ^ n) = le n v"
  using le_un_le [of n "le n v"] by (simp add: un_le_le)

lemma be_mod: "be n (v mod 256 ^ n) = be n v"
  by (simp add: be_def le_mod)

lemma le_4: "le 4 v = [word_of_nat v, word_of_nat (v div 256), word_of_nat (v div 65536),
    word_of_nat (v div 16777216)]"
proof -
  have "(4 :: nat) = Suc (Suc (Suc (Suc 0)))" by simp
  then show ?thesis by (simp only: le.simps) (simp add: div_mult2_eq [symmetric])
qed

section \<open>Stores into a slice\<close>

text \<open>
  \<open>put buf off bs\<close> is a store of the bytes \<open>bs\<close> at \<open>buf[off:off+len(bs)]\<close>: one indexed store, a
  \<open>binary.PutUint\<close> or a \<open>copy\<close> of exactly as many bytes. A store that does not fit is the
  out-of-range panic of Go, \<open>None\<close>.
\<close>

definition put :: "bytes \<Rightarrow> nat \<Rightarrow> bytes \<Rightarrow> bytes option" where
  "put buf off bs =
     (if off + length bs \<le> length buf
      then Some (take off buf @ bs @ drop (off + length bs) buf) else None)"

text \<open>\<open>copy (buf[off:], src)\<close> copies as many bytes as fit; slicing past the end panics.\<close>

definition copy_from :: "bytes \<Rightarrow> nat \<Rightarrow> bytes \<Rightarrow> bytes option" where
  "copy_from buf off src =
     (if off \<le> length buf then put buf off (take (length buf - off) src) else None)"

text \<open>\<open>copy (buf[a:b], src)\<close>: at most \<open>b - a\<close> bytes; a slice out of range panics.\<close>

definition copy_slice :: "bytes \<Rightarrow> nat \<Rightarrow> nat \<Rightarrow> bytes \<Rightarrow> bytes option" where
  "copy_slice buf a b src =
     (if a \<le> b \<and> b \<le> length buf then put buf a (take (b - a) src) else None)"

text \<open>\<open>slice bs a b\<close> is \<open>bs[a:b]\<close> for \<open>a <= b <= len(bs)\<close>; otherwise the slice expression panics.\<close>

definition slice :: "bytes \<Rightarrow> nat \<Rightarrow> nat \<Rightarrow> bytes option" where
  "slice bs a b = (if a \<le> b \<and> b \<le> length bs then Some (take (b - a) (drop a bs)) else None)"

lemma length_put [byte_simps]: "put buf off bs = Some buf' \<Longrightarrow> length buf' = length buf"
  by (auto simp: put_def split: if_splits)

lemma copy_from_fits:
  "off + length src \<le> length buf \<Longrightarrow> copy_from buf off src = put buf off src"
  by (simp add: copy_from_def)

text \<open>
  The cursor of a builder: the buffer and the next offset. \<open>emit\<close> is a store at the cursor
  followed by \<open>off += len\<close>. A buffer whose first bytes are \<open>xs\<close> and whose rest is still the old
  content \<open>d\<close> is \<open>filled xs d\<close>; emitting extends \<open>xs\<close>.
\<close>

type_synonym cursor = "bytes \<times> nat"

definition emit :: "bytes \<Rightarrow> cursor \<Rightarrow> cursor option" where
  "emit bs = (\<lambda>(buf, off). map_option (\<lambda>b. (b, off + length bs)) (put buf off bs))"

definition filled :: "bytes \<Rightarrow> bytes \<Rightarrow> cursor" where
  "filled xs d = (xs @ drop (length xs) d, length xs)"

lemma filled_Nil: "(d, 0) = filled [] d"
  by (simp add: filled_def)

lemma emit_filled:
  "length xs + length bs \<le> length d \<Longrightarrow> emit bs (filled xs d) = Some (filled (xs @ bs) d)"
  by (simp add: emit_def filled_def put_def add.commute)

lemma filled_full: "length xs = length d \<Longrightarrow> filled xs d = (xs, length d)"
  by (simp add: filled_def)

text \<open>A store that replaces the middle of a buffer whose parts are known.\<close>

lemma put_at_end:
  "off = length xs \<Longrightarrow> length old = length bs \<Longrightarrow>
   put (xs @ old @ ys) off bs = Some (xs @ bs @ ys)"
  by (simp add: put_def)

section \<open>Option and list helpers\<close>

lemma bind_Some_iff: "Option.bind m f = Some y \<longleftrightarrow> (\<exists>x. m = Some x \<and> f x = Some y)"
  by (cases m) simp_all

lemma take_append_exact: "n = length xs \<Longrightarrow> take n (xs @ ys) = xs"
  by simp

lemma drop_append_exact: "n = length xs \<Longrightarrow> drop n (xs @ ys) = ys"
  by simp

end
