(* ===== verification/Shard_Common.thy ===== *)
theory Shard_Common
  imports Prelude
begin

text \<open>
  The parts of \<open>github.com/lightwebinc/shard-common\<close> this repository calls. Their source is not part
  of the repository, so they are parameters: a record per package whose fields are the constants
  and functions used, passed to every definition that uses them. What the repository's comments and
  documentation state about a package is collected in a predicate; theorems that need it take it as
  a hypothesis, and their witnesses instantiate it with the reference instances below, which are
  written from those comments and stand for no code.
\<close>

section \<open>Package \<open>frame\<close>\<close>

text \<open>The fields of \<open>frame.Frame\<close> that the repository sets.\<close>

record Frame =
  f_TxID :: bytes
  f_SubtreeID :: bytes
  f_SeqNum :: u64
  f_HashKey :: u64
  f_Payload :: bytes

record frame_pkg =
  HeaderSizeLegacy :: nat
  HeaderSizeV2 :: nat
  HeaderSizeV3 :: nat
  MagicBSV :: u32
  ProtoVer :: u16
  FrameVerV1 :: byte
  SubtreeGroupAnnounceSize :: nat
  \<comment> \<open>\<open>frame.Encode(f, buf)\<close>: the buffer and the count, or an error\<close>
  pkg_Encode :: "Frame \<Rightarrow> bytes \<Rightarrow> (bytes \<times> nat) option"
  \<comment> \<open>\<open>EncodeSubtreeGroupAnnounce\<close>: subtree, group, epoch, ttl; the datagram, or an error\<close>
  pkg_EncodeAnnounce :: "bytes \<Rightarrow> bytes \<Rightarrow> u32 \<Rightarrow> u16 \<Rightarrow> bytes \<Rightarrow> bytes option"

text \<open>
  The 92-byte layout of the comments in \<open>cmd/send-*\<close>: magic, protocol version, frame version, one
  byte by frame kind, the 32-byte identifier, HashKey, SeqNum, a second 32-byte field, payload length.
\<close>

definition header92 :: "byte \<Rightarrow> byte \<Rightarrow> bytes \<Rightarrow> u64 \<Rightarrow> u64 \<Rightarrow> bytes \<Rightarrow> nat \<Rightarrow> bytes" where
  "header92 ver kind ident hk sn sub len =
     be 4 0xE3E1F3E8 @ be 2 0x02BF @ [ver, kind] @ ident @ be 8 (unat hk) @ be 8 (unat sn) @ sub @ be 4 len"

lemma length_header92:
  "length ident = 32 \<Longrightarrow> length sub = 32 \<Longrightarrow> length (header92 ver kind ident hk sn sub len) = 92"
  by (simp add: header92_def)

text \<open>
  Documented of the package: the header sizes, the network magic and the protocol version (mirrored
  as constants in the senders), and that \<open>Encode\<close> writes a version-2 header followed by the payload
  when the buffer has room for both.
\<close>

definition frame_doc :: "frame_pkg \<Rightarrow> bool" where
  "frame_doc P \<longleftrightarrow>
     HeaderSizeLegacy P = 44 \<and> HeaderSizeV2 P = 92 \<and> MagicBSV P = 0xE3E1F3E8 \<and> ProtoVer P = 0x02BF \<and>
     FrameVerV1 P = 1"

definition encode_doc :: "frame_pkg \<Rightarrow> bool" where
  "encode_doc P \<longleftrightarrow>
     (\<forall>f buf. length (f_TxID f) = 32 \<and> length (f_SubtreeID f) = 32 \<and>
        length (f_Payload f) \<le> 10 * 1024 * 1024 \<and> 92 + length (f_Payload f) \<le> length buf \<longrightarrow>
        pkg_Encode P f buf =
          Some (header92 2 0 (f_TxID f) (f_HashKey f) (f_SeqNum f) (f_SubtreeID f) (length (f_Payload f)) @
                f_Payload f @ drop (92 + length (f_Payload f)) buf, 92 + length (f_Payload f)))"

definition ref_frame :: frame_pkg where
  "ref_frame = \<lparr>HeaderSizeLegacy = 44, HeaderSizeV2 = 92, HeaderSizeV3 = 104, MagicBSV = 0xE3E1F3E8,
     ProtoVer = 0x02BF, FrameVerV1 = 1, SubtreeGroupAnnounceSize = 64,
     pkg_Encode = (\<lambda>f buf.
       Some (header92 2 0 (f_TxID f) (f_HashKey f) (f_SeqNum f) (f_SubtreeID f) (length (f_Payload f)) @
             f_Payload f @ drop (92 + length (f_Payload f)) buf, 92 + length (f_Payload f))),
     pkg_EncodeAnnounce = (\<lambda>sid gid epoch ttl buf.
       Some (be 4 0xE3E1F3E8 @ be 2 0x02BF @ [0x30, 0] @ sid @ gid @ be 4 (unat epoch) @
             be 2 (unat ttl) @ [0, 0]))\<rparr>"

text \<open>An announce datagram has the fixed size and depends on the fields only, not on the buffer's content.\<close>

definition announce_doc :: "frame_pkg \<Rightarrow> (bytes \<Rightarrow> bytes \<Rightarrow> u32 \<Rightarrow> u16 \<Rightarrow> bytes) \<Rightarrow> bool" where
  "announce_doc P enc \<longleftrightarrow>
     (\<forall>sid gid epoch ttl buf.
        length sid = 32 \<and> length gid = 16 \<and> length buf = SubtreeGroupAnnounceSize P \<longrightarrow>
        pkg_EncodeAnnounce P sid gid epoch ttl buf = Some (enc sid gid epoch ttl) \<and>
        length (enc sid gid epoch ttl) = SubtreeGroupAnnounceSize P)"

definition ref_announce :: "bytes \<Rightarrow> bytes \<Rightarrow> u32 \<Rightarrow> u16 \<Rightarrow> bytes" where
  "ref_announce sid gid epoch ttl =
     be 4 0xE3E1F3E8 @ be 2 0x02BF @ [0x30, 0] @ sid @ gid @ be 4 (unat epoch) @ be 2 (unat ttl) @ [0, 0]"

lemma ref_announce_doc: "announce_doc ref_frame ref_announce"
  by (simp add: announce_doc_def ref_frame_def ref_announce_def)

lemma ref_frame_doc: "frame_doc ref_frame" "encode_doc ref_frame"
  by (simp_all add: frame_doc_def encode_doc_def ref_frame_def)

section \<open>Package \<open>objfmt\<close>\<close>

datatype obj_class = ClassTx | ClassSubtree | ClassBlock

datatype size_result = Size_ok nat | Size_short | Size_bad

record objfmt_pkg =
  obj_TxID :: "bytes \<Rightarrow> bytes option"
  obj_IsEF :: "bytes \<Rightarrow> bool"
  obj_Size :: "obj_class \<Rightarrow> bytes \<Rightarrow> size_result"
  obj_SubtreeSize :: "bytes \<Rightarrow> size_result"
  obj_BlockSize :: "bytes \<Rightarrow> size_result"
  SubtreeHeaderSize :: nat
  BlockPrefixSize :: nat

text \<open>A \<open>TxID\<close> is 32 bytes, and every transaction a builder emits has one.\<close>

definition txid_doc :: "objfmt_pkg \<Rightarrow> (bytes \<Rightarrow> bool) \<Rightarrow> bool" where
  "txid_doc Ob good \<longleftrightarrow> (\<forall>t. good t \<longrightarrow> (\<exists>i. obj_TxID Ob t = Some i \<and> length i = 32))"

text \<open>
  The push object grammars of \<open>cmd/send-subtree-push\<close> and \<open>cmd/send-block-push\<close>: a body written by
  the documented layout is delimited by its own counts. The coinbase is a self-delimiting
  transaction, \<open>is_tx\<close>.
\<close>

definition subtree_doc :: "objfmt_pkg \<Rightarrow> bool" where
  "subtree_doc Ob \<longleftrightarrow> SubtreeHeaderSize Ob = 40 \<and>
     (\<forall>root hs. length root = 32 \<and> hs \<noteq> [] \<and> length hs < 2 ^ 32 \<and> (\<forall>h \<in> set hs. length h = 32) \<longrightarrow>
        obj_SubtreeSize Ob (root @ be 8 (length hs) @ concat hs) = Size_ok (40 + 32 * length hs))"

definition block_body :: "bytes \<Rightarrow> nat \<Rightarrow> nat \<Rightarrow> nat \<Rightarrow> bytes \<Rightarrow> bytes \<Rightarrow> nat \<Rightarrow> bytes \<Rightarrow> bytes" where
  "block_body hdr txs sz n roots cb height bump =
     hdr @ be 8 txs @ be 8 sz @ be 8 n @ roots @ cb @ be 8 height @ be 8 (length bump) @ bump"

definition block_doc :: "objfmt_pkg \<Rightarrow> (bytes \<Rightarrow> bool) \<Rightarrow> bool" where
  "block_doc Ob is_tx \<longleftrightarrow> BlockPrefixSize Ob = 104 \<and>
     (\<forall>hdr txs sz n roots cb height bump.
        length hdr = 80 \<and> 0 < n \<and> n < 2 ^ 32 \<and> length roots = 32 * n \<and> is_tx cb \<and> length bump < 2 ^ 32 \<longrightarrow>
        obj_BlockSize Ob (block_body hdr txs sz n roots cb height bump) =
          Size_ok (length (block_body hdr txs sz n roots cb height bump)))"

end
