(* ===== verification/Frames.thy ===== *)
theory Frames
  imports Shard_Common
begin

text \<open>
  The contract between the frame emitters and the readers of a framed stream. A frame is a 92-byte
  header followed by its payload, with no envelope; the header starts with the network magic, names
  its version at byte 6 and ends with the payload length. Emitters are interpretations; the reader
  of \<open>tunnel-sink\<close> is the client.
\<close>

definition frame_shape :: "byte \<Rightarrow> bytes \<Rightarrow> bytes \<Rightarrow> bool" where
  "frame_shape ver hdr payload \<longleftrightarrow>
     length hdr = 92 \<and> take 4 hdr = be 4 0xE3E1F3E8 \<and> hdr ! 6 = ver \<and>
     drop 88 hdr = be 4 (length payload)"

lemma frame_shape_header92:
  "length ident = 32 \<Longrightarrow> length sub = 32 \<Longrightarrow>
   frame_shape ver (header92 ver kind ident hk sn sub (length payload)) payload"
  by (simp add: frame_shape_def header92_def nth_append)

locale frame_emitter =
  fixes enc :: "'h \<Rightarrow> bytes \<Rightarrow> bytes option"
    and ver :: "'h \<Rightarrow> byte"
    and ok :: "'h \<Rightarrow> bool"
  assumes enc_shape: "ok h \<Longrightarrow> length p < 2 ^ 32 \<Longrightarrow> \<exists>hdr. enc h p = Some (hdr @ p) \<and> frame_shape (ver h) hdr p"
    and ver_plain: "ok h \<Longrightarrow> ver h \<noteq> 1 \<and> ver h \<noteq> 3"
begin

lemma enc_length:
  assumes "ok h" and "length p < 2 ^ 32" and "enc h p = Some f"
  shows "length f = 92 + length p"
  using enc_shape [OF assms(1,2)] assms(3) by (auto simp: frame_shape_def)

text \<open>Every frame starts with the network magic, which is how a framed stream is recognised.\<close>

lemma enc_magic:
  assumes "ok h" and "length p < 2 ^ 32" and "enc h p = Some f"
  shows "un_be (take 4 f) = 0xE3E1F3E8"
  using enc_shape [OF assms(1,2)] assms(3) by (auto simp: frame_shape_def un_be_be)

end

section \<open>Filling a zeroed buffer\<close>

text \<open>
  The emitters allocate a zeroed buffer and store the header fields at fixed offsets, leaving the
  fields the proxy stamps zero. With \<open>xs\<close> the part already written, a store directly behind it, a
  store after a gap of zeros and a copy into a fixed range all have a closed form.
\<close>

lemma put_zeros0: "length bs \<le> n \<Longrightarrow> put (replicate n 0) 0 bs = Some (bs @ replicate (n - length bs) 0)"
  by (simp add: put_def)

lemma put_zeros:
  "off = length xs \<Longrightarrow> length bs \<le> n \<Longrightarrow>
   put (xs @ replicate n 0) off bs = Some ((xs @ bs) @ replicate (n - length bs) 0)"
  by (simp add: put_def)

lemma put_zeros_gap:
  "off = length xs + g \<Longrightarrow> g + length bs \<le> n \<Longrightarrow>
   put (xs @ replicate n 0) off bs = Some ((xs @ replicate g 0 @ bs) @ replicate (n - (g + length bs)) 0)"
  by (simp add: put_def min_def)

lemma copy_slice_zeros:
  "a = length xs \<Longrightarrow> b = a + length src \<Longrightarrow> length src \<le> n \<Longrightarrow>
   copy_slice (xs @ replicate n 0) a b src = Some ((xs @ src) @ replicate (n - length src) 0)"
  by (simp add: copy_slice_def put_zeros)

lemma copy_slice_zeros_gap:
  "a = length xs + g \<Longrightarrow> b = a + length src \<Longrightarrow> g + length src \<le> n \<Longrightarrow>
   copy_slice (xs @ replicate n 0) a b src =
     Some ((xs @ replicate g 0 @ src) @ replicate (n - (g + length src)) 0)"
  by (simp add: copy_slice_def put_zeros_gap)

lemma copy_from_zeros:
  "off = length xs \<Longrightarrow> n = length src \<Longrightarrow> copy_from (xs @ replicate n 0) off src = Some (xs @ src)"
  by (simp add: copy_from_fits put_zeros)

lemma le_zero: "le n 0 = replicate n 0"
  by (induction n) simp_all

lemma be_zero: "be n 0 = replicate n 0"
  by (simp add: be_def le_zero)

lemmas zero_buffer = put_zeros0 put_zeros copy_slice_zeros copy_from_zeros

text \<open>
  How a sender command ends: normally, or by \<open>fatalf\<close> (or a runtime panic while it prepares or
  encodes) at the named step; with the writes done.
\<close>

datatype fatal_at =
  AtFlags | AtSetup | AtDial | AtBuild nat | AtTxID nat | AtEncode nat | AtSend nat | AtSelfCheck nat

datatype outcome = Finished "bytes list" | Fatal fatal_at "bytes list"

end
