(* ===== verification/Go_Std.thy ===== *)
theory Go_Std
  imports Prelude
begin

text \<open>
  The two pieces of Go's standard library whose values the repository's outputs are made of:
  \<open>crypto/sha256\<close> (subtree identifiers, merkle nodes, block hashes, PRNG seeds) and the
  \<open>ChaCha8\<close> source of \<open>math/rand/v2\<close> (\<open>NewChaCha8\<close>, \<open>Uint64\<close>), with the block layout and the
  reseeding schedule of \<open>internal/chacha8rand\<close>. Both are computable definitions; the facts used
  elsewhere are that a digest has 32 bytes and that a generator is determined by its seed.
\<close>

unbundle bit_operations_syntax

section \<open>SHA-256\<close>

definition rotr32 :: "nat \<Rightarrow> u32 \<Rightarrow> u32" where
  "rotr32 n x = drop_bit n x OR push_bit (32 - n) x"

text \<open>Round constants and initial chaining value, in decimal.\<close>

definition sha_k :: "u32 list" where
  "sha_k = [
    1116352408, 1899447441, 3049323471, 3921009573, 961987163, 1508970993, 2453635748,
    2870763221, 3624381080, 310598401, 607225278, 1426881987, 1925078388, 2162078206,
    2614888103, 3248222580, 3835390401, 4022224774, 264347078, 604807628, 770255983,
    1249150122, 1555081692, 1996064986, 2554220882, 2821834349, 2952996808, 3210313671,
    3336571891, 3584528711, 113926993, 338241895, 666307205, 773529912, 1294757372,
    1396182291, 1695183700, 1986661051, 2177026350, 2456956037, 2730485921, 2820302411,
    3259730800, 3345764771, 3516065817, 3600352804, 4094571909, 275423344, 430227734,
    506948616, 659060556, 883997877, 958139571, 1322822218, 1537002063, 1747873779,
    1955562222, 2024104815, 2227730452, 2361852424, 2428436474, 2756734187, 3204031479,
    3329325298]"

definition sha_iv :: "u32 list" where
  "sha_iv = [
    1779033703, 3144134277, 1013904242, 2773480762, 1359893119, 2600822924, 528734635,
    1541459225]"

text \<open>Message padding: a one bit, zeros up to 56 modulo 64, the bit length on 8 bytes.\<close>

definition sha_pad :: "bytes \<Rightarrow> bytes" where
  "sha_pad msg =
     (let n = length msg; z = (119 - n mod 64) mod 64
      in msg @ [128] @ replicate z 0 @ be 8 (8 * n))"

fun sha_words :: "bytes \<Rightarrow> u32 list" where
  "sha_words (a # b # c # d # rest) = word_of_nat (un_be [a, b, c, d]) # sha_words rest"
| "sha_words _ = []"

text \<open>The message schedule, built backwards: the head is the latest word.\<close>

fun sha_sched :: "nat \<Rightarrow> u32 list \<Rightarrow> u32 list" where
  "sha_sched 0 w = rev w"
| "sha_sched (Suc n) w =
     (let w2 = w ! 1; w7 = w ! 6; w15 = w ! 14; w16 = w ! 15;
          s0 = rotr32 7 w15 XOR rotr32 18 w15 XOR drop_bit 3 w15;
          s1 = rotr32 17 w2 XOR rotr32 19 w2 XOR drop_bit 10 w2
      in sha_sched n ((s1 + w7 + s0 + w16) # w))"

type_synonym sha_state = "u32 \<times> u32 \<times> u32 \<times> u32 \<times> u32 \<times> u32 \<times> u32 \<times> u32"

fun sha_round :: "sha_state \<Rightarrow> u32 \<times> u32 \<Rightarrow> sha_state" where
  "sha_round (a, b, c, d, e, f, g, h) (k, w) =
     (let s1 = rotr32 6 e XOR rotr32 11 e XOR rotr32 25 e;
          ch = (e AND f) XOR (NOT e AND g);
          t1 = h + s1 + ch + k + w;
          s0 = rotr32 2 a XOR rotr32 13 a XOR rotr32 22 a;
          maj = (a AND b) XOR (a AND c) XOR (b AND c)
      in (t1 + s0 + maj, a, b, c, d + t1, e, f, g))"

fun sha_of_list :: "u32 list \<Rightarrow> sha_state" where
  "sha_of_list [a, b, c, d, e, f, g, h] = (a, b, c, d, e, f, g, h)"
| "sha_of_list _ = (0, 0, 0, 0, 0, 0, 0, 0)"

fun sha_to_list :: "sha_state \<Rightarrow> u32 list" where
  "sha_to_list (a, b, c, d, e, f, g, h) = [a, b, c, d, e, f, g, h]"

definition sha_block :: "sha_state \<Rightarrow> u32 list \<Rightarrow> sha_state" where
  "sha_block st m =
     (let ws = sha_sched 48 (rev m)
      in sha_of_list (map2 (+) (sha_to_list st) (sha_to_list (foldl sha_round st (zip sha_k ws)))))"

fun sha_blocks :: "nat \<Rightarrow> sha_state \<Rightarrow> u32 list \<Rightarrow> sha_state" where
  "sha_blocks 0 st ws = st"
| "sha_blocks (Suc n) st ws = sha_blocks n (sha_block st (take 16 ws)) (drop 16 ws)"

definition sha256 :: "bytes \<Rightarrow> bytes" where
  "sha256 msg =
     (let ws = sha_words (sha_pad msg)
      in concat (map (be 4 \<circ> unat) (sha_to_list (sha_blocks (length ws div 16) (sha_of_list sha_iv) ws))))"

text \<open>\<open>SHA256d\<close>: the digest of the digest, the hash of every Bitcoin object.\<close>

definition sha256d :: "bytes \<Rightarrow> bytes" where
  "sha256d msg = sha256 (sha256 msg)"

lemma length_sha_to_list [simp]: "length (sha_to_list st) = 8"
  by (cases st rule: sha_to_list.cases) simp

lemma length_sha256 [simp, byte_simps]: "length (sha256 msg) = 32"
  by (simp add: sha256_def Let_def length_concat comp_def sum_list_triv)

lemma length_sha256d [simp, byte_simps]: "length (sha256d msg) = 32"
  by (simp add: sha256d_def)

section \<open>The ChaCha8 generator\<close>

text \<open>Generator state: four seed words, a buffer of 32 outputs, position, limit, block counter.\<close>

record chacha8 =
  cc_seed :: "u64 list"
  cc_buf :: "u64 list"
  cc_i :: nat
  cc_n :: nat
  cc_c :: u32

definition rotl32 :: "nat \<Rightarrow> u32 \<Rightarrow> u32" where
  "rotl32 n x = push_bit n x OR drop_bit (32 - n) x"

definition cc_qr :: "nat \<times> nat \<times> nat \<times> nat \<Rightarrow> u32 list \<Rightarrow> u32 list" where
  "cc_qr = (\<lambda>(ia, ib, ic, id) b.
     (let a = b ! ia + b ! ib; d = rotl32 16 (b ! id XOR a);
          c = b ! ic + d; bb = rotl32 12 (b ! ib XOR c);
          a' = a + bb; d' = rotl32 8 (d XOR a');
          c' = c + d'; b' = rotl32 7 (bb XOR c')
      in b[ia := a', ib := b', ic := c', id := d']))"

definition cc_double_round :: "u32 list \<Rightarrow> u32 list" where
  "cc_double_round b = fold cc_qr
     [(0, 4, 8, 12), (1, 5, 9, 13), (2, 6, 10, 14), (3, 7, 11, 15),
      (0, 5, 10, 15), (1, 6, 11, 12), (2, 7, 8, 13), (3, 4, 9, 14)] b"

text \<open>One lane of a block: the key words are added back, constants and counter are not.\<close>

definition cc_key :: "u64 list \<Rightarrow> u32 list" where
  "cc_key seed = concat (map (\<lambda>s. [ucast s, ucast (drop_bit 32 s)]) seed)"

definition cc_lane :: "u64 list \<Rightarrow> u32 \<Rightarrow> u32 list" where
  "cc_lane seed ctr =
     (let key = cc_key seed;
          b = (cc_double_round ^^ 4)
                ([0x61707865, 0x3320646e, 0x79622d32, 0x6b206574] @ key @ [ctr, 0, 0, 0])
      in take 4 b @ map2 (+) (take 8 (drop 4 b)) key @ drop 12 b)"

text \<open>Four lanes side by side; the buffer is read as little-endian 64-bit words.\<close>

definition cc_block :: "u64 list \<Rightarrow> u32 \<Rightarrow> u64 list" where
  "cc_block seed ctr =
     (let l0 = cc_lane seed ctr; l1 = cc_lane seed (ctr + 1);
          l2 = cc_lane seed (ctr + 2); l3 = cc_lane seed (ctr + 3)
      in concat (map (\<lambda>w. [ucast (l0 ! w) OR push_bit 32 (ucast (l1 ! w)),
                           ucast (l2 ! w) OR push_bit 32 (ucast (l3 ! w))]) [0..<16]))"

definition NewChaCha8 :: "bytes \<Rightarrow> chacha8" where
  "NewChaCha8 seed =
     (let s = map (\<lambda>k. word_of_nat (un_le (take 8 (drop (8 * k) seed)))) [0..<4]
      in \<lparr>cc_seed = s, cc_buf = cc_block s 0, cc_i = 0, cc_n = 32, cc_c = 0\<rparr>)"

definition cc_refill :: "chacha8 \<Rightarrow> chacha8" where
  "cc_refill r =
     (let c = cc_c r + 4;
          seed = (if c = 16 then drop 28 (cc_buf r) else cc_seed r);
          c' = (if c = 16 then 0 else c)
      in \<lparr>cc_seed = seed, cc_buf = cc_block seed c', cc_i = 0,
          cc_n = (if c' = 12 then 28 else 32), cc_c = c'\<rparr>)"

text \<open>
  \<open>Uint64\<close> loops until the buffer yields a value; after a refill it always does (\<open>cc_refill_ready\<close>),
  so the loop is at most one refill.
\<close>

definition cc_Uint64 :: "chacha8 \<Rightarrow> u64 \<times> chacha8" where
  "cc_Uint64 r =
     (let r' = (if cc_i r < cc_n r then r else cc_refill r)
      in (cc_buf r' ! (cc_i r' mod 32), r'\<lparr>cc_i := Suc (cc_i r')\<rparr>))"

lemma cc_refill_ready: "cc_i (cc_refill r) < cc_n (cc_refill r)"
  by (simp add: cc_refill_def Let_def)

end
