(* ===== verification/Tx.thy ===== *)
theory Tx
  imports Go_Std
begin

text \<open>
  \<open>internal/tx\<close>: the transaction builders. \<open>Build\<close> and \<open>BuildEF\<close> are translated store by store over
  a caller-supplied slice (its bytes up to its capacity, old content included); a store out of range
  is the value \<open>Panic\<close>. The lemmas show that the cursor runs exactly to \<open>targetSize\<close>, that no
  byte of the old content survives, and give the bytes written in closed form.
\<close>

section \<open>Sizes, varints and the slack split\<close>

definition MinRawSize :: int where
  "MinRawSize = 60"

definition MinEFSize :: int where
  "MinEFSize = 75"

definition efMarker :: bytes where
  "efMarker = [0x00, 0x00, 0x00, 0x00, 0x00, 0xEF]"

datatype tx_error = BelowMinimum | NoCanonicalSplit | SizingBug | Panic

record Builder =
  rng :: chacha8

definition tx_New :: "bytes \<Rightarrow> Builder" where
  "tx_New seed = \<lparr>rng = NewChaCha8 seed\<rparr>"

definition varintSize :: "int \<Rightarrow> int" where
  "varintSize v =
     (if v < 0xFD then 1
      else if v \<le> 0xFFFF then 3
      else if v \<le> 0xFFFFFFFF then 5
      else 9)"

definition putVarint :: "bytes \<Rightarrow> nat \<Rightarrow> int \<Rightarrow> (bytes \<times> nat) option" where
  "putVarint dst off v =
     (if v < 0xFD then do { d \<leftarrow> put dst off [word_of_int v]; Some (d, 1) }
      else if v \<le> 0xFFFF then
        do { d \<leftarrow> put dst off [0xFD]; d \<leftarrow> put d (off + 1) (le 2 (nat v)); Some (d, 3) }
      else if v \<le> 0xFFFFFFFF then
        do { d \<leftarrow> put dst off [0xFE]; d \<leftarrow> put d (off + 1) (le 4 (nat v)); Some (d, 5) }
      else
        do { d \<leftarrow> put dst off [0xFF]; d \<leftarrow> put d (off + 1) (le 8 (nat v)); Some (d, 9) })"

function splitSlack_from :: "int \<Rightarrow> int \<Rightarrow> tx_error + (int \<times> int)" where
  "splitSlack_from shim slack =
     (if shim \<le> 2 then
        let rem = slack - shim in
        if rem < 0 then splitSlack_from (shim + 1) slack
        else if rem \<le> 252 then Inr (shim, rem)
        else if rem \<ge> 255 \<and> rem \<le> 65537 then Inr (shim, rem - 2)
        else if rem \<ge> 65540 \<and> rem \<le> 0xFFFFFFFF + 4 then Inr (shim, rem - 4)
        else splitSlack_from (shim + 1) slack
      else Inl NoCanonicalSplit)"
  by pat_completeness auto
termination
  by (relation "measure (\<lambda>(shim, slack). nat (3 - shim))") auto

declare splitSlack_from.simps [simp del]

definition splitSlack :: "int \<Rightarrow> tx_error + (int \<times> int)" where
  "splitSlack slack = splitSlack_from 0 slack"

section \<open>Random bytes\<close>

text \<open>\<open>fillRand\<close> on a buffer of \<open>n\<close> bytes: the bytes stored, and the generator afterwards.\<close>

function fillRand :: "chacha8 \<Rightarrow> nat \<Rightarrow> bytes \<times> chacha8" where
  "fillRand r n =
     (if 8 \<le> n then
        let (v, r1) = cc_Uint64 r; (bs, r2) = fillRand r1 (n - 8) in (le 8 (unat v) @ bs, r2)
      else if 0 < n then
        let (v, r1) = cc_Uint64 r in (take n (le 8 (unat v)), r1)
      else ([], r))"
  by pat_completeness auto
termination
  by (relation "measure snd") auto

declare fillRand.simps [simp del]

lemma length_fillRand [simp, byte_simps]: "length (fst (fillRand r n)) = n"
proof (induction r n rule: fillRand.induct)
  case (1 r n)
  then show ?case
    by (subst fillRand.simps) (auto simp: Let_def split: prod.splits)
qed

section \<open>The builders\<close>

type_synonym build_state = "Builder \<times> cursor"

text \<open>A store at the cursor; random bytes at the cursor; a varint at the cursor.\<close>

definition tx_put :: "bytes \<Rightarrow> build_state \<Rightarrow> build_state option" where
  "tx_put bs = (\<lambda>(b, c). map_option (Pair b) (emit bs c))"

definition tx_rand :: "nat \<Rightarrow> build_state \<Rightarrow> build_state option" where
  "tx_rand n = (\<lambda>(b, c).
     (let (bs, r') = fillRand (rng b) n
      in map_option (Pair (b\<lparr>rng := r'\<rparr>)) (emit bs c)))"

definition tx_varint :: "int \<Rightarrow> build_state \<Rightarrow> build_state option" where
  "tx_varint v = (\<lambda>(b, dst, off).
     map_option (\<lambda>(dst', k). (b, dst', off + k)) (putVarint dst off v))"

definition tx_script :: "int \<Rightarrow> build_state \<Rightarrow> build_state option" where
  "tx_script n s = (if n > 0 then tx_rand (nat n) s else Some s)"

definition Build_body :: "int \<Rightarrow> int \<Rightarrow> build_state \<Rightarrow> build_state option" where
  "Build_body shim bulk s = do {
     s \<leftarrow> tx_put (le 4 2) s;
     s \<leftarrow> tx_put [1] s;
     s \<leftarrow> tx_rand 36 s;
     s \<leftarrow> tx_varint shim s;
     s \<leftarrow> tx_script shim s;
     s \<leftarrow> tx_rand 4 s;
     s \<leftarrow> tx_put [1] s;
     s \<leftarrow> tx_rand 8 s;
     s \<leftarrow> tx_varint bulk s;
     s \<leftarrow> tx_script bulk s;
     tx_put (le 4 0) s
   }"

definition BuildEF_body :: "int \<Rightarrow> int \<Rightarrow> build_state \<Rightarrow> build_state option" where
  "BuildEF_body shim bulk s = do {
     s \<leftarrow> tx_put (le 4 2) s;
     s \<leftarrow> tx_put efMarker s;
     s \<leftarrow> tx_put [1] s;
     s \<leftarrow> tx_rand 36 s;
     s \<leftarrow> tx_varint shim s;
     s \<leftarrow> tx_script shim s;
     s \<leftarrow> tx_rand 4 s;
     s \<leftarrow> tx_put (le 8 0) s;
     s \<leftarrow> tx_varint 0 s;
     s \<leftarrow> tx_put [1] s;
     s \<leftarrow> tx_put (le 8 0) s;
     s \<leftarrow> tx_varint bulk s;
     s \<leftarrow> tx_script bulk s;
     tx_put (le 4 0) s
   }"

text \<open>
  The frame both builders share in the source: the size floor, the slack split, the reuse of
  \<open>dst\<close> when its capacity suffices, the stores, and the final check of the offset.
\<close>

definition build_with ::
  "int \<Rightarrow> (int \<Rightarrow> int \<Rightarrow> build_state \<Rightarrow> build_state option) \<Rightarrow>
   Builder \<Rightarrow> bytes \<Rightarrow> int \<Rightarrow> (tx_error + bytes) \<times> Builder" where
  "build_with floor body b dst targetSize =
     (if targetSize < floor then (Inl BelowMinimum, b)
      else case splitSlack (targetSize - floor) of
        Inl e \<Rightarrow> (Inl e, b)
      | Inr (shim, bulk) \<Rightarrow>
          let n = nat targetSize;
              dst' = take n (if length dst < n then replicate n 0 else dst)
          in case body shim bulk (b, dst', 0) of
               None \<Rightarrow> (Inl Panic, b)
             | Some (b', out, off) \<Rightarrow>
                 if int off \<noteq> targetSize then (Inl SizingBug, b') else (Inr out, b'))"

definition Build :: "Builder \<Rightarrow> bytes \<Rightarrow> int \<Rightarrow> (tx_error + bytes) \<times> Builder" where
  "Build b dst targetSize = build_with MinRawSize Build_body b dst targetSize"

definition BuildEF :: "Builder \<Rightarrow> bytes \<Rightarrow> int \<Rightarrow> (tx_error + bytes) \<times> Builder" where
  "BuildEF b dst targetSize = build_with MinEFSize BuildEF_body b dst targetSize"


section \<open>The slack split in closed form\<close>

text \<open>What a script of \<open>L\<close> bytes adds to the minimum, which already counts one varint byte.\<close>

definition script_cost :: "int \<Rightarrow> int" where
  "script_cost L = L + varintSize L - 1"

lemma splitSlack_eq:
  "splitSlack slack =
     (if slack < 0 then Inl NoCanonicalSplit
      else if slack \<le> 252 then Inr (0, slack)
      else if slack \<le> 254 then Inr (slack - 252, 252)
      else if slack \<le> 65537 then Inr (0, slack - 2)
      else if slack \<le> 65539 then Inr (slack - 65537, 65535)
      else if slack \<le> 0xFFFFFFFF + 4 then Inr (0, slack - 4)
      else if slack \<le> 0xFFFFFFFF + 6 then Inr (slack - (0xFFFFFFFF + 4), 0xFFFFFFFF)
      else Inl NoCanonicalSplit)"
proof -
  have s3: "splitSlack_from 3 slack = Inl NoCanonicalSplit"
    by (subst splitSlack_from.simps) simp
  have s2: "splitSlack_from 2 slack =
     (if slack < 2 then Inl NoCanonicalSplit
      else if slack \<le> 254 then Inr (2, slack - 2)
      else if 257 \<le> slack \<and> slack \<le> 65539 then Inr (2, slack - 4)
      else if 65542 \<le> slack \<and> slack \<le> 0xFFFFFFFF + 6 then Inr (2, slack - 6)
      else Inl NoCanonicalSplit)"
    by (subst splitSlack_from.simps) (simp add: Let_def s3)
  have s1: "splitSlack_from 1 slack =
     (if slack < 1 then splitSlack_from 2 slack
      else if slack \<le> 253 then Inr (1, slack - 1)
      else if 256 \<le> slack \<and> slack \<le> 65538 then Inr (1, slack - 3)
      else if 65541 \<le> slack \<and> slack \<le> 0xFFFFFFFF + 5 then Inr (1, slack - 5)
      else splitSlack_from 2 slack)"
    by (subst splitSlack_from.simps) (simp add: Let_def)
  show ?thesis
    unfolding splitSlack_def
    by (subst splitSlack_from.simps) (simp add: Let_def s1 s2)
qed

lemma splitSlack_cost:
  assumes "splitSlack slack = Inr (shim, bulk)"
  shows "0 \<le> shim \<and> shim \<le> 2 \<and> 0 \<le> bulk \<and> bulk \<le> 0xFFFFFFFF \<and>
         script_cost shim + script_cost bulk = slack"
  using assms
  by (simp add: splitSlack_eq script_cost_def varintSize_def split: if_splits; arith)

lemma splitSlack_total:
  "0 \<le> slack \<Longrightarrow> slack \<le> 0xFFFFFFFF + 6 \<Longrightarrow> \<exists>shim bulk. splitSlack slack = Inr (shim, bulk)"
  by (simp add: splitSlack_eq)

lemma splitSlack_error: "splitSlack slack = Inl e \<Longrightarrow> e = NoCanonicalSplit"
  by (simp add: splitSlack_eq split: if_splits)

section \<open>Cursor lemmas\<close>

definition varint_bytes :: "int \<Rightarrow> bytes" where
  "varint_bytes v =
     (if v < 0xFD then [word_of_int v]
      else if v \<le> 0xFFFF then 0xFD # le 2 (nat v)
      else if v \<le> 0xFFFFFFFF then 0xFE # le 4 (nat v)
      else 0xFF # le 8 (nat v))"

lemma length_varint_bytes [simp, byte_simps]: "length (varint_bytes v) = nat (varintSize v)"
  by (simp add: varint_bytes_def varintSize_def)

lemma put_filled:
  "length xs + length bs \<le> length d \<Longrightarrow>
   put (xs @ drop (length xs) d) (length xs) bs = Some ((xs @ bs) @ drop (length xs + length bs) d)"
  by (simp add: put_def add.commute)

lemma put_put_filled:
  assumes "length xs + 1 + length bs \<le> length d"
  shows "Option.bind (put (xs @ drop (length xs) d) (length xs) [c])
           (\<lambda>d'. put d' (length xs + 1) bs)
         = Some ((xs @ c # bs) @ drop (length xs + 1 + length bs) d)"
proof -
  have "put (xs @ drop (length xs) d) (length xs) [c] = Some ((xs @ [c]) @ drop (length xs + 1) d)"
    using put_filled [of xs "[c]" d] assms by simp
  then show ?thesis
    using put_filled [of "xs @ [c]" bs d] assms by simp
qed

lemma putVarint_filled:
  assumes "length xs + nat (varintSize v) \<le> length d"
  shows "putVarint (xs @ drop (length xs) d) (length xs) v =
         Some ((xs @ varint_bytes v) @ drop (length xs + nat (varintSize v)) d, nat (varintSize v))"
proof -
  have two: "Option.bind (put (xs @ drop (length xs) d) (length xs) [c])
       (\<lambda>d'. Option.bind (put d' (length xs + 1) bs) (\<lambda>d''. Some (d'', k)))
     = Some ((xs @ c # bs) @ drop (length xs + 1 + length bs) d, k)"
    if "length xs + 1 + length bs \<le> length d" for c bs and k :: nat
    using put_put_filled [OF that, of c]
    by (auto simp: bind_Some_iff)
  consider "v < 0xFD" | "\<not> v < 0xFD" "v \<le> 0xFFFF" | "\<not> v \<le> 0xFFFF" "v \<le> 0xFFFFFFFF"
    | "\<not> v \<le> 0xFFFFFFFF" by linarith
  then show ?thesis
    using assms put_filled [of xs "[word_of_int v]" d]
      two [of "le 2 (nat v)" "0xFD"] two [of "le 4 (nat v)" "0xFE"] two [of "le 8 (nat v)" "0xFF"]
    by cases (simp_all add: putVarint_def varint_bytes_def varintSize_def add.commute numeral_3_eq_3)
qed

lemma tx_put_filled [byte_simps]:
  "length xs + length bs \<le> length d \<Longrightarrow>
   tx_put bs (b, filled xs d) = Some (b, filled (xs @ bs) d)"
  by (simp add: tx_put_def emit_filled)

lemma tx_rand_filled [byte_simps]:
  "length xs + n \<le> length d \<Longrightarrow>
   tx_rand n (b, filled xs d) =
     Some (b\<lparr>rng := snd (fillRand (rng b) n)\<rparr>, filled (xs @ fst (fillRand (rng b) n)) d)"
  using length_fillRand [of "rng b" n]
  by (cases "fillRand (rng b) n") (simp add: tx_rand_def emit_filled)

lemma tx_varint_filled [byte_simps]:
  "length xs + nat (varintSize v) \<le> length d \<Longrightarrow>
   tx_varint v (b, filled xs d) = Some (b, filled (xs @ varint_bytes v) d)"
  by (simp add: tx_varint_def filled_def putVarint_filled)

lemma fillRand_0 [simp]: "fillRand r 0 = ([], r)"
  by (subst fillRand.simps) simp

lemma tx_script_filled [byte_simps]:
  assumes "length xs + nat n \<le> length d" and "0 \<le> n"
  shows "tx_script n (b, filled xs d) =
     Some (b\<lparr>rng := snd (fillRand (rng b) (nat n))\<rparr>,
           filled (xs @ fst (fillRand (rng b) (nat n))) d)"
proof (cases "n > 0")
  case True
  with assms show ?thesis by (simp add: tx_script_def tx_rand_filled)
next
  case False
  with assms show ?thesis by (simp add: tx_script_def)
qed

end
