(* ===== verification/Lane.thy ===== *)
theory Lane
  imports Prelude
begin

text \<open>
  The contract of a bare, single-class lane: a TCP stream that carries self-delimiting objects one
  after the other, with no tag, no length prefix and no padding. A codec is a walker that consumes
  exactly one leading object and returns the rest of the stream, together with the set of objects
  an emitter promises to write. The client is a reader that splits the stream; inside the locale
  it recovers any sequence of promised objects, whatever their number. The builders and emitters of
  this repository are interpretations, each with the walker of its documented wire grammar.
\<close>

text \<open>Reading primitives of the reference walkers.\<close>

definition skip :: "nat \<Rightarrow> bytes \<Rightarrow> bytes option" where
  "skip n bs = (if n \<le> length bs then Some (drop n bs) else None)"

fun skip_each :: "(bytes \<Rightarrow> bytes option) \<Rightarrow> nat \<Rightarrow> bytes \<Rightarrow> bytes option" where
  "skip_each w 0 bs = Some bs"
| "skip_each w (Suc n) bs = (case w bs of None \<Rightarrow> None | Some r \<Rightarrow> skip_each w n r)"

lemma skip_exact [byte_simps]: "n = length xs \<Longrightarrow> skip n (xs @ ys) = Some ys"
  by (simp add: skip_def)

lemma skip_exact2: "n = length xs + length ys \<Longrightarrow> skip n (xs @ ys @ zs) = Some zs"
  by (simp add: skip_def)

lemma skip_all [byte_simps]: "n = length xs \<Longrightarrow> skip n xs = Some []"
  by (simp add: skip_def)

text \<open>
  The reader of a lane: walk one object, cut it off, continue; stop at the end of the stream. The
  result is the list of objects and the unread rest (nonempty when the next object does not walk).
  A walker that makes no progress stops the reader too.
\<close>

function split_lane :: "(bytes \<Rightarrow> bytes option) \<Rightarrow> bytes \<Rightarrow> bytes list \<times> bytes" where
  "split_lane w bs =
     (case w bs of
        None \<Rightarrow> ([], bs)
      | Some r \<Rightarrow>
          if length r < length bs
          then (let (objs, rest) = split_lane w r in (take (length bs - length r) bs # objs, rest))
          else ([], bs))"
  by pat_completeness auto
termination
  by (relation "measure (\<lambda>(w, bs). length bs)") auto

declare split_lane.simps [simp del]

locale lane_codec =
  fixes walk :: "bytes \<Rightarrow> bytes option"
    and obj :: "bytes \<Rightarrow> bool"
  assumes walk_obj: "obj x \<Longrightarrow> walk (x @ r) = Some r"
    and obj_nonempty: "obj x \<Longrightarrow> x \<noteq> []"
    and walk_Nil: "walk [] = None"
begin

lemma split_lane_obj:
  assumes "obj x"
  shows "split_lane walk (x @ r) = (let (objs, rest) = split_lane walk r in (x # objs, rest))"
  using assms walk_obj [of x r] obj_nonempty [of x]
  by (subst split_lane.simps) (simp add: Let_def)

lemma split_lane_stream:
  assumes "\<forall>x \<in> set xs. obj x"
  shows "split_lane walk (concat xs) = (xs, [])"
  using assms
proof (induction xs)
  case Nil
  then show ?case by (subst split_lane.simps) (simp add: walk_Nil)
next
  case (Cons x xs)
  then show ?case by (simp add: split_lane_obj)
qed

text \<open>Two promised objects with a common extension are equal: the encoding is prefix free.\<close>

lemma obj_prefix_free:
  assumes "obj x" and "obj y" and "x @ r = y @ s"
  shows "x = y \<and> r = s"
proof -
  have "Some r = Some s"
    using walk_obj [OF assms(1), of r] walk_obj [OF assms(2), of s] assms(3) by simp
  with assms(3) show ?thesis by simp
qed

end

end
