(* ===== verification/Tx_Wire.thy ===== *)
theory Tx_Wire
  imports Tx Lane
begin

text \<open>
  What the builders of \<open>internal/tx\<close> promise on the wire: the bytes of a built transaction in closed
  form, the reference walkers of the two layouts documented in \<open>tx.go\<close> and \<open>ef.go\<close>, and the
  interpretation of the lane contract for raw and extended transactions.
\<close>

section \<open>Layouts\<close>

text \<open>Consecutive random draws, and the two layouts over the five random fields of a build.\<close>

primrec draws :: "nat list \<Rightarrow> chacha8 \<Rightarrow> bytes list \<times> chacha8" where
  "draws [] r = ([], r)"
| "draws (n # ns) r =
     (fst (fillRand r n) # fst (draws ns (snd (fillRand r n))), snd (draws ns (snd (fillRand r n))))"

fun raw_layout :: "bytes list \<Rightarrow> bytes" where
  "raw_layout [prev, unlock, sq, val, lock] =
     le 4 2 @ [1] @ prev @ varint_bytes (int (length unlock)) @ unlock @ sq @
     [1] @ val @ varint_bytes (int (length lock)) @ lock @ le 4 0"
| "raw_layout _ = []"

fun ef_layout :: "bytes list \<Rightarrow> bytes" where
  "ef_layout [prev, unlock, sq, lock] =
     le 4 2 @ efMarker @ [1] @ prev @ varint_bytes (int (length unlock)) @ unlock @ sq @
     le 8 0 @ varint_bytes 0 @ [1] @ le 8 0 @ varint_bytes (int (length lock)) @ lock @ le 4 0"
| "ef_layout _ = []"

definition raw_draws :: "int \<Rightarrow> int \<Rightarrow> nat list" where
  "raw_draws shim bulk = [36, nat shim, 4, 8, nat bulk]"

definition ef_draws :: "int \<Rightarrow> int \<Rightarrow> nat list" where
  "ef_draws shim bulk = [36, nat shim, 4, nat bulk]"

lemma varintSize_pos [simp]: "1 \<le> varintSize v"
  by (simp add: varintSize_def)

lemma script_room:
  assumes "0 \<le> L"
  shows "nat (varintSize L) + nat L = Suc (nat (script_cost L))" and "0 \<le> script_cost L"
  using assms by (auto simp: script_cost_def varintSize_def)

lemma Build_body_closed:
  assumes "0 \<le> shim" "0 \<le> bulk"
    and "length d = nat (60 + script_cost shim + script_cost bulk)"
  shows "Build_body shim bulk (b, filled [] d) =
     Some (b\<lparr>rng := snd (draws (raw_draws shim bulk) (rng b))\<rparr>,
           filled (raw_layout (fst (draws (raw_draws shim bulk) (rng b)))) d)"
  using assms script_room [OF assms(1)] script_room [OF assms(2)]
  by (simp add: Build_body_def byte_simps raw_draws_def nat_add_distrib)

lemma BuildEF_body_closed:
  assumes "0 \<le> shim" "0 \<le> bulk"
    and "length d = nat (75 + script_cost shim + script_cost bulk)"
  shows "BuildEF_body shim bulk (b, filled [] d) =
     Some (b\<lparr>rng := snd (draws (ef_draws shim bulk) (rng b))\<rparr>,
           filled (ef_layout (fst (draws (ef_draws shim bulk) (rng b)))) d)"
  using assms script_room [OF assms(1)] script_room [OF assms(2)]
  by (simp add: BuildEF_body_def byte_simps ef_draws_def efMarker_def varintSize_def [of 0] nat_add_distrib)

lemma length_raw_layout:
  assumes "0 \<le> shim" "0 \<le> bulk"
  shows "length (raw_layout (fst (draws (raw_draws shim bulk) r))) =
         nat (60 + script_cost shim + script_cost bulk)"
  using assms script_room [OF assms(1)] script_room [OF assms(2)]
  by (simp add: raw_draws_def nat_add_distrib)

lemma length_ef_layout:
  assumes "0 \<le> shim" "0 \<le> bulk"
  shows "length (ef_layout (fst (draws (ef_draws shim bulk) r))) =
         nat (75 + script_cost shim + script_cost bulk)"
  using assms script_room [OF assms(1)] script_room [OF assms(2)]
  by (simp add: ef_draws_def efMarker_def varintSize_def [of 0] nat_add_distrib)

section \<open>The builders in closed form\<close>

lemma build_with_closed:
  assumes body: "\<And>shim bulk d. 0 \<le> shim \<Longrightarrow> 0 \<le> bulk \<Longrightarrow>
        length d = nat (floor + script_cost shim + script_cost bulk) \<Longrightarrow>
        body shim bulk (b, filled [] d) = Some (b' shim bulk, filled (out shim bulk) d)"
    and len: "\<And>shim bulk. 0 \<le> shim \<Longrightarrow> 0 \<le> bulk \<Longrightarrow>
        length (out shim bulk) = nat (floor + script_cost shim + script_cost bulk)"
    and "floor \<le> n" and "0 \<le> floor"
  shows "build_with floor body b dst n =
     (case splitSlack (n - floor) of
        Inl e \<Rightarrow> (Inl e, b)
      | Inr (shim, bulk) \<Rightarrow> (Inr (out shim bulk), b' shim bulk))"
proof (cases "splitSlack (n - floor)")
  case (Inl e)
  with assms show ?thesis by (simp add: build_with_def)
next
  case (Inr sb)
  obtain shim bulk where sb: "sb = (shim, bulk)" by (cases sb)
  have cost: "0 \<le> shim" "0 \<le> bulk" "script_cost shim + script_cost bulk = n - floor"
    using splitSlack_cost Inr sb by auto
  define d where "d = take (nat n) (if length dst < nat n then replicate (nat n) 0 else dst)"
  have ld: "length d = nat n" by (auto simp: d_def)
  have n: "nat n = nat (floor + script_cost shim + script_cost bulk)"
    using cost(3) by simp
  have "body shim bulk (b, d, 0) = Some (b' shim bulk, filled (out shim bulk) d)"
    using body [OF cost(1,2), of d] ld n by (simp add: filled_Nil)
  moreover have "filled (out shim bulk) d = (out shim bulk, nat n)"
    using len [OF cost(1,2)] ld n by (simp add: filled_full)
  ultimately show ?thesis
    using assms(3,4) Inr sb by (simp add: build_with_def Let_def d_def [symmetric])
qed

lemma Build_closed:
  assumes "60 \<le> n"
  shows "Build b dst n =
     (case splitSlack (n - 60) of
        Inl e \<Rightarrow> (Inl e, b)
      | Inr (shim, bulk) \<Rightarrow>
          (Inr (raw_layout (fst (draws (raw_draws shim bulk) (rng b)))),
           b\<lparr>rng := snd (draws (raw_draws shim bulk) (rng b))\<rparr>))"
  unfolding Build_def MinRawSize_def
  by (rule build_with_closed)
    (use assms in \<open>simp_all add: Build_body_closed length_raw_layout\<close>)

lemma BuildEF_closed:
  assumes "75 \<le> n"
  shows "BuildEF b dst n =
     (case splitSlack (n - 75) of
        Inl e \<Rightarrow> (Inl e, b)
      | Inr (shim, bulk) \<Rightarrow>
          (Inr (ef_layout (fst (draws (ef_draws shim bulk) (rng b)))),
           b\<lparr>rng := snd (draws (ef_draws shim bulk) (rng b))\<rparr>))"
  unfolding BuildEF_def MinEFSize_def
  by (rule build_with_closed)
    (use assms in \<open>simp_all add: BuildEF_body_closed length_ef_layout\<close>)

section \<open>Reference walkers\<close>

text \<open>
  \<open>version (4) | vin_count (varint) | vin[] | vout_count (varint) | vout[] | locktime (4)\<close>, where an
  input is \<open>prev (36) | script | sequence (4)\<close>, followed in the extended format by
  \<open>satoshis (8) | script\<close>, and an output is \<open>value (8) | script\<close>; a script is a varint length
  and that many bytes. The extended format has the six marker bytes after the version.
\<close>

fun read_varint :: "bytes \<Rightarrow> (nat \<times> bytes) option" where
  "read_varint [] = None"
| "read_varint (b # r) =
     (if unat b < 0xFD then Some (unat b, r)
      else let k = (if b = 0xFD then 2 else if b = 0xFE then 4 else 8)
           in if k \<le> length r then Some (un_le (take k r), drop k r) else None)"

definition skip_script :: "bytes \<Rightarrow> bytes option" where
  "skip_script bs = do { (n, r) \<leftarrow> read_varint bs; skip n r }"

definition skip_vin :: "bool \<Rightarrow> bytes \<Rightarrow> bytes option" where
  "skip_vin ef bs = do {
     r \<leftarrow> skip 36 bs; r \<leftarrow> skip_script r; r \<leftarrow> skip 4 r;
     (if ef then do { r \<leftarrow> skip 8 r; skip_script r } else Some r) }"

definition skip_vout :: "bytes \<Rightarrow> bytes option" where
  "skip_vout bs = do { r \<leftarrow> skip 8 bs; skip_script r }"

definition has_ef_marker :: "bytes \<Rightarrow> bool" where
  "has_ef_marker bs \<longleftrightarrow> take 6 (drop 4 bs) = efMarker"

definition walk_tx :: "bytes \<Rightarrow> bytes option" where
  "walk_tx bs = do {
     let ef = has_ef_marker bs;
     r \<leftarrow> skip (if ef then 10 else 4) bs;
     (n, r) \<leftarrow> read_varint r;
     r \<leftarrow> skip_each (skip_vin ef) n r;
     (m, r) \<leftarrow> read_varint r;
     r \<leftarrow> skip_each skip_vout m r;
     skip 4 r }"

lemma read_varint_bytes:
  assumes "0 \<le> v" and "v \<le> 0xFFFFFFFF"
  shows "read_varint (varint_bytes v @ r) = Some (nat v, r)"
proof -
  have small: "unat (word_of_int v :: byte) = nat v" if "v < 0xFD"
    using that assms by (simp add: unsigned_of_int take_bit_int_eq_self)
  show ?thesis
    using assms small
    by (auto simp: varint_bytes_def byte_simps nat_less_iff)
qed

lemma skip_script_bytes [byte_simps]:
  "length s \<le> 0xFFFFFFFF \<Longrightarrow>
   skip_script (varint_bytes (int (length s)) @ s @ r) = Some r"
  by (simp add: skip_script_def read_varint_bytes byte_simps)

lemma read_varint_1 [simp]: "read_varint (1 # r) = Some (1, r)"
  by simp

lemma skip_script_empty: "skip_script (varint_bytes 0 @ r) = Some r"
  using skip_script_bytes [of "[]" r] by simp

lemma skip_each_1: "skip_each w 1 bs = w bs"
  by (simp add: option.case_eq_if)

lemma walk_raw_layout:
  assumes "length prev = 36" "length sq = 4" "length val = 8"
    and "length unlock \<le> 0xFFFFFFFF" "length lock \<le> 0xFFFFFFFF"
  shows "walk_tx (raw_layout [prev, unlock, sq, val, lock] @ r) = Some r"
    and "\<not> has_ef_marker (raw_layout [prev, unlock, sq, val, lock] @ r)"
proof -
  let ?t = "raw_layout [prev, unlock, sq, val, lock] @ r"
  show m: "\<not> has_ef_marker ?t"
    by (simp add: has_ef_marker_def efMarker_def)
  show "walk_tx ?t = Some r"
    unfolding walk_tx_def using m assms
    by (simp add: skip_each_1 skip_vin_def skip_vout_def byte_simps
        del: One_nat_def skip_each.simps)
qed

lemma walk_ef_layout:
  assumes "length prev = 36" "length sq = 4"
    and "length unlock \<le> 0xFFFFFFFF" "length lock \<le> 0xFFFFFFFF"
  shows "walk_tx (ef_layout [prev, unlock, sq, lock] @ r) = Some r"
    and "has_ef_marker (ef_layout [prev, unlock, sq, lock] @ r)"
proof -
  let ?t = "ef_layout [prev, unlock, sq, lock] @ r"
  show m: "has_ef_marker ?t"
    by (simp add: has_ef_marker_def efMarker_def)
  have "skip 10 (le 4 2 @ efMarker @ r') = Some r'" for r'
    by (rule skip_exact2) (simp add: efMarker_def)
  then show "walk_tx ?t = Some r"
    unfolding walk_tx_def using m assms
    by (simp add: skip_each_1 skip_vin_def skip_vout_def byte_simps skip_script_empty
        del: One_nat_def skip_each.simps)
qed


section \<open>The lane contract\<close>

text \<open>The objects the builders emit: layouts over fields of the documented widths.\<close>

inductive raw_obj :: "bytes \<Rightarrow> bool" where
  "length prev = 36 \<Longrightarrow> length sq = 4 \<Longrightarrow> length val = 8 \<Longrightarrow>
   length unlock \<le> 0xFFFFFFFF \<Longrightarrow> length lock \<le> 0xFFFFFFFF \<Longrightarrow>
   raw_obj (raw_layout [prev, unlock, sq, val, lock])"

inductive ef_obj :: "bytes \<Rightarrow> bool" where
  "length prev = 36 \<Longrightarrow> length sq = 4 \<Longrightarrow>
   length unlock \<le> 0xFFFFFFFF \<Longrightarrow> length lock \<le> 0xFFFFFFFF \<Longrightarrow>
   ef_obj (ef_layout [prev, unlock, sq, lock])"

definition tx_obj :: "bytes \<Rightarrow> bool" where
  "tx_obj x \<longleftrightarrow> raw_obj x \<or> ef_obj x"

lemma walk_tx_obj: "tx_obj x \<Longrightarrow> walk_tx (x @ r) = Some r"
  by (auto simp: tx_obj_def elim!: raw_obj.cases ef_obj.cases
      simp del: raw_layout.simps ef_layout.simps intro: walk_raw_layout(1) walk_ef_layout(1))

lemma tx_obj_nonempty: "tx_obj x \<Longrightarrow> x \<noteq> []"
  by (auto simp: tx_obj_def elim!: raw_obj.cases ef_obj.cases)

lemma walk_tx_Nil: "walk_tx [] = None"
  by (simp add: walk_tx_def skip_def Let_def)

interpretation tx_lane: lane_codec walk_tx tx_obj
  by unfold_locales (simp_all add: walk_tx_obj tx_obj_nonempty walk_tx_Nil)

lemma raw_draws_obj:
  assumes "splitSlack s = Inr (shim, bulk)"
  shows "raw_obj (raw_layout (fst (draws (raw_draws shim bulk) r)))"
  using splitSlack_cost [OF assms] unfolding raw_draws_def
  by (simp del: raw_layout.simps) (rule raw_obj.intros, simp_all add: nat_le_iff)

lemma ef_draws_obj:
  assumes "splitSlack s = Inr (shim, bulk)"
  shows "ef_obj (ef_layout (fst (draws (ef_draws shim bulk) r)))"
  using splitSlack_cost [OF assms] unfolding ef_draws_def
  by (simp del: ef_layout.simps) (rule ef_obj.intros, simp_all add: nat_le_iff)

lemma raw_obj_marker: "raw_obj x \<Longrightarrow> \<not> has_ef_marker (x @ r)"
  by (erule raw_obj.cases) (simp add: walk_raw_layout(2) del: raw_layout.simps)

lemma ef_obj_marker: "ef_obj x \<Longrightarrow> has_ef_marker (x @ r)"
  by (erule ef_obj.cases) (simp add: walk_ef_layout(2) del: ef_layout.simps)

text \<open>One step of either builder, for the components that call them.\<close>

lemma Build_ok:
  assumes "Build b dst n = (Inr t, b')"
  shows "60 \<le> n \<and> int (length t) = n \<and> raw_obj t"
proof -
  have n: "60 \<le> n"
    using assms by (auto simp: Build_def build_with_def MinRawSize_def split: if_splits)
  obtain shim bulk where sp: "splitSlack (n - 60) = Inr (shim, bulk)"
    and t: "t = raw_layout (fst (draws (raw_draws shim bulk) (rng b)))"
    using assms unfolding Build_closed [OF n] by (auto split: sum.splits)
  have c: "0 \<le> shim" "0 \<le> bulk" "script_cost shim + script_cost bulk = n - 60"
    using splitSlack_cost [OF sp] by auto
  show ?thesis
    using n c length_raw_layout [OF c(1,2)] raw_draws_obj [OF sp] by (simp add: t)
qed

lemma BuildEF_ok:
  assumes "BuildEF b dst n = (Inr t, b')"
  shows "75 \<le> n \<and> int (length t) = n \<and> ef_obj t"
proof -
  have n: "75 \<le> n"
    using assms by (auto simp: BuildEF_def build_with_def MinEFSize_def split: if_splits)
  obtain shim bulk where sp: "splitSlack (n - 75) = Inr (shim, bulk)"
    and t: "t = ef_layout (fst (draws (ef_draws shim bulk) (rng b)))"
    using assms unfolding BuildEF_closed [OF n] by (auto split: sum.splits)
  have c: "0 \<le> shim" "0 \<le> bulk" "script_cost shim + script_cost bulk = n - 75"
    using splitSlack_cost [OF sp] by auto
  show ?thesis
    using n c length_ef_layout [OF c(1,2)] ef_draws_obj [OF sp] by (simp add: t)
qed

lemma Build_result:
  "fst (Build b dst n) =
     (if n < 60 then Inl BelowMinimum
      else if 60 + (0xFFFFFFFF + 6) < n then Inl NoCanonicalSplit
      else Inr (projr (fst (Build b dst n))))"
proof (cases "n < 60")
  case True
  then show ?thesis by (simp add: Build_def build_with_def MinRawSize_def)
next
  case False
  then have n: "60 \<le> n" by simp
  show ?thesis
    unfolding Build_closed [OF n] using n
    by (auto simp: splitSlack_eq split: sum.splits prod.splits if_splits)
qed

lemma BuildEF_result:
  "fst (BuildEF b dst n) =
     (if n < 75 then Inl BelowMinimum
      else if 75 + (0xFFFFFFFF + 6) < n then Inl NoCanonicalSplit
      else Inr (projr (fst (BuildEF b dst n))))"
proof (cases "n < 75")
  case True
  then show ?thesis by (simp add: BuildEF_def build_with_def MinEFSize_def)
next
  case False
  then have n: "75 \<le> n" by simp
  show ?thesis
    unfolding BuildEF_closed [OF n] using n
    by (auto simp: splitSlack_eq split: sum.splits prod.splits if_splits)
qed


lemma Build_total:
  assumes "60 \<le> n" and "n \<le> 60 + (0xFFFFFFFF + 6)"
  shows "\<exists>t b'. Build b dst n = (Inr t, b')"
  using assms Build_result [of b dst n] by (cases "Build b dst n") auto

lemma BuildEF_total:
  assumes "75 \<le> n" and "n \<le> 75 + (0xFFFFFFFF + 6)"
  shows "\<exists>t b'. BuildEF b dst n = (Inr t, b')"
  using assms BuildEF_result [of b dst n] by (cases "BuildEF b dst n") auto

section \<open>Properties\<close>

text \<open>C1: The exact-size contract of \<open>Build\<close>. For every size from the raw minimum up to the five-byte
  varint ceiling, and whatever buffer is passed in, \<open>Build\<close> succeeds with exactly that many bytes,
  which are one raw transaction: the walker of the documented layout consumes all of it and leaves
  any following bytes untouched, and the bytes do not carry the extended-format marker.\<close>

theorem Build_exact:
  assumes "60 \<le> n" and "n \<le> 60 + (0xFFFFFFFF + 6)"
  shows "\<exists>t b'. Build b dst n = (Inr t, b') \<and> int (length t) = n \<and> \<not> has_ef_marker t \<and>
           (\<forall>rest. walk_tx (t @ rest) = Some rest)"
proof -
  obtain t b' where t: "Build b dst n = (Inr t, b')"
    using assms Build_result [of b dst n]
    by (cases "Build b dst n") (auto simp del: Product_Type.prod.collapse)
  from Build_ok [OF t] have "int (length t) = n" "raw_obj t" by simp_all
  then show ?thesis
    using t raw_obj_marker [of t "[]"] walk_tx_obj [of t] by (auto simp: tx_obj_def)
qed

theorem Build_exact_witness:
  "\<exists>t b'. Build (tx_New (replicate 32 7)) [] 313 = (Inr t, b') \<and> int (length t) = 313 \<and>
     \<not> has_ef_marker t \<and> (\<forall>rest. walk_tx (t @ rest) = Some rest)"
  by (rule Build_exact) simp_all

text \<open>C2: The same contract for \<open>BuildEF\<close>, from the extended-format minimum: the result is exactly one
  transaction of the requested size, it carries the marker after the version, and the walker of the
  extended layout leaves exactly what follows it.\<close>

theorem BuildEF_exact:
  assumes "75 \<le> n" and "n \<le> 75 + (0xFFFFFFFF + 6)"
  shows "\<exists>t b'. BuildEF b dst n = (Inr t, b') \<and> int (length t) = n \<and> has_ef_marker t \<and>
           (\<forall>rest. walk_tx (t @ rest) = Some rest)"
proof -
  obtain t b' where t: "BuildEF b dst n = (Inr t, b')"
    using assms BuildEF_result [of b dst n]
    by (cases "BuildEF b dst n") (auto simp del: Product_Type.prod.collapse)
  from BuildEF_ok [OF t] have "int (length t) = n" "ef_obj t" by simp_all
  then show ?thesis
    using t ef_obj_marker [of t "[]"] walk_tx_obj [of t] by (auto simp: tx_obj_def)
qed

theorem BuildEF_exact_witness:
  "\<exists>t b'. BuildEF (tx_New (replicate 32 7)) [1, 2, 3] 65613 = (Inr t, b') \<and>
     int (length t) = 65613 \<and> has_ef_marker t \<and> (\<forall>rest. walk_tx (t @ rest) = Some rest)"
  by (rule BuildEF_exact) simp_all

text \<open>The errors of the builders, completely: a size below the format minimum, or above the largest
  representable size, and nothing else. No store is ever out of range and the final offset check
  never fires.\<close>

theorem build_errors:
  "(fst (Build b dst n) = Inl e \<longleftrightarrow>
      (e = BelowMinimum \<and> n < 60) \<or> (e = NoCanonicalSplit \<and> 60 + (0xFFFFFFFF + 6) < n)) \<and>
   (fst (BuildEF b dst n) = Inl e \<longleftrightarrow>
      (e = BelowMinimum \<and> n < 75) \<or> (e = NoCanonicalSplit \<and> 75 + (0xFFFFFFFF + 6) < n))"
  by (subst (1) Build_result, subst (1) BuildEF_result) auto

text \<open>A reused buffer never leaks: the result and the generator state do not depend on the bytes
  or the capacity of the slice passed as \<open>dst\<close>.\<close>

theorem build_ignores_dst:
  "Build b dst n = Build b dst' n \<and> BuildEF b dst n = BuildEF b dst' n"
proof
  show "Build b dst n = Build b dst' n"
    by (cases "60 \<le> n") (simp_all add: Build_closed, simp add: Build_def build_with_def MinRawSize_def)
  show "BuildEF b dst n = BuildEF b dst' n"
    by (cases "75 \<le> n") (simp_all add: BuildEF_closed, simp add: BuildEF_def build_with_def MinEFSize_def)
qed

text \<open>\<open>splitSlack\<close> is exact and minimal: it returns \<open>(shim, bulk)\<close> if and only if the two scripts
  with their canonical length prefixes cost exactly the slack and no smaller shim can reach it; so
  it fails only for a slack that no pair of scripts represents.\<close>

theorem splitSlack_spec:
  "splitSlack slack = Inr (s, b) \<longleftrightarrow>
     0 \<le> s \<and> s \<le> 2 \<and> 0 \<le> b \<and> b \<le> 0xFFFFFFFF \<and> script_cost s + script_cost b = slack \<and>
     (\<forall>s' b'. 0 \<le> s' \<and> s' < s \<and> 0 \<le> b' \<and> b' \<le> 0xFFFFFFFF \<longrightarrow> script_cost s' + script_cost b' \<noteq> slack)"
  (is "?lhs s b \<longleftrightarrow> ?rhs s b")
proof
  show "?rhs s b" if "?lhs s b" for s b
    using that splitSlack_cost [OF that]
    by (auto simp: splitSlack_eq script_cost_def varintSize_def split: if_splits)
  assume r: "?rhs s b"
  then have "0 \<le> slack \<and> slack \<le> 0xFFFFFFFF + 6"
    by (auto simp: script_cost_def varintSize_def split: if_splits)
  then obtain s0 b0 where l0: "?lhs s0 b0" using splitSlack_total by blast
  then have r0: "?rhs s0 b0" by (rule \<open>\<And>s b. ?lhs s b \<Longrightarrow> ?rhs s b\<close>)
  have "s = s0" using r r0 by (metis linorder_less_linear)
  moreover have "b = b0"
    using r r0 \<open>s = s0\<close> by (auto simp: script_cost_def varintSize_def split: if_splits)
  ultimately show "?lhs s b" using l0 by simp
qed

theorem splitSlack_spec_witness:
  "splitSlack 253 = Inr (1, 252) \<and> script_cost 1 + script_cost 252 = 253"
proof -
  have "splitSlack 253 = Inr (1, 252)" by (simp add: splitSlack_eq)
  with splitSlack_spec [of 253 1 252] show ?thesis by simp
qed

text \<open>C3: Built transactions stay in sync on a stream: any sequence of successful builds, raw and
  extended mixed, written back to back, is split by the lane reader into exactly those
  transactions, with nothing left over.\<close>

theorem built_stream_splits:
  assumes "\<forall>t \<in> set ts. \<exists>b dst n b'. Build b dst n = (Inr t, b') \<or> BuildEF b dst n = (Inr t, b')"
  shows "split_lane walk_tx (concat ts) = (ts, [])"
proof (rule tx_lane.split_lane_stream)
  show "\<forall>t \<in> set ts. tx_obj t"
    using assms by (metis Build_ok BuildEF_ok tx_obj_def)
qed

theorem built_stream_splits_witness:
  "\<exists>t u. fst (Build (tx_New (replicate 32 1)) [] 60) = Inr t \<and>
         fst (BuildEF (tx_New (replicate 32 2)) [] 75) = Inr u \<and>
         split_lane walk_tx (concat [t, u, t]) = ([t, u, t], [])"
proof -
  obtain t b' where t: "Build (tx_New (replicate 32 1)) [] 60 = (Inr t, b')"
    using Build_result [of "tx_New (replicate 32 1)" "[]" 60]
    by (cases "Build (tx_New (replicate 32 1)) [] 60") auto
  obtain u b'' where u: "BuildEF (tx_New (replicate 32 2)) [] 75 = (Inr u, b'')"
    using BuildEF_result [of "tx_New (replicate 32 2)" "[]" 75]
    by (cases "BuildEF (tx_New (replicate 32 2)) [] 75") auto
  have "split_lane walk_tx (concat [t, u, t]) = ([t, u, t], [])"
    by (rule built_stream_splits) (use t u in auto)
  with t u show ?thesis by auto
qed

end
