(* ===== verification/Objfmt_Ref.thy ===== *)
theory Objfmt_Ref
  imports Tx_Wire Shard_Common
begin

text \<open>
  An instance of the \<open>objfmt\<close> parameters that satisfies everything documented of the package: it is
  what the witnesses instantiate, and stands for no code. The identifier of a transaction is the
  double SHA-256 of its bytes; the sizes follow the grammars in the comments of the commands.
\<close>

definition ref_tx_size :: "bytes \<Rightarrow> size_result" where
  "ref_tx_size bs = (case walk_tx bs of None \<Rightarrow> Size_short | Some r \<Rightarrow> Size_ok (length bs - length r))"

definition ref_subtree_size :: "bytes \<Rightarrow> size_result" where
  "ref_subtree_size bs =
     (let n = un_be (take 8 (drop 32 bs)) in
      if length bs < 40 \<or> length bs < 40 + 32 * n then Size_short else Size_ok (40 + 32 * n))"

definition ref_block_size :: "bytes \<Rightarrow> size_result" where
  "ref_block_size bs =
     (if length bs < 104 then Size_short
      else case walk_tx (drop (104 + 32 * un_be (take 8 (drop 96 bs))) bs) of
             None \<Rightarrow> Size_short
           | Some r \<Rightarrow>
               let k = un_be (take 8 (drop 8 r)) in
               if length r < 16 + k then Size_short else Size_ok (length bs - (length r - (16 + k))))"

definition ref_objfmt :: objfmt_pkg where
  "ref_objfmt = \<lparr>obj_TxID = (\<lambda>t. Some (sha256d t)), obj_IsEF = has_ef_marker,
     obj_Size = (\<lambda>c. case c of ClassTx \<Rightarrow> ref_tx_size | ClassSubtree \<Rightarrow> ref_subtree_size
                              | ClassBlock \<Rightarrow> ref_block_size),
     obj_SubtreeSize = ref_subtree_size, obj_BlockSize = ref_block_size,
     SubtreeHeaderSize = 40, BlockPrefixSize = 104\<rparr>"

lemma ref_objfmt_txid: "txid_doc ref_objfmt good"
  by (simp add: txid_doc_def ref_objfmt_def)

lemma length_concat_32: "\<forall>h \<in> set hs. length h = k \<Longrightarrow> length (concat hs) = k * length hs"
  by (induction hs) simp_all

lemma ref_objfmt_subtree: "subtree_doc ref_objfmt"
  by (auto simp: subtree_doc_def ref_objfmt_def ref_subtree_size_def length_concat_32 [where k = 32] un_be_be Let_def)

lemma ref_objfmt_block: "block_doc ref_objfmt raw_obj"
proof -
  have "ref_block_size (block_body hdr txs sz n roots cb height bump) =
      Size_ok (length (block_body hdr txs sz n roots cb height bump))"
    if "length hdr = 80" "n < 2 ^ 32" "length roots = 32 * n" "raw_obj cb" "length bump < 2 ^ 32"
    for hdr txs sz n roots cb height bump
  proof -
    let ?b = "block_body hdr txs sz n roots cb height bump"
    let ?r = "be 8 height @ be 8 (length bump) @ bump"
    have "take 8 (drop 96 ?b) = be 8 n" "drop (104 + 32 * n) ?b = cb @ ?r"
      using that by (simp_all add: block_body_def)
    moreover have "walk_tx (cb @ ?r) = Some ?r"
      using that(4) by (intro walk_tx_obj) (simp add: tx_obj_def)
    moreover have "104 \<le> length ?b" using that by (simp add: block_body_def)
    ultimately show ?thesis
      using that by (simp add: ref_block_size_def un_be_be Let_def)
  qed
  then show ?thesis by (simp add: block_doc_def ref_objfmt_def)
qed

text \<open>The walkers never lengthen their input, so a whole object has at least one byte.\<close>

lemma skip_le: "skip n bs = Some r \<Longrightarrow> length r + n = length bs"
  by (auto simp: skip_def split: if_splits)

lemma read_varint_le: "read_varint bs = Some (n, r) \<Longrightarrow> length r \<le> length bs"
  by (cases bs) (auto simp: Let_def split: if_splits)

lemma skip_script_le: "skip_script bs = Some r \<Longrightarrow> length r \<le> length bs"
  by (auto simp: skip_script_def bind_eq_Some_conv dest!: skip_le read_varint_le)

lemma skip_vin_le: "skip_vin ef bs = Some r \<Longrightarrow> length r \<le> length bs"
  by (auto simp: skip_vin_def bind_eq_Some_conv dest!: skip_le skip_script_le split: if_splits)

lemma skip_vout_le: "skip_vout bs = Some r \<Longrightarrow> length r \<le> length bs"
  by (auto simp: skip_vout_def bind_eq_Some_conv dest!: skip_le skip_script_le)

lemma skip_each_le:
  assumes "\<And>b r. w b = Some r \<Longrightarrow> length r \<le> length b"
  shows "skip_each w n bs = Some r \<Longrightarrow> length r \<le> length bs"
proof (induction n arbitrary: bs)
  case (Suc n)
  then obtain b where "w bs = Some b" "skip_each w n b = Some r" by (auto split: option.splits)
  with Suc.IH [of b] assms [of bs b] show ?case by simp
qed simp

lemma skip_vins_le: "skip_each (skip_vin ef) n bs = Some r \<Longrightarrow> length r \<le> length bs"
  by (rule skip_each_le) (rule skip_vin_le)

lemma skip_vouts_le: "skip_each skip_vout n bs = Some r \<Longrightarrow> length r \<le> length bs"
  by (rule skip_each_le) (rule skip_vout_le)

lemma walk_tx_less: "walk_tx bs = Some r \<Longrightarrow> length r < length bs"
  by (auto simp: walk_tx_def bind_eq_Some_conv Let_def
      dest!: skip_le read_varint_le skip_vins_le skip_vouts_le split: if_splits)

end
