(* ===== verification/Send_Anchor.thy ===== *)
theory Send_Anchor
  imports Frames Objfmt_Ref
begin

text \<open>
  \<open>cmd/send-anchor-frame\<close>: the BRC-134 frame encoder and the command's run. The dial result and the
  result of each write are inputs; a fatal exit carries the frames written before it. The PRNG seed
  is the 32 bytes read from \<open>crypto/rand\<close>.
\<close>

definition magicBSV :: u32 where
  "magicBSV = 0xE3E1F3E8"

definition protoVer :: u16 where
  "protoVer = 0x02BF"

definition frameVerV6 :: byte where
  "frameVerV6 = 0x06"

definition headerSize :: nat where
  "headerSize = 92"

definition encodeAnchorFrame :: "bytes \<Rightarrow> bytes \<Rightarrow> bytes option" where
  "encodeAnchorFrame txid payload = do {
     buf \<leftarrow> Some (replicate (headerSize + length payload) 0);
     buf \<leftarrow> put buf 0 (be 4 (unat magicBSV));
     buf \<leftarrow> put buf 4 (be 2 (unat protoVer));
     buf \<leftarrow> put buf 6 [frameVerV6];
     buf \<leftarrow> put buf 7 [0x00];
     buf \<leftarrow> copy_slice buf 8 40 txid;
     buf \<leftarrow> put buf 88 (be 4 (length payload));
     copy_from buf 92 payload
   }"

text \<open>The loop over \<open>count\<close> frames: \<open>i\<close> is the frame index, \<open>k\<close> the frames still to send.\<close>

fun anchor_loop ::
  "objfmt_pkg \<Rightarrow> (nat \<Rightarrow> bool) \<Rightarrow> int \<Rightarrow> nat \<Rightarrow> nat \<Rightarrow> Builder \<Rightarrow> bytes list \<Rightarrow> outcome" where
  "anchor_loop ob send_ok sz 0 i txb out = Finished out"
| "anchor_loop ob send_ok sz (Suc k) i txb out =
     (case Build txb [] sz of
        (Inl e, _) \<Rightarrow> Fatal (AtBuild i) out
      | (Inr payload, txb') \<Rightarrow>
          (case obj_TxID ob payload of
             None \<Rightarrow> Fatal (AtTxID i) out
           | Some txid \<Rightarrow>
               (case encodeAnchorFrame txid payload of
                  None \<Rightarrow> Fatal (AtEncode i) out
                | Some frame \<Rightarrow>
                    if send_ok i then anchor_loop ob send_ok sz k (Suc i) txb' (out @ [frame])
                    else Fatal (AtSend i) out)))"

definition anchor_main ::
  "objfmt_pkg \<Rightarrow> bool \<Rightarrow> (nat \<Rightarrow> bool) \<Rightarrow> bytes \<Rightarrow> int \<Rightarrow> int \<Rightarrow> outcome" where
  "anchor_main ob dial_ok send_ok seed count payloadSize =
     (if payloadSize < MinRawSize then Fatal AtFlags []
      else if \<not> dial_ok then Fatal AtDial []
      else anchor_loop ob send_ok payloadSize (nat count) 0 (tx_New seed) [])"

section \<open>The frame in closed form\<close>

lemma encodeAnchorFrame_layout:
  assumes "length txid = 32"
  shows "encodeAnchorFrame txid payload =
     Some (header92 6 0 txid 0 0 (replicate 32 0) (length payload) @ payload)"
proof -
  have len: "put (xs @ replicate n 0) 88 bs =
      Some ((xs @ be 8 0 @ be 8 0 @ replicate 32 0 @ bs) @ replicate (n - 52) 0)"
    if "length xs = 40" "52 \<le> n" "length bs = 4" for xs n bs
    using that put_zeros_gap [of 88 xs 48 bs n] by (simp add: be_zero replicate_app_Cons_same flip: replicate_add append_assoc)
  show ?thesis
    using assms
    by (simp add: encodeAnchorFrame_def headerSize_def magicBSV_def protoVer_def frameVerV6_def
        zero_buffer len header92_def del: append_assoc)
qed

definition anchor_ver :: "bytes \<Rightarrow> byte" where
  "anchor_ver txid = frameVerV6"

interpretation anchor: frame_emitter encodeAnchorFrame anchor_ver "\<lambda>txid. length txid = 32"
proof unfold_locales
  fix txid p :: bytes
  assume "length txid = 32" "length p < 2 ^ 32"
  then show "\<exists>hdr. encodeAnchorFrame txid p = Some (hdr @ p) \<and> frame_shape (anchor_ver txid) hdr p"
    by (auto simp: encodeAnchorFrame_layout anchor_ver_def frameVerV6_def intro!: frame_shape_header92)
next
  show "anchor_ver txid \<noteq> 1 \<and> anchor_ver txid \<noteq> 3" for txid
    by (simp add: anchor_ver_def frameVerV6_def)
qed


section \<open>The run\<close>

text \<open>A frame the command may write: a raw transaction of the requested size under its own TxID.\<close>

definition anchor_frame :: "objfmt_pkg \<Rightarrow> int \<Rightarrow> bytes \<Rightarrow> bool" where
  "anchor_frame ob sz f \<longleftrightarrow>
     (\<exists>t txid. obj_TxID ob t = Some txid \<and> length txid = 32 \<and> raw_obj t \<and> int (length t) = sz \<and>
        f = header92 6 0 txid 0 0 (replicate 32 0) (length t) @ t)"

fun written :: "outcome \<Rightarrow> bytes list" where
  "written (Finished out) = out"
| "written (Fatal a out) = out"

lemma anchor_step_frame:
  assumes "txid_doc ob raw_obj" and "Build txb [] sz = (Inr t, txb')"
  shows "\<exists>txid f. obj_TxID ob t = Some txid \<and> encodeAnchorFrame txid t = Some f \<and> anchor_frame ob sz f"
proof -
  have t: "int (length t) = sz" "raw_obj t" using Build_ok [OF assms(2)] by simp_all
  obtain txid where id: "obj_TxID ob t = Some txid" "length txid = 32"
    using assms(1) t(2) by (auto simp: txid_doc_def)
  with t show ?thesis
    by (auto simp: encodeAnchorFrame_layout anchor_frame_def)
qed

lemma anchor_loop_frames:
  assumes "txid_doc ob raw_obj" and "\<forall>f \<in> set out. anchor_frame ob sz f"
  shows "\<forall>f \<in> set (written (anchor_loop ob send_ok sz k i txb out)). anchor_frame ob sz f"
  using assms(2)
proof (induction k arbitrary: i txb out)
  case 0
  then show ?case by simp
next
  case (Suc k)
  obtain r txb' where b: "Build txb [] sz = (r, txb')" by (cases "Build txb [] sz")
  show ?case
  proof (cases r)
    case (Inl e)
    with Suc.prems b show ?thesis by simp
  next
    case (Inr t)
    then obtain txid f where "obj_TxID ob t = Some txid" "encodeAnchorFrame txid t = Some f"
      "anchor_frame ob sz f"
      using anchor_step_frame [OF assms(1)] b by blast
    moreover from this have "\<forall>g \<in> set (written (anchor_loop ob send_ok sz k (Suc i) txb' (out @ [f]))).
        anchor_frame ob sz g"
      using Suc.prems by (intro Suc.IH) auto
    ultimately show ?thesis using Suc.prems b Inr by simp
  qed
qed

lemma anchor_loop_finishes:
  assumes "txid_doc ob raw_obj" and "60 \<le> sz" "sz \<le> 60 + (0xFFFFFFFF + 6)" and "\<forall>i. send_ok i"
  shows "\<exists>new. anchor_loop ob send_ok sz k i txb out = Finished (out @ new) \<and> length new = k"
proof (induction k arbitrary: i txb out)
  case 0
  then show ?case by simp
next
  case (Suc k)
  obtain t txb' where b: "Build txb [] sz = (Inr t, txb')"
    using Build_total [OF assms(2,3)] by blast
  obtain txid f where f: "obj_TxID ob t = Some txid" "encodeAnchorFrame txid t = Some f"
    using anchor_step_frame [OF assms(1) b] by blast
  obtain new where "anchor_loop ob send_ok sz k (Suc i) txb' (out @ [f]) = Finished ((out @ [f]) @ new)"
    "length new = k"
    using Suc.IH by blast
  then show ?case
    using b f assms(4) [THEN spec, of i] by (intro exI [of _ "f # new"]) simp
qed

section \<open>Properties\<close>

text \<open>Every frame the command writes, whether the run finishes or dies, is a BRC-134 frame with a
  zero HashKey, SeqNum and SubtreeID whose payload is exactly one raw transaction of the requested
  size, stamped with that transaction's own TxID; and when dialling and all writes succeed the run
  finishes with exactly \<open>count\<close> of them (none for a non-positive count).\<close>

theorem anchor_main_frames:
  assumes "txid_doc ob raw_obj" and "sz \<le> 60 + (0xFFFFFFFF + 6)"
  shows "(\<forall>f \<in> set (written (anchor_main ob dial_ok send_ok seed count sz)). anchor_frame ob sz f) \<and>
     (60 \<le> sz \<and> dial_ok \<and> (\<forall>i. send_ok i) \<longrightarrow>
        (\<exists>out. anchor_main ob dial_ok send_ok seed count sz = Finished out \<and> length out = nat count))"
proof
  show "\<forall>f \<in> set (written (anchor_main ob dial_ok send_ok seed count sz)). anchor_frame ob sz f"
    using anchor_loop_frames [OF assms(1), of "[]" sz] by (simp add: anchor_main_def)
  show "60 \<le> sz \<and> dial_ok \<and> (\<forall>i. send_ok i) \<longrightarrow>
      (\<exists>out. anchor_main ob dial_ok send_ok seed count sz = Finished out \<and> length out = nat count)"
    using anchor_loop_finishes [OF assms(1) _ assms(2), of send_ok "nat count" 0 "tx_New seed" "[]"]
    by (simp add: anchor_main_def MinRawSize_def)
qed

theorem anchor_main_frames_witness:
  "\<exists>out. anchor_main ref_objfmt True (\<lambda>i. True) (replicate 32 1) 3 256 = Finished out \<and>
     length out = 3 \<and> anchor_frame ref_objfmt 256 (hd out)"
proof -
  obtain out where "anchor_main ref_objfmt True (\<lambda>i. True) (replicate 32 1) 3 256 = Finished out"
    "length out = 3"
    using anchor_main_frames [OF ref_objfmt_txid, of 256 True "\<lambda>i. True" "replicate 32 1" 3] by auto
  moreover from this have "hd out \<in> set out" by (cases out) auto
  ultimately show ?thesis
    using anchor_main_frames [OF ref_objfmt_txid, of 256 True "\<lambda>i. True" "replicate 32 1" 3] by auto
qed

end
