(* ===== verification/Block_Hdr.thy ===== *)
theory Block_Hdr
  imports Go_Std
begin

text \<open>
  \<open>internal/blockhdr\<close>: the compact difficulty, the nonce search and the block hash. \<open>pow.CheckHeader\<close>
  with a nil floor is the parameter \<open>chk\<close>. The search mutates the header; the model returns it.
\<close>

definition hdr_Len :: nat where
  "hdr_Len = 80"

definition nBitsOffset :: nat where
  "nBitsOffset = 72"

definition nonceOffset :: nat where
  "nonceOffset = 76"

definition BitsRegtest :: u32 where
  "BitsRegtest = 0x207fffff"

definition SetBits :: "bytes \<Rightarrow> u32 \<Rightarrow> bytes option" where
  "SetBits hdr bits = put hdr nBitsOffset (le 4 (unat bits))"

definition Hash :: "bytes \<Rightarrow> bytes" where
  "Hash hdr = sha256 (sha256 hdr)"

function grind_loop :: "(bytes \<Rightarrow> bool) \<Rightarrow> nat \<Rightarrow> u32 \<Rightarrow> bytes \<Rightarrow> bytes option" where
  "grind_loop chk i nonce hdr =
     (if i < 2 ^ 32 then
        case put hdr nonceOffset (le 4 (unat nonce)) of
          None \<Rightarrow> None
        | Some h \<Rightarrow> if chk h then Some h else grind_loop chk (Suc i) (nonce + 1) h
      else Some hdr)"
  by pat_completeness auto
termination
  by (relation "measure (\<lambda>(chk, i, nonce, hdr). 2 ^ 32 - i)") auto

declare grind_loop.simps [simp del]

definition Grind :: "(bytes \<Rightarrow> bool) \<Rightarrow> bytes \<Rightarrow> u32 \<Rightarrow> (bytes \<times> bytes) option" where
  "Grind chk hdr start = map_option (\<lambda>h. (h, Hash h)) (grind_loop chk 0 start hdr)"

section \<open>Lemmas\<close>

definition with_nonce :: "bytes \<Rightarrow> u32 \<Rightarrow> bytes" where
  "with_nonce hdr n = take 76 hdr @ le 4 (unat n) @ drop 80 hdr"

lemma put_nonce:
  "80 \<le> length hdr \<Longrightarrow> put hdr nonceOffset (le 4 (unat n)) = Some (with_nonce hdr n)"
  by (simp add: put_def nonceOffset_def with_nonce_def)

lemma with_nonce_twice: "80 \<le> length hdr \<Longrightarrow> with_nonce (with_nonce hdr a) b = with_nonce hdr b"
  by (simp add: with_nonce_def)

lemma length_with_nonce: "80 \<le> length hdr \<Longrightarrow> length (with_nonce hdr n) = length hdr"
  by (simp add: with_nonce_def)

text \<open>
  From candidate \<open>i\<close> on, the loop stops at the first candidate that passes, or at the last one.
\<close>

lemma grind_loop_first:
  assumes "80 \<le> length hdr" and "i < 2 ^ 32"
  shows "\<exists>k. i \<le> k \<and> k < 2 ^ 32 \<and>
     grind_loop chk i (start + word_of_nat i) hdr = Some (with_nonce hdr (start + word_of_nat k)) \<and>
     (\<forall>j. i \<le> j \<and> j < k \<longrightarrow> \<not> chk (with_nonce hdr (start + word_of_nat j))) \<and>
     (chk (with_nonce hdr (start + word_of_nat k)) \<or> k = 2 ^ 32 - 1)"
  using assms
proof (induction "2 ^ 32 - i" arbitrary: i hdr)
  case 0
  then show ?case by simp
next
  case (Suc d)
  let ?c = "\<lambda>j. with_nonce hdr (start + word_of_nat j)"
  note step = grind_loop.simps [of chk i "start + word_of_nat i" hdr]
  show ?case
  proof (cases "chk (?c i)")
    case True
    then show ?thesis
      using Suc.prems by (intro exI [of _ i]) (auto simp: step put_nonce)
  next
    case no: False
    show ?thesis
    proof (cases "Suc i < 2 ^ 32")
      case True
      have "d = 2 ^ 32 - Suc i" using Suc.hyps(2) by simp
      then obtain k where k: "Suc i \<le> k" "k < 2 ^ 32"
        "grind_loop chk (Suc i) (start + word_of_nat (Suc i)) (?c i) = Some (with_nonce (?c i) (start + word_of_nat k))"
        "\<forall>j. Suc i \<le> j \<and> j < k \<longrightarrow> \<not> chk (with_nonce (?c i) (start + word_of_nat j))"
        "chk (with_nonce (?c i) (start + word_of_nat k)) \<or> k = 2 ^ 32 - 1"
        using Suc.hyps(1) [of "Suc i" "?c i"] True Suc.prems(1) by (auto simp: length_with_nonce)
      have "\<forall>j. i \<le> j \<and> j < k \<longrightarrow> \<not> chk (?c j)"
        using k(4) no Suc.prems(1) by (metis Suc_leI le_neq_implies_less with_nonce_twice)
      then show ?thesis
        using k Suc.prems no
        by (intro exI [of _ k]) (simp add: step put_nonce with_nonce_twice ac_simps)
    next
      case False
      then have last: "i = 2 ^ 32 - 1" using Suc.prems(2) by simp
      have "grind_loop chk (Suc i) n h = Some h" for n h
        using False by (subst grind_loop.simps) simp
      then have "grind_loop chk i (start + word_of_nat i) hdr = Some (?c i)"
        using Suc.prems no by (simp add: step put_nonce)
      then show ?thesis
        using Suc.prems last by (intro exI [of _ i]) auto
    qed
  qed
qed

lemma u32_offset: "\<exists>k < 2 ^ 32. n = start + (word_of_nat k :: u32)"
proof (intro exI conjI)
  show "unat (n - start) < 2 ^ 32" using unsigned_less [of "n - start", where ?'a = nat] by simp
  show "n = start + word_of_nat (unat (n - start))" by simp
qed

lemma Grind_search:
  assumes "80 \<le> length hdr"
  shows "\<exists>n. Grind chk hdr start = Some (with_nonce hdr n, Hash (with_nonce hdr n)) \<and>
     (if \<exists>m. chk (with_nonce hdr m) then chk (with_nonce hdr n) else n = start - 1)"
proof -
  obtain k where k: "k < 2 ^ 32"
    "grind_loop chk 0 (start + word_of_nat 0) hdr = Some (with_nonce hdr (start + word_of_nat k))"
    "\<forall>j. 0 \<le> j \<and> j < k \<longrightarrow> \<not> chk (with_nonce hdr (start + word_of_nat j))"
    "chk (with_nonce hdr (start + word_of_nat k)) \<or> k = 2 ^ 32 - 1"
    using grind_loop_first [OF assms, of 0 chk start] by auto
  let ?n = "start + word_of_nat k"
  have all: "chk (with_nonce hdr ?n)" if "chk (with_nonce hdr m)" for m
  proof (rule ccontr)
    assume no: "\<not> chk (with_nonce hdr ?n)"
    then have last: "k = 2 ^ 32 - 1" using k(4) by simp
    obtain j where j: "j < 2 ^ 32" "m = start + word_of_nat j" using u32_offset by blast
    with that no have "j \<noteq> k" by auto
    with j(1) last have "j < k" by simp
    with k(3) that j(2) show False by simp
  qed
  have "?n = start - 1" if "\<not> chk (with_nonce hdr ?n)"
  proof -
    have "k = 2 ^ 32 - 1" using that k(4) by simp
    then have "(word_of_nat k :: u32) = - 1" by simp
    then show ?thesis by simp
  qed
  then show ?thesis
    using k(2) all by (intro exI [of _ ?n]) (auto simp: Grind_def)
qed

lemma SetBits_keeps:
  assumes "80 \<le> length hdr"
  shows "\<exists>h. SetBits hdr bits = Some h \<and> length h = length hdr \<and>
     un_le (take 4 (drop 72 h)) = unat bits \<and> take 72 h = take 72 hdr \<and> drop 76 h = drop 76 hdr \<and>
     (\<forall>n. take 4 (drop 72 (with_nonce h n)) = take 4 (drop 72 h))"
proof -
  have b: "unat bits < 256 ^ 4" using unsigned_less [of bits, where ?'a = nat] by simp
  have s: "SetBits hdr bits = Some (take 72 hdr @ le 4 (unat bits) @ drop 76 hdr)"
    using assms by (simp add: SetBits_def put_def nBitsOffset_def)
  show ?thesis
    using assms b by (simp add: s un_le_le with_nonce_def drop_take)
qed

text \<open>
  A header prepared for the gate: it claims the regtest difficulty, and it passes the check if any
  nonce makes it pass. Both block senders prepare theirs with \<open>SetBits\<close> and \<open>Grind\<close>.
\<close>

definition mined :: "(bytes \<Rightarrow> bool) \<Rightarrow> bytes \<Rightarrow> bool" where
  "mined chk hdr \<longleftrightarrow> un_le (take 4 (drop 72 hdr)) = 0x207fffff \<and>
     (chk hdr \<or> (\<forall>m. \<not> chk (with_nonce hdr m)))"

lemma SetBits_Grind:
  assumes "80 \<le> length hdr"
  shows "\<exists>h hdr'. SetBits hdr BitsRegtest = Some h \<and> Grind chk h start = Some (hdr', Hash hdr') \<and>
     length hdr' = length hdr \<and> take 72 hdr' = take 72 hdr \<and> mined chk hdr'"
proof -
  obtain h where h: "SetBits hdr BitsRegtest = Some h" "length h = length hdr"
    "un_le (take 4 (drop 72 h)) = unat BitsRegtest" "take 72 h = take 72 hdr"
    "\<And>n. take 4 (drop 72 (with_nonce h n)) = take 4 (drop 72 h)"
    using SetBits_keeps [OF assms, of BitsRegtest] by blast
  then have len: "80 \<le> length h" using assms by simp
  obtain n where n: "Grind chk h start = Some (with_nonce h n, Hash (with_nonce h n))"
    "if \<exists>m. chk (with_nonce h m) then chk (with_nonce h n) else n = start - 1"
    using Grind_search [OF len] by blast
  have "chk (with_nonce h n) \<or> (\<forall>m. \<not> chk (with_nonce (with_nonce h n) m))"
  proof (cases "\<exists>m. chk (with_nonce h m)")
    case True
    with n(2) have "chk (with_nonce h n)" by (simp only: if_True)
    then show ?thesis ..
  next
    case False
    with len show ?thesis by (simp add: with_nonce_twice)
  qed
  moreover have "take 72 (with_nonce h n) = take 72 hdr"
    using h(4) len by (simp add: with_nonce_def min_def)
  ultimately show ?thesis
    using h n(1) len by (auto simp: mined_def BitsRegtest_def length_with_nonce)
qed

section \<open>Properties\<close>

text \<open>C30: The nonce search is complete: on any header of at least 80 bytes it ends without a panic,
  changes only the nonce bytes, returns the hash of the mutated header, and passes the
  proof-of-work check whenever any of the \<open>2^32\<close> nonces does; otherwise the header carries the last
  candidate, the one before the start value.\<close>

theorem Grind_complete:
  assumes "80 \<le> length hdr"
  shows "\<exists>n. Grind chk hdr start = Some (with_nonce hdr n, Hash (with_nonce hdr n)) \<and>
     (if \<exists>m. chk (with_nonce hdr m) then chk (with_nonce hdr n) else n = start - 1)"
  using assms by (rule Grind_search)

theorem Grind_complete_witness:
  "\<exists>n. Grind (\<lambda>h. h ! 76 = 9) (replicate 80 0) 3 =
      Some (with_nonce (replicate 80 0) n, Hash (with_nonce (replicate 80 0) n)) \<and>
     with_nonce (replicate 80 0) n ! 76 = 9"
proof -
  have "with_nonce (replicate 80 0) 9 ! 76 = (9 :: byte)"
    by (simp add: with_nonce_def nth_append le_4)
  then have "\<exists>m. with_nonce (replicate 80 0) m ! 76 = (9 :: byte)" by blast
  with Grind_complete [of "replicate 80 0" "\<lambda>h. h ! 76 = 9" 3] show ?thesis by auto
qed

text \<open>\<open>SetBits\<close> writes the difficulty where and how the gate reads it: the four bytes at offset 72
  read back little-endian as the value, every other byte is unchanged, and the search keeps it.\<close>

theorem SetBits_roundtrip:
  assumes "80 \<le> length hdr"
  shows "\<exists>h. SetBits hdr bits = Some h \<and> length h = length hdr \<and>
     un_le (take 4 (drop 72 h)) = unat bits \<and> take 72 h = take 72 hdr \<and> drop 76 h = drop 76 hdr \<and>
     (\<forall>n. take 4 (drop 72 (with_nonce h n)) = take 4 (drop 72 h))"
  using assms by (rule SetBits_keeps)

theorem SetBits_roundtrip_witness:
  "\<exists>h. SetBits (replicate 80 0) BitsRegtest = Some h \<and> un_le (take 4 (drop 72 h)) = 0x207fffff"
  using SetBits_roundtrip [of "replicate 80 0" BitsRegtest] by (auto simp: BitsRegtest_def)

end
