(* ===== verification/Send_Block_Announce.thy ===== *)
theory Send_Block_Announce
  imports Send_Anchor Block_Hdr
begin

text \<open>
  \<open>cmd/send-block-announce\<close>: the BRC-131 frame and payload encoders and the command's run. Bytes of
  \<open>crypto/rand\<close> are read from an infinite stream at an explicit position (\<open>Read\<close> does not fail:
  since Go 1.24 it ends the process instead, so \<open>mustRand\<close> has no error branch to take).
\<close>

definition frameVerV4 :: byte where
  "frameVerV4 = 0x04"

definition msgAnnounce :: byte where
  "msgAnnounce = 0x01"

definition msgCoinbase :: byte where
  "msgCoinbase = 0x02"

definition mustRand :: "(nat \<Rightarrow> byte) \<Rightarrow> nat \<Rightarrow> nat \<Rightarrow> bytes" where
  "mustRand crand k n = map crand [k..<k + n]"

lemma length_mustRand [simp, byte_simps]: "length (mustRand crand k n) = n"
  by (simp add: mustRand_def)

definition encodeBlockFrame :: "byte \<Rightarrow> bytes \<Rightarrow> bytes \<Rightarrow> bytes option" where
  "encodeBlockFrame msgType contentID payload = do {
     buf \<leftarrow> Some (replicate (headerSize + length payload) 0);
     buf \<leftarrow> put buf 0 (be 4 (unat magicBSV));
     buf \<leftarrow> put buf 4 (be 2 (unat protoVer));
     buf \<leftarrow> put buf 6 [frameVerV4];
     buf \<leftarrow> put buf 7 [msgType];
     buf \<leftarrow> copy_slice buf 8 40 contentID;
     buf \<leftarrow> put buf 88 (be 4 (length payload));
     copy_from buf 92 payload
   }"

fun copy_hashes :: "nat \<Rightarrow> bytes list \<Rightarrow> bytes \<Rightarrow> bytes option" where
  "copy_hashes i [] buf = Some buf"
| "copy_hashes i (h # hs) buf = do {
     buf \<leftarrow> copy_from buf (116 + i * 32) h;
     copy_hashes (Suc i) hs buf
   }"

definition encodeBlockAnnounce :: "bytes \<Rightarrow> bytes \<Rightarrow> bytes list \<Rightarrow> bytes option" where
  "encodeBlockAnnounce header coinbaseTxID subtreeHashes = do {
     buf \<leftarrow> Some (replicate (hdr_Len + 32 + 4 + length subtreeHashes * 32) 0);
     buf \<leftarrow> copy_slice buf 0 80 header;
     buf \<leftarrow> copy_slice buf 80 112 coinbaseTxID;
     buf \<leftarrow> put buf 112 (be 4 (length subtreeHashes));
     copy_hashes 0 subtreeHashes buf
   }"

text \<open>One block: header, coinbase, subtree hashes; the two frames, and the generator states after.\<close>

definition make_block ::
  "objfmt_pkg \<Rightarrow> (bytes \<Rightarrow> bool) \<Rightarrow> (nat \<Rightarrow> byte) \<Rightarrow> nat \<Rightarrow> nat \<Rightarrow> nat \<Rightarrow> Builder \<Rightarrow>
   fatal_at + (bytes \<times> bytes \<times> nat \<times> Builder)" where
  "make_block ob chk crand subtrees i k txb =
     (case do { h \<leftarrow> SetBits (mustRand crand k hdr_Len) BitsRegtest; Grind chk h (word_of_nat i) } of
        None \<Rightarrow> Inl (AtEncode i)
      | Some (blockHdr, blockHash) \<Rightarrow>
          (case Build txb [] (128 + int (i mod 64)) of
             (Inl e, _) \<Rightarrow> Inl (AtBuild i)
           | (Inr coinbaseTx, txb') \<Rightarrow>
               (case obj_TxID ob coinbaseTx of
                  None \<Rightarrow> Inl (AtTxID i)
                | Some coinbaseTxID \<Rightarrow>
                    let k1 = k + hdr_Len;
                        subtreeHashes = map (\<lambda>j. mustRand crand (k1 + 32 * j) 32) [0..<subtrees]
                    in case do {
                         pay \<leftarrow> encodeBlockAnnounce blockHdr coinbaseTxID subtreeHashes;
                         a \<leftarrow> encodeBlockFrame msgAnnounce blockHash pay;
                         c \<leftarrow> encodeBlockFrame msgCoinbase coinbaseTxID coinbaseTx;
                         Some (a, c) }
                       of None \<Rightarrow> Inl (AtEncode i)
                        | Some (a, c) \<Rightarrow> Inr (a, c, k1 + 32 * subtrees, txb'))))"

text \<open>The loop over the blocks; \<open>send_ok\<close> is indexed by the number of frames already written.\<close>

fun announce_loop ::
  "objfmt_pkg \<Rightarrow> (bytes \<Rightarrow> bool) \<Rightarrow> (nat \<Rightarrow> byte) \<Rightarrow> (nat \<Rightarrow> bool) \<Rightarrow> nat \<Rightarrow> bool \<Rightarrow>
   nat \<Rightarrow> nat \<Rightarrow> nat \<Rightarrow> Builder \<Rightarrow> bytes list \<Rightarrow> outcome" where
  "announce_loop ob chk crand send_ok subtrees coinbase 0 i k txb out = Finished out"
| "announce_loop ob chk crand send_ok subtrees coinbase (Suc n) i k txb out =
     (case make_block ob chk crand subtrees i k txb of
        Inl e \<Rightarrow> Fatal e out
      | Inr (a, c, k', txb') \<Rightarrow>
          if \<not> send_ok (length out) then Fatal (AtSend i) out
          else if \<not> coinbase
            then announce_loop ob chk crand send_ok subtrees coinbase n (Suc i) k' txb' (out @ [a])
          else if \<not> send_ok (Suc (length out)) then Fatal (AtSend i) (out @ [a])
          else announce_loop ob chk crand send_ok subtrees coinbase n (Suc i) k' txb' (out @ [a, c]))"

text \<open>\<open>-subtrees\<close> is taken as not negative: the slice of a negative number of subtrees panics.\<close>

definition announce_main ::
  "objfmt_pkg \<Rightarrow> (bytes \<Rightarrow> bool) \<Rightarrow> (nat \<Rightarrow> byte) \<Rightarrow> bool \<Rightarrow> (nat \<Rightarrow> bool) \<Rightarrow> int \<Rightarrow> nat \<Rightarrow> bool \<Rightarrow> outcome" where
  "announce_main ob chk crand dial_ok send_ok blocks subtrees coinbase =
     (if \<not> dial_ok then Fatal AtDial []
      else announce_loop ob chk crand send_ok subtrees coinbase (nat blocks) 0 32
             (tx_New (mustRand crand 0 32)) [])"

section \<open>Encoders in closed form\<close>

lemma encodeBlockFrame_layout:
  assumes "length cid = 32"
  shows "encodeBlockFrame kind cid payload =
     Some (header92 4 kind cid 0 0 (replicate 32 0) (length payload) @ payload)"
proof -
  have len: "put (xs @ replicate n 0) 88 bs =
      Some ((xs @ be 8 0 @ be 8 0 @ replicate 32 0 @ bs) @ replicate (n - 52) 0)"
    if "length xs = 40" "52 \<le> n" "length bs = 4" for xs n bs
    using that put_zeros_gap [of 88 xs 48 bs n] by (simp add: be_zero replicate_app_Cons_same flip: replicate_add append_assoc)
  show ?thesis
    using assms
    by (simp add: encodeBlockFrame_def headerSize_def magicBSV_def protoVer_def frameVerV4_def
        zero_buffer len header92_def del: append_assoc)
qed

lemma copy_hashes_zeros:
  assumes "\<forall>h \<in> set hs. length h = 32" and "length xs = 116 + i * 32"
  shows "copy_hashes i hs (xs @ replicate (length hs * 32) 0) = Some (xs @ concat hs)"
  using assms
proof (induction hs arbitrary: i xs)
  case Nil
  then show ?case by simp
next
  case (Cons h hs)
  have h: "length h = 32" using Cons.prems(1) by simp
  have "copy_from (xs @ replicate (length (h # hs) * 32) 0) (116 + i * 32) h =
      Some ((xs @ h) @ replicate (length hs * 32) 0)"
    using h Cons.prems(2) by (simp add: copy_from_fits put_zeros)
  moreover have "copy_hashes (Suc i) hs ((xs @ h) @ replicate (length hs * 32) 0) =
      Some ((xs @ h) @ concat hs)"
    by (rule Cons.IH) (use h Cons.prems in auto)
  ultimately show ?case by simp
qed

lemma encodeBlockAnnounce_layout:
  assumes "length hdr = 80" "length cb = 32" "\<forall>h \<in> set hs. length h = 32"
  shows "encodeBlockAnnounce hdr cb hs = Some (hdr @ cb @ be 4 (length hs) @ concat hs)"
proof -
  have h0: "copy_slice (replicate n 0) 0 80 hdr = Some (hdr @ replicate (n - 80) 0)" if "80 \<le> n" for n
    using that assms(1) copy_slice_zeros [of 0 "[]" 80 hdr n] by simp
  show ?thesis
    using assms copy_hashes_zeros [OF assms(3), of "((hdr @ cb) @ be 4 (length hs))" 0]
    by (simp add: encodeBlockAnnounce_def hdr_Len_def h0 zero_buffer del: append_assoc)
qed

definition block_ver :: "byte \<times> bytes \<Rightarrow> byte" where
  "block_ver h = frameVerV4"

interpretation block: frame_emitter "\<lambda>(kind, cid). encodeBlockFrame kind cid" block_ver
  "\<lambda>(kind, cid). length cid = 32"
proof unfold_locales
  fix h :: "byte \<times> bytes" and p :: bytes
  assume h: "case h of (kind, cid) \<Rightarrow> length cid = 32"
  show "\<exists>hdr. (case h of (kind, cid) \<Rightarrow> encodeBlockFrame kind cid) p = Some (hdr @ p) \<and>
      frame_shape (block_ver h) hdr p"
    using h by (cases h)
      (auto simp: encodeBlockFrame_layout block_ver_def frameVerV4_def intro!: frame_shape_header92)
next
  show "block_ver h \<noteq> 1 \<and> block_ver h \<noteq> 3" for h
    by (simp add: block_ver_def frameVerV4_def)
qed

section \<open>The run\<close>

text \<open>
  What a pair of frames of one block must be: the announce frame carries a header with the regtest
  difficulty whose nonce passes the gate if any does, under the header's own hash; the coinbase
  frame carries one raw transaction of 128 to 191 bytes under its own TxID, which is also the TxID in the announce.
\<close>

definition block_pair :: "objfmt_pkg \<Rightarrow> (bytes \<Rightarrow> bool) \<Rightarrow> nat \<Rightarrow> bytes \<times> bytes \<Rightarrow> bool" where
  "block_pair ob chk n = (\<lambda>(a, c).
     (\<exists>hdr hs t txid.
        length hdr = 80 \<and> mined chk hdr \<and>
        length hs = n \<and> (\<forall>h \<in> set hs. length h = 32) \<and>
        raw_obj t \<and> 128 \<le> length t \<and> length t < 192 \<and> obj_TxID ob t = Some txid \<and> length txid = 32 \<and>
        a = header92 4 1 (sha256d hdr) 0 0 (replicate 32 0) (116 + 32 * n) @
              hdr @ txid @ be 4 n @ concat hs \<and>
        c = header92 4 2 txid 0 0 (replicate 32 0) (length t) @ t))"

lemma make_block_pair:
  assumes "txid_doc ob raw_obj"
  shows "\<exists>a c k' txb'. make_block ob chk crand n i k txb = Inr (a, c, k', txb') \<and> block_pair ob chk n (a, c)"
proof -
  obtain h hdr where h: "SetBits (mustRand crand k hdr_Len) BitsRegtest = Some h"
    "Grind chk h (word_of_nat i) = Some (hdr, Hash hdr)" "length hdr = 80" "mined chk hdr"
    using SetBits_Grind [of "mustRand crand k hdr_Len" chk "word_of_nat i"] by (auto simp: hdr_Len_def)
  have "i mod 64 < 64" by simp
  then have sz: "128 + int (i mod 64) \<le> 60 + (0xFFFFFFFF + 6)" by linarith
  obtain t txb' where t: "Build txb [] (128 + int (i mod 64)) = (Inr t, txb')"
    using Build_total [OF _ sz, of txb "[]"] by auto
  have len: "int (length t) = 128 + int (i mod 64)" and raw1: "raw_obj t" using Build_ok [OF t] by simp_all
  have raw: "raw_obj t" "128 \<le> length t" "length t < 192"
    using raw1 len \<open>i mod 64 < 64\<close> by linarith+
  obtain txid where id: "obj_TxID ob t = Some txid" "length txid = 32"
    using assms raw(1) by (auto simp: txid_doc_def)
  let ?hs = "map (\<lambda>j. mustRand crand (k + hdr_Len + 32 * j) 32) [0..<n]"
  have cl: "length (concat ?hs) = 32 * n" by (simp add: length_concat comp_def sum_list_triv)
  have pay: "encodeBlockAnnounce hdr txid ?hs = Some (hdr @ txid @ be 4 n @ concat ?hs)"
    using encodeBlockAnnounce_layout [OF h(3) id(2), of ?hs] by simp
  have "block_pair ob chk n
      (header92 4 1 (sha256d hdr) 0 0 (replicate 32 0) (116 + 32 * n) @ hdr @ txid @ be 4 n @ concat ?hs,
       header92 4 2 txid 0 0 (replicate 32 0) (length t) @ t)"
    unfolding block_pair_def prod.case
    using h(3,4) raw id by (intro exI conjI) auto
  then show ?thesis
    using h t id pay cl
    by (simp add: make_block_def Let_def encodeBlockFrame_layout msgAnnounce_def msgCoinbase_def
        Hash_def sha256d_def)
qed

lemma announce_loop_finishes:
  assumes "txid_doc ob raw_obj" and "\<forall>i. send_ok i"
  shows "\<exists>ps. announce_loop ob chk crand send_ok n coinbase b i k txb out =
       Finished (out @ concat (map (\<lambda>(a, c). if coinbase then [a, c] else [a]) ps)) \<and>
     length ps = b \<and> (\<forall>p \<in> set ps. block_pair ob chk n p)"
proof (induction b arbitrary: i k txb out)
  case 0
  then show ?case by (intro exI [of _ "[]"]) simp
next
  case (Suc b)
  obtain a c k' txb' where m: "make_block ob chk crand n i k txb = Inr (a, c, k', txb')"
    "block_pair ob chk n (a, c)"
    using make_block_pair [OF assms(1)] by blast
  let ?new = "if coinbase then [a, c] else [a]"
  obtain ps where ps: "announce_loop ob chk crand send_ok n coinbase b (Suc i) k' txb' (out @ ?new) =
       Finished ((out @ ?new) @ concat (map (\<lambda>(a, c). if coinbase then [a, c] else [a]) ps))"
     "length ps = b" "\<forall>p \<in> set ps. block_pair ob chk n p"
    using Suc.IH by blast
  have ok: "send_ok (length out)" "send_ok (Suc (length out))" using assms(2) by blast+
  show ?case
    by (intro exI [of _ "(a, c) # ps"]) (use ps m ok in \<open>cases coinbase; simp\<close>)
qed

section \<open>Properties\<close>

text \<open>When dialling and every write succeed, the command finishes with one announce frame per block,
  each followed by its coinbase frame unless disabled, and every pair is well formed: the announced
  header carries the regtest difficulty and passes the proof-of-work gate whenever some nonce does,
  the ContentID is its hash, and the coinbase TxID in the announce is the identifier of the raw
  transaction the coinbase frame carries, which has between 128 and 191 bytes.\<close>

theorem announce_main_frames:
  assumes "txid_doc ob raw_obj" and "\<forall>i. send_ok i"
  shows "\<exists>ps. announce_main ob chk crand True send_ok blocks n coinbase =
       Finished (concat (map (\<lambda>(a, c). if coinbase then [a, c] else [a]) ps)) \<and>
     length ps = nat blocks \<and> (\<forall>p \<in> set ps. block_pair ob chk n p)"
  using announce_loop_finishes [OF assms, of chk crand n coinbase "nat blocks" 0 32
      "tx_New (mustRand crand 0 32)" "[]"]
  by (simp add: announce_main_def)

theorem announce_main_frames_witness:
  "\<exists>a c b. announce_main ref_objfmt (\<lambda>h. True) (\<lambda>i. word_of_nat i) True (\<lambda>i. True) 2 3 False =
     Finished [a, b] \<and> block_pair ref_objfmt (\<lambda>h. True) 3 (a, c)"
proof -
  obtain ps where ps: "announce_main ref_objfmt (\<lambda>h. True) (\<lambda>i. word_of_nat i) True (\<lambda>i. True) 2 3 False =
       Finished (concat (map (\<lambda>(a, c). if False then [a, c] else [a]) ps))"
     "length ps = nat 2" "\<forall>p \<in> set ps. block_pair ref_objfmt (\<lambda>h. True) 3 p"
    using announce_main_frames [OF ref_objfmt_txid, of "\<lambda>i. True"] by blast
  then obtain a c b d where "ps = [(a, c), (b, d)]" by (auto simp: numeral_2_eq_2 length_Suc_conv)
  with ps show ?thesis by auto
qed

end
