(* ===== verification/Pacer.thy ===== *)
theory Pacer
  imports Main "HOL-Library.Signed_Division"
begin

text \<open>
  \<open>internal/rate\<close>: the three pacers. A \<open>time.Ticker\<close> is a channel that holds at most one tick: a
  tick that finds it full is dropped, \<open>Stop\<close> ends the ticks and discards a pending one, and the
  channel is never closed, so a receive that finds no tick blocks. A blocked \<open>Wait\<close> is \<open>None\<close>.
  Periods are in nanoseconds.
\<close>

record ticker =
  period :: int
  pending :: bool
  halted :: bool

definition NewTicker :: "int \<Rightarrow> ticker" where
  "NewTicker d = \<lparr>period = d, pending = False, halted = False\<rparr>"

definition ticker_fire :: "ticker \<Rightarrow> ticker" where
  "ticker_fire t = (if halted t then t else t\<lparr>pending := True\<rparr>)"

definition ticker_recv :: "ticker \<Rightarrow> ticker option" where
  "ticker_recv t = (if pending t then Some (t\<lparr>pending := False\<rparr>) else None)"

definition ticker_Stop :: "ticker \<Rightarrow> ticker" where
  "ticker_Stop t = t\<lparr>pending := False, halted := True\<rparr>"

record smoothPacer =
  sp_t :: ticker

record burstPacer =
  bp_t :: ticker
  burst :: int
  remaining :: int

datatype Pacer = FreePacer | SmoothPacer smoothPacer | BurstPacer burstPacer

definition newSmoothPacer :: "int \<Rightarrow> smoothPacer" where
  "newSmoothPacer pps =
     (let period = 1000000000 sdiv pps;
          period = (if period \<le> 0 then 1000 else period)
      in \<lparr>sp_t = NewTicker period\<rparr>)"

definition newBurstPacer :: "int \<Rightarrow> burstPacer" where
  "newBurstPacer pps =
     (let burst = pps sdiv 1000;
          burst = (if burst < 1 then 1 else burst)
      in \<lparr>bp_t = NewTicker 1000000, burst = burst, remaining = 0\<rparr>)"

definition rate_New :: "int \<Rightarrow> Pacer" where
  "rate_New pps =
     (if pps \<le> 0 then FreePacer
      else if pps \<le> 1000 then SmoothPacer (newSmoothPacer pps)
      else BurstPacer (newBurstPacer pps))"

definition smooth_Wait :: "smoothPacer \<Rightarrow> (bool \<times> smoothPacer) option" where
  "smooth_Wait p = map_option (\<lambda>t. (True, p\<lparr>sp_t := t\<rparr>)) (ticker_recv (sp_t p))"

definition smooth_Stop :: "smoothPacer \<Rightarrow> smoothPacer" where
  "smooth_Stop p = p\<lparr>sp_t := ticker_Stop (sp_t p)\<rparr>"

definition burst_Wait :: "burstPacer \<Rightarrow> (bool \<times> burstPacer) option" where
  "burst_Wait p =
     (if 0 < remaining p then Some (True, p\<lparr>remaining := remaining p - 1\<rparr>)
      else map_option (\<lambda>t. (True, p\<lparr>bp_t := t, remaining := burst p - 1\<rparr>)) (ticker_recv (bp_t p)))"

definition burst_Stop :: "burstPacer \<Rightarrow> burstPacer" where
  "burst_Stop p = p\<lparr>bp_t := ticker_Stop (bp_t p)\<rparr>"

fun Wait :: "Pacer \<Rightarrow> (bool \<times> Pacer) option" where
  "Wait FreePacer = Some (True, FreePacer)"
| "Wait (SmoothPacer p) = map_option (map_prod id SmoothPacer) (smooth_Wait p)"
| "Wait (BurstPacer p) = map_option (map_prod id BurstPacer) (burst_Wait p)"

fun rate_Stop :: "Pacer \<Rightarrow> Pacer" where
  "rate_Stop FreePacer = FreePacer"
| "rate_Stop (SmoothPacer p) = SmoothPacer (smooth_Stop p)"
| "rate_Stop (BurstPacer p) = BurstPacer (burst_Stop p)"

text \<open>The runtime's side: the pacer's ticker fires.\<close>

fun rate_fire :: "Pacer \<Rightarrow> Pacer" where
  "rate_fire FreePacer = FreePacer"
| "rate_fire (SmoothPacer p) = SmoothPacer (p\<lparr>sp_t := ticker_fire (sp_t p)\<rparr>)"
| "rate_fire (BurstPacer p) = BurstPacer (p\<lparr>bp_t := ticker_fire (bp_t p)\<rparr>)"

section \<open>The contract\<close>

text \<open>
  A history of a pacer: its ticker fires, a caller waits (and gets a token or blocks), it is stopped.
  The tokens of a history are its successful waits.
\<close>

datatype pace_ev = Fire | Ask | Halt

fun tokens :: "('p \<Rightarrow> (bool \<times> 'p) option) \<Rightarrow> ('p \<Rightarrow> 'p) \<Rightarrow> ('p \<Rightarrow> 'p) \<Rightarrow> 'p \<Rightarrow> pace_ev list \<Rightarrow> nat" where
  "tokens w f h p [] = 0"
| "tokens w f h p (Fire # es) = tokens w f h (f p) es"
| "tokens w f h p (Halt # es) = tokens w f h (h p) es"
| "tokens w f h p (Ask # es) =
     (case w p of None \<Rightarrow> tokens w f h p es
                | Some (ok, p') \<Rightarrow> (if ok then 1 else 0) + tokens w f h p' es)"

text \<open>
  A pacer that admits at most \<open>quota\<close> tokens per tick: \<open>credit\<close> bounds what it can hand out before
  the next tick. The law of each operation says how it changes the credit.
\<close>

locale paced =
  fixes wait :: "'p \<Rightarrow> (bool \<times> 'p) option"
    and fire :: "'p \<Rightarrow> 'p"
    and halt :: "'p \<Rightarrow> 'p"
    and valid :: "'p \<Rightarrow> bool"
    and credit :: "'p \<Rightarrow> nat"
    and quota :: "'p \<Rightarrow> nat"
  assumes wait_spends: "valid p \<Longrightarrow> wait p = Some (ok, p') \<Longrightarrow>
        ok \<and> valid p' \<and> Suc (credit p') = credit p \<and> quota p' = quota p"
    and wait_gives: "valid p \<Longrightarrow> 0 < credit p \<Longrightarrow> wait p \<noteq> None"
    and fire_adds: "valid p \<Longrightarrow> valid (fire p) \<and> credit (fire p) \<le> credit p + quota p \<and> quota (fire p) = quota p"
    and halt_keeps: "valid p \<Longrightarrow> valid (halt p) \<and> credit (halt p) \<le> credit p \<and> quota (halt p) = quota p"
begin

lemma tokens_bound:
  "valid p \<Longrightarrow> tokens wait fire halt p es \<le> credit p + quota p * count_list es Fire"
proof (induction es arbitrary: p)
  case Nil
  then show ?case by simp
next
  case (Cons e es)
  show ?case
  proof (cases e)
    case Fire
    with fire_adds [OF Cons.prems] Cons.IH [of "fire p"] show ?thesis by simp
  next
    case Halt
    with halt_keeps [OF Cons.prems] Cons.IH [of "halt p"] show ?thesis by simp
  next
    case Ask
    show ?thesis
    proof (cases "wait p")
      case None
      with Ask Cons show ?thesis by simp
    next
      case (Some r)
      then obtain ok p' where w: "wait p = Some (ok, p')" by (cases r) auto
      from wait_spends [OF Cons.prems w] Cons.IH [of p'] Ask w show ?thesis by simp
    qed
  qed
qed

lemma tokens_asked:
  "valid p \<Longrightarrow> credit p = n \<Longrightarrow>
   \<exists>p'. tokens wait fire halt p (replicate n Ask @ es) = n + tokens wait fire halt p' es \<and>
     valid p' \<and> credit p' = 0 \<and> quota p' = quota p"
proof (induction n arbitrary: p)
  case 0
  then show ?case by (intro exI [of _ p]) simp
next
  case (Suc n)
  obtain ok p1 where w: "wait p = Some (ok, p1)"
    using wait_gives [OF Suc.prems(1)] Suc.prems(2) by auto
  note s = wait_spends [OF Suc.prems(1) w]
  with Suc.prems(2) have "credit p1 = n" by simp
  from Suc.IH [OF _ this] s w show ?case by auto
qed

end

section \<open>The pacers meet it\<close>

definition smooth_credit :: "smoothPacer \<Rightarrow> nat" where
  "smooth_credit p = (if pending (sp_t p) then 1 else 0)"

interpretation smooth: paced smooth_Wait "\<lambda>p. p\<lparr>sp_t := ticker_fire (sp_t p)\<rparr>" smooth_Stop
  "\<lambda>p. True" smooth_credit "\<lambda>p. 1"
  by unfold_locales
    (auto simp: smooth_Wait_def smooth_Stop_def ticker_recv_def ticker_fire_def ticker_Stop_def
      smooth_credit_def split: if_splits)

definition burst_valid :: "burstPacer \<Rightarrow> bool" where
  "burst_valid p \<longleftrightarrow> 1 \<le> burst p \<and> 0 \<le> remaining p"

definition burst_credit :: "burstPacer \<Rightarrow> nat" where
  "burst_credit p = nat (remaining p + (if pending (bp_t p) then burst p else 0))"

definition burst_quota :: "burstPacer \<Rightarrow> nat" where
  "burst_quota p = nat (burst p)"

interpretation bursty: paced burst_Wait "\<lambda>p. p\<lparr>bp_t := ticker_fire (bp_t p)\<rparr>" burst_Stop
  burst_valid burst_credit burst_quota
  by unfold_locales
    (auto simp: burst_Wait_def burst_Stop_def ticker_recv_def ticker_fire_def ticker_Stop_def
      burst_valid_def burst_credit_def burst_quota_def nat_add_distrib split: if_splits)

abbreviation pacer_tokens :: "Pacer \<Rightarrow> pace_ev list \<Rightarrow> nat" where
  "pacer_tokens \<equiv> tokens Wait rate_fire rate_Stop"

lemma tokens_Free: "pacer_tokens FreePacer es = count_list es Ask"
proof (induction es)
  case (Cons e es)
  then show ?case by (cases e) simp_all
qed simp

lemma tokens_Smooth:
  "pacer_tokens (SmoothPacer p) es =
   tokens smooth_Wait (\<lambda>p. p\<lparr>sp_t := ticker_fire (sp_t p)\<rparr>) smooth_Stop p es"
proof (induction es arbitrary: p)
  case (Cons e es)
  then show ?case by (cases e) (simp_all split: option.split)
qed simp

lemma tokens_Burst:
  "pacer_tokens (BurstPacer p) es =
   tokens burst_Wait (\<lambda>p. p\<lparr>bp_t := ticker_fire (bp_t p)\<rparr>) burst_Stop p es"
proof (induction es arbitrary: p)
  case (Cons e es)
  then show ?case by (cases e) (simp_all split: option.split)
qed simp

definition rate_quota :: "int \<Rightarrow> nat" where
  "rate_quota pps = (if pps \<le> 1000 then 1 else nat (pps div 1000))"

lemma rate_New_cases:
  assumes "0 < pps"
  obtains p where "rate_New pps = SmoothPacer p" "pps \<le> 1000" "sp_t p = NewTicker (1000000000 div pps)"
  | p where "rate_New pps = BurstPacer p" "1000 < pps" "bp_t p = NewTicker 1000000"
      "burst p = pps div 1000" "remaining p = 0"
proof (cases "pps \<le> 1000")
  case True
  have "0 < 1000000000 div pps" using assms True by (simp add: pos_imp_zdiv_pos_iff)
  then show ?thesis
    using True assms that(1) [of "newSmoothPacer pps"]
    by (simp add: rate_New_def newSmoothPacer_def signed_divide_int_def Let_def)
next
  case False
  then show ?thesis
    using assms that(2) [of "newBurstPacer pps"]
    by (simp add: rate_New_def newBurstPacer_def signed_divide_int_def Let_def)
qed

text \<open>A tick followed by as many waits as the quota returns the pacer to its state.\<close>

lemma burst_drain:
  "remaining p = int n \<Longrightarrow>
   tokens burst_Wait f h p (replicate n Ask @ es) = n + tokens burst_Wait f h (p\<lparr>remaining := 0\<rparr>) es"
proof (induction n arbitrary: p)
  case 0
  then have "p\<lparr>remaining := 0\<rparr> = p" by simp
  then show ?case by simp
next
  case (Suc n)
  then show ?case by (simp add: burst_Wait_def)
qed

lemma idle_ticker: "\<not> pending t \<Longrightarrow> t\<lparr>pending := False\<rparr> = t"
  by (cases t) simp

lemma idle_pacers [simp]: "(q :: smoothPacer)\<lparr>sp_t := sp_t q\<rparr> = q" "(p :: burstPacer)\<lparr>bp_t := bp_t p, remaining := remaining p\<rparr> = p"
  by (cases q; simp) (cases p; simp)

lemma burst_round:
  assumes "\<not> halted (bp_t p)" "\<not> pending (bp_t p)" "remaining p = 0" "1 \<le> burst p"
  shows "tokens burst_Wait (\<lambda>p. p\<lparr>bp_t := ticker_fire (bp_t p)\<rparr>) h p (Fire # replicate (nat (burst p)) Ask @ es) =
     nat (burst p) + tokens burst_Wait (\<lambda>p. p\<lparr>bp_t := ticker_fire (bp_t p)\<rparr>) h p es"
proof -
  obtain b where b: "burst p = int (Suc b)"
    using assms(4) by (metis Suc_pred int_nat_eq nat_0_iff not_gr0 not_le not_one_le_zero zero_less_nat_eq order.trans zero_le_one)
  let ?p1 = "p\<lparr>bp_t := (bp_t p)\<lparr>pending := False\<rparr>, remaining := int b\<rparr>"
  have same: "p\<lparr>bp_t := (bp_t p)\<lparr>pending := False\<rparr>, remaining := 0\<rparr> = p"
    using assms idle_pacers(2) [of p] by (simp add: idle_ticker)
  have "nat (burst p) = Suc b" using b by simp
  then show ?thesis
    using assms burst_drain [of ?p1 b] b
    by (simp add: same burst_Wait_def ticker_fire_def ticker_recv_def)
qed

lemma smooth_round:
  assumes "\<not> halted (sp_t p)" "\<not> pending (sp_t p)"
  shows "tokens smooth_Wait (\<lambda>p. p\<lparr>sp_t := ticker_fire (sp_t p)\<rparr>) h p (Fire # Ask # es) =
     1 + tokens smooth_Wait (\<lambda>p. p\<lparr>sp_t := ticker_fire (sp_t p)\<rparr>) h p es"
  using assms by (simp add: idle_ticker smooth_Wait_def ticker_fire_def ticker_recv_def)

definition rounds :: "nat \<Rightarrow> nat \<Rightarrow> pace_ev list" where
  "rounds k q = concat (replicate k (Fire # replicate q Ask))"

lemma burst_rounds:
  assumes "\<not> halted (bp_t p)" "\<not> pending (bp_t p)" "remaining p = 0" "1 \<le> burst p"
  shows "tokens burst_Wait (\<lambda>p. p\<lparr>bp_t := ticker_fire (bp_t p)\<rparr>) h p (rounds k (nat (burst p))) = k * nat (burst p)"
  using burst_round [OF assms, of h] by (induction k) (simp_all add: rounds_def)

lemma smooth_rounds:
  assumes "\<not> halted (sp_t p)" "\<not> pending (sp_t p)"
  shows "tokens smooth_Wait (\<lambda>p. p\<lparr>sp_t := ticker_fire (sp_t p)\<rparr>) h p (rounds k 1) = k"
  using smooth_round [OF assms, of h] by (induction k) (simp_all add: rounds_def)

lemma tokens_per_tick:
  assumes "0 < pps"
  shows "pacer_tokens (rate_New pps) es \<le> rate_quota pps * count_list es Fire"
  using assms
proof (cases rule: rate_New_cases)
  case (1 p)
  then show ?thesis
    using smooth.tokens_bound [of p es]
    by (simp add: tokens_Smooth rate_quota_def smooth_credit_def NewTicker_def)
next
  case (2 p)
  moreover from this have "1 \<le> burst p" by simp
  ultimately show ?thesis
    using bursty.tokens_bound [of p es]
    by (simp add: tokens_Burst rate_quota_def burst_credit_def burst_quota_def burst_valid_def NewTicker_def)
qed

lemma tokens_of_rounds:
  assumes "0 < pps"
  shows "pacer_tokens (rate_New pps) (rounds k (rate_quota pps)) = k * rate_quota pps"
  using assms
proof (cases rule: rate_New_cases)
  case (1 p)
  then show ?thesis
    using smooth_rounds [of p] by (simp add: tokens_Smooth rate_quota_def NewTicker_def)
next
  case (2 p)
  moreover from this have "1 \<le> burst p" by simp
  ultimately show ?thesis
    using burst_rounds [of p burst_Stop k]
    by (simp add: tokens_Burst rate_quota_def NewTicker_def)
qed

section \<open>Time\<close>

text \<open>
  The runtime ticks a ticker at most once per period, so a history of \<open>T\<close> nanoseconds from the pacer's creation
  holds a number of ticks that fit \<open>T\<close>.
\<close>

fun pacer_period :: "Pacer \<Rightarrow> int" where
  "pacer_period FreePacer = 0"
| "pacer_period (SmoothPacer p) = period (sp_t p)"
| "pacer_period (BurstPacer p) = period (bp_t p)"

definition lasts :: "Pacer \<Rightarrow> int \<Rightarrow> pace_ev list \<Rightarrow> bool" where
  "lasts p T es \<longleftrightarrow> int (count_list es Fire) * pacer_period p \<le> T"

lemma pacer_period_New:
  "0 < pps \<Longrightarrow> pacer_period (rate_New pps) = (if pps \<le> 1000 then 1000000000 div pps else 1000000)"
  by (cases rule: rate_New_cases [of pps]) (simp_all add: NewTicker_def)

text \<open>The tokens of the ticks that fit \<open>T\<close>: the period is rounded down by less than a millionth.\<close>

lemma ticks_in_time:
  assumes "0 < pps" "int k * pacer_period (rate_New pps) \<le> T"
  shows "int (rate_quota pps * k) * 999999000 \<le> pps * T"
proof (cases "pps \<le> 1000")
  case True
  define q where "q = 1000000000 div pps"
  have "1000000000 = pps * q + 1000000000 mod pps" unfolding q_def by (metis mult_div_mod_eq)
  moreover have "1000000000 mod pps < 1000" using pos_mod_bound [OF assms(1), of 1000000000] True by linarith
  ultimately have "999999000 \<le> pps * q" by linarith
  then have "int k * 999999000 \<le> int k * (pps * q)" by (rule mult_left_mono) simp
  also have "\<dots> = pps * (int k * q)" by simp
  also have "\<dots> \<le> pps * T"
    using assms True by (intro mult_left_mono) (simp_all add: pacer_period_New q_def)
  finally show ?thesis using True by (simp add: rate_quota_def)
next
  case False
  have k: "int k * 1000000 \<le> T" using assms False by (simp add: pacer_period_New)
  have q: "0 \<le> pps div 1000" "1000 * (pps div 1000) \<le> pps" using assms(1) by (simp_all add: pos_imp_zdiv_nonneg_iff)
  have "int (rate_quota pps * k) * 1000000000 = 1000 * (pps div 1000) * (int k * 1000000)"
    using q False by (simp add: rate_quota_def)
  also have "\<dots> \<le> pps * T" using q k assms(1) by (intro mult_mono) simp_all
  finally have "int (rate_quota pps * k) * 1000000000 \<le> pps * T" .
  moreover have "int (rate_quota pps * k) * 999999000 \<le> int (rate_quota pps * k) * 1000000000"
    by (intro mult_left_mono) simp_all
  ultimately show ?thesis by linarith
qed

lemma second_ticks: "1000000000 div (1000000000 div pps) = pps" if "0 < pps" "pps \<le> 1000" for pps :: int
proof -
  define q where "q = 1000000000 div pps"
  have e: "1000000000 = pps * q + 1000000000 mod pps" unfolding q_def by (metis mult_div_mod_eq)
  have r: "0 \<le> 1000000000 mod pps" "1000000000 mod pps < 1000"
    using pos_mod_bound [OF that(1), of 1000000000] pos_mod_sign [OF that(1), of 1000000000] that(2) by linarith+
  have "1000000 \<le> q" unfolding q_def using that by (simp add: zdiv_mono2 [of "1000000000" pps 1000, simplified])
  with r have "(pps * q + 1000000000 mod pps) div q = pps" by (simp add: add.commute)
  then show ?thesis using e q_def by simp
qed

lemma tokens_in_time:
  assumes "0 < pps" "lasts (rate_New pps) T es"
  shows "int (pacer_tokens (rate_New pps) es) * 999999000 \<le> pps * T"
proof -
  have "int (pacer_tokens (rate_New pps) es) \<le> int (rate_quota pps * count_list es Fire)"
    using tokens_per_tick [OF assms(1), of es] by (simp only: of_nat_le_iff)
  then have "int (pacer_tokens (rate_New pps) es) * 999999000 \<le> int (rate_quota pps * count_list es Fire) * 999999000"
    by (intro mult_right_mono) simp_all
  with ticks_in_time [OF assms(1) assms(2) [unfolded lasts_def]] show ?thesis by linarith
qed

lemma tokens_per_second:
  assumes "0 < pps" "lasts (rate_New pps) 1000000000 es"
  shows "int (pacer_tokens (rate_New pps) es) \<le> pps"
proof (cases "pps \<le> 1000")
  case True
  define n where "n = int (pacer_tokens (rate_New pps) es)"
  have "n * 999999000 \<le> pps * 1000000000" unfolding n_def by (rule tokens_in_time [OF assms])
  then have "n \<le> pps" using True by linarith
  then show ?thesis by (simp only: n_def)
next
  case False
  have "int (count_list es Fire) \<le> 1000"
    using assms False by (simp add: lasts_def pacer_period_New)
  then have "rate_quota pps * count_list es Fire \<le> nat (pps div 1000) * 1000"
    using False by (simp add: rate_quota_def)
  with tokens_per_tick [OF assms(1), of es] have "pacer_tokens (rate_New pps) es \<le> nat (pps div 1000) * 1000" by linarith
  moreover have "int (nat (pps div 1000) * 1000) \<le> pps" using assms(1) by (simp add: pos_imp_zdiv_nonneg_iff)
  ultimately show ?thesis by linarith
qed

section \<open>Properties\<close>

text \<open>C37: A positive rate is never exceeded and is met up to the burst granularity. Whatever the
  interleaving of ticks, waits and a stop, at most \<open>quota\<close> tokens are handed out per tick (one up to
  1000 pps, \<open>pps div 1000\<close> above); so in a history of \<open>T\<close> nanoseconds, with the period of the pacer's own
  ticker, the tokens are at most \<open>pps\<close> per second of \<open>T\<close> up to a millionth (the period is rounded down), and in the
  first second at most \<open>pps\<close>. A caller that keeps asking gets all of them: the ticks of one second give it
  exactly \<open>pps\<close> tokens up to 1000 pps, and \<open>pps\<close> rounded down to a thousand above. A rate of zero or less never
  blocks.\<close>

theorem pacer_rate:
  "(0 < pps \<longrightarrow>
      pacer_tokens (rate_New pps) es \<le> rate_quota pps * count_list es Fire \<and>
      (lasts (rate_New pps) T es \<longrightarrow> int (pacer_tokens (rate_New pps) es) * 999999000 \<le> pps * T) \<and>
      (lasts (rate_New pps) 1000000000 es \<longrightarrow> int (pacer_tokens (rate_New pps) es) \<le> pps) \<and>
      pacer_tokens (rate_New pps) (rounds k (rate_quota pps)) = k * rate_quota pps \<and>
      int (pacer_tokens (rate_New pps) (rounds (nat (1000000000 div pacer_period (rate_New pps))) (rate_quota pps))) =
        (if pps \<le> 1000 then pps else pps - pps mod 1000) \<and>
      (1000 < pps \<longrightarrow> int (1000 * rate_quota pps) \<le> pps \<and> pps < int (1000 * rate_quota pps) + 1000)) \<and>
   (pps \<le> 0 \<longrightarrow> pacer_tokens (rate_New pps) es = count_list es Ask)"
proof (intro conjI impI)
  show "pacer_tokens (rate_New pps) es = count_list es Ask" if "pps \<le> 0"
    using that by (simp add: rate_New_def tokens_Free)
  show "pacer_tokens (rate_New pps) es \<le> rate_quota pps * count_list es Fire" if "0 < pps"
    using that by (rule tokens_per_tick)
  show "int (pacer_tokens (rate_New pps) es) * 999999000 \<le> pps * T"
    if "0 < pps" "lasts (rate_New pps) T es"
    using that by (rule tokens_in_time)
  show "int (pacer_tokens (rate_New pps) es) \<le> pps" if "0 < pps" "lasts (rate_New pps) 1000000000 es"
    by (rule tokens_per_second [OF that])
  show "pacer_tokens (rate_New pps) (rounds k (rate_quota pps)) = k * rate_quota pps" if "0 < pps"
    using that by (rule tokens_of_rounds)
  show "int (pacer_tokens (rate_New pps) (rounds (nat (1000000000 div pacer_period (rate_New pps))) (rate_quota pps))) =
      (if pps \<le> 1000 then pps else pps - pps mod 1000)" if "0 < pps"
    using that second_ticks [of pps] tokens_of_rounds [of pps]
    by (auto simp: pacer_period_New rate_quota_def minus_mod_eq_mult_div pos_imp_zdiv_nonneg_iff)
  show "int (1000 * rate_quota pps) \<le> pps" "pps < int (1000 * rate_quota pps) + 1000" if "1000 < pps"
    using that by (simp_all add: rate_quota_def pos_imp_zdiv_nonneg_iff)
qed

theorem pacer_rate_witness:
  "pacer_tokens (rate_New 2500) (rounds 1000 2) = 2000 \<and>
   pacer_tokens (rate_New 2500) [Fire, Fire, Ask, Ask, Ask, Ask] \<le> 4 \<and>
   int (pacer_tokens (rate_New 3) (rounds (nat (1000000000 div 333333333)) 1)) = 3"
proof -
  have "int (pacer_tokens (rate_New 3) (rounds (nat (1000000000 div 333333333)) 1)) = 3"
    using pacer_rate [of 3 "[]" 0 0] by (simp add: rate_quota_def pacer_period_New)
  then show ?thesis
    using pacer_rate [of 2500 "[Fire, Fire, Ask, Ask, Ask, Ask]" 0 1000] by (simp add: rate_quota_def)
qed

text \<open>\<open>Wait\<close> never reports a stopped pacer: its result is never false, and once a ticker pacer is
  stopped with its burst used up, a \<open>Wait\<close> blocks and nothing the runtime does unblocks it.\<close>

theorem stopped_Wait_blocks:
  "(Wait p = Some (ok, p') \<longrightarrow> ok) \<and>
   Wait (rate_Stop (SmoothPacer s)) = None \<and>
   (remaining b \<le> 0 \<longrightarrow> Wait (rate_Stop (BurstPacer b)) = None) \<and>
   rate_fire (rate_Stop p) = rate_Stop p"
  by (cases p) (auto simp: smooth_Wait_def burst_Wait_def smooth_Stop_def burst_Stop_def
      ticker_recv_def ticker_Stop_def ticker_fire_def split: if_splits)

theorem stopped_Wait_blocks_witness:
  "Wait (rate_Stop (rate_New 5000)) = None"
  using stopped_Wait_blocks [of FreePacer True FreePacer "newSmoothPacer 1" "newBurstPacer 5000"]
  by (simp add: rate_New_def newBurstPacer_def Let_def)

end
