(* ===== verification/Frame_Enc.thy ===== *)
theory Frame_Enc
  imports Frames
begin

text \<open>
  \<open>internal/frame\<close>: the version switch and the legacy 44-byte encoder. The package constants and the
  version-2 encoder come from \<open>shard-common\<close> and are read from the package record. Errors are values;
  a store out of range is \<open>FramePanic\<close>.
\<close>

datatype frame_error = TooLarge | BufferTooSmall nat nat | UnknownVersion byte | PkgError | FramePanic

definition maxPayload :: nat where
  "maxPayload = 10 * 1024 * 1024"

definition V1 :: byte where
  "V1 = 1"

definition V2 :: byte where
  "V2 = 2"

definition frame_HeaderSize :: "frame_pkg \<Rightarrow> byte \<Rightarrow> nat" where
  "frame_HeaderSize P v =
     (if v = V1 then HeaderSizeLegacy P else if v = V2 then HeaderSizeV2 P else 0)"

definition encodeV1 :: "frame_pkg \<Rightarrow> Frame \<Rightarrow> bytes \<Rightarrow> frame_error + (bytes \<times> nat)" where
  "encodeV1 P f buf =
     (if maxPayload < length (f_Payload f) then Inl TooLarge
      else
        let total = HeaderSizeLegacy P + length (f_Payload f) in
        if length buf < total then Inl (BufferTooSmall (length buf) total)
        else
          case do {
            b \<leftarrow> put buf 0 (be 4 (unat (MagicBSV P)));
            b \<leftarrow> put b 4 (be 2 (unat (ProtoVer P)));
            b \<leftarrow> put b 6 [FrameVerV1 P];
            b \<leftarrow> put b 7 [0];
            b \<leftarrow> copy_slice b 8 40 (f_TxID f);
            b \<leftarrow> put b 40 (be 4 (length (f_Payload f)));
            copy_from b 44 (f_Payload f) }
          of None \<Rightarrow> Inl FramePanic | Some b \<Rightarrow> Inr (b, total))"

definition frame_Encode :: "frame_pkg \<Rightarrow> byte \<Rightarrow> Frame \<Rightarrow> bytes \<Rightarrow> frame_error + (bytes \<times> nat)" where
  "frame_Encode P v f buf =
     (if v = V2 then (case pkg_Encode P f buf of None \<Rightarrow> Inl PkgError | Some r \<Rightarrow> Inr r)
      else if v = V1 then encodeV1 P f buf
      else Inl (UnknownVersion v))"

section \<open>Lemmas\<close>

text \<open>The legacy header in closed form.\<close>

definition header44 :: "bytes \<Rightarrow> nat \<Rightarrow> bytes" where
  "header44 txid len = be 4 0xE3E1F3E8 @ be 2 0x02BF @ [1, 0] @ txid @ be 4 len"

text \<open>A store right after a known prefix replaces as many old bytes as it writes.\<close>

lemma put_next:
  "off = length xs \<Longrightarrow> length bs \<le> length d \<Longrightarrow> put (xs @ d) off bs = Some ((xs @ bs) @ drop (length bs) d)"
  by (simp add: put_def)

lemma encodeV1_layout:
  assumes "frame_doc P" and "length (f_TxID f) = 32"
    and "length (f_Payload f) \<le> maxPayload" and "44 + length (f_Payload f) \<le> length buf"
  shows "encodeV1 P f buf =
     Inr (header44 (f_TxID f) (length (f_Payload f)) @ f_Payload f @ drop (44 + length (f_Payload f)) buf,
          44 + length (f_Payload f))"
proof -
  let ?p = "f_Payload f"
  have c: "copy_slice (xs @ d) 8 40 (f_TxID f) = Some ((xs @ f_TxID f) @ drop 32 d)"
    if "length xs = 8" "32 \<le> length d" for xs d
    using that assms(2) by (simp add: copy_slice_def put_next)
  have cp: "copy_from (xs @ d) 44 ?p = Some ((xs @ ?p) @ drop (length ?p) d)"
    if "length xs = 44" "length ?p \<le> length d" for xs d
    using that by (simp add: copy_from_fits put_next)
  have p0: "put buf 0 (be 4 m) = Some (be 4 m @ drop 4 buf)" for m
    using assms(4) by (simp add: put_def)
  have b: "44 + length ?p \<le> length buf" using assms(4) .
  show ?thesis
    using assms b
    by (simp add: encodeV1_def frame_doc_def p0 put_next c cp header44_def Let_def
        del: append_assoc) (simp add: add.commute)
qed

section \<open>Properties\<close>

text \<open>The legacy encoder is exact: under the documented package constants a payload of at most
  10 MiB and a buffer with room for it give exactly the 44-byte header (magic, protocol version,
  version 1, the TxID, the payload length) followed by the payload, the bytes of the buffer beyond
  them are untouched, and the count is 44 plus the payload; every other input is one of the two
  documented errors and never a panic.\<close>

theorem encodeV1_exact:
  assumes "frame_doc P" and "length (f_TxID f) = 32"
  shows "frame_Encode P V1 f buf =
     (if maxPayload < length (f_Payload f) then Inl TooLarge
      else if length buf < 44 + length (f_Payload f)
        then Inl (BufferTooSmall (length buf) (44 + length (f_Payload f)))
      else Inr (header44 (f_TxID f) (length (f_Payload f)) @ f_Payload f @
                  drop (44 + length (f_Payload f)) buf,
                44 + length (f_Payload f)))"
proof (cases "maxPayload < length (f_Payload f) \<or> length buf < 44 + length (f_Payload f)")
  case True
  then show ?thesis
    using assms(1) by (auto simp: frame_Encode_def V1_def V2_def encodeV1_def frame_doc_def Let_def)
next
  case False
  then show ?thesis
    using encodeV1_layout [OF assms, of buf]
    by (simp add: frame_Encode_def V1_def V2_def)
qed

theorem encodeV1_exact_witness:
  "frame_Encode ref_frame V1
     \<lparr>f_TxID = replicate 32 7, f_SubtreeID = [], f_SeqNum = 0, f_HashKey = 0, f_Payload = [1, 2]\<rparr>
     (replicate 47 9) = Inr (header44 (replicate 32 7) 2 @ [1, 2] @ [9], 46)"
  using encodeV1_exact [OF ref_frame_doc(1), of "\<lparr>f_TxID = replicate 32 7, f_SubtreeID = [],
      f_SeqNum = 0, f_HashKey = 0, f_Payload = [1, 2]\<rparr>" "replicate 47 9"]
  by (simp add: maxPayload_def numeral_2_eq_2)

end
