(* ===== verification/Seq.thy ===== *)
theory Seq
  imports Prelude "HOL-Library.Multiset"
begin

text \<open>
  \<open>internal/seq\<close>: the shared sequence-number allocator with gap injection and its per-flow variant.
  First the sequential meaning of every method, then the contract of a sequence source as a locale
  with its interpretations, the closed form of the gap pattern, the in-place filtering of the
  retransmit queue, and last \<open>Next\<close> split into the atomic operations it performs, so that any
  number of workers can interleave them. Counters are 64-bit words and wrap as in Go; instants and
  durations are integers (nanoseconds).
\<close>

section \<open>State and methods\<close>

record pendingGap =
  seqs :: "u64 list"
  dueAt :: int

record Config =
  Start :: u64
  GapEvery :: u64
  GapSize :: u64
  GapDelay :: int

record Allocator =
  a_next :: u64
  gapEvery :: u64
  gapSize :: u64
  gapDelay :: int
  counter :: u64
  pending :: "pendingGap list"

definition seq_New :: "Config \<Rightarrow> Allocator" where
  "seq_New cfg =
     \<lparr>a_next = (if Start cfg = 0 then 1 else Start cfg),
      gapEvery = GapEvery cfg, gapSize = GapSize cfg, gapDelay = GapDelay cfg,
      counter = 0, pending = []\<rparr>"

text \<open>\<open>a.next.Add(1) - 1\<close>.\<close>

definition fetch_next :: "Allocator \<Rightarrow> u64 \<times> Allocator" where
  "fetch_next a = (let v = a_next a + 1 in (v - 1, a\<lparr>a_next := v\<rparr>))"

text \<open>The loop that reserves the skipped numbers, one atomic add per number.\<close>

primrec reserve :: "nat \<Rightarrow> Allocator \<Rightarrow> u64 list \<times> Allocator" where
  "reserve 0 a = ([], a)"
| "reserve (Suc k) a =
     (let (v, a) = fetch_next a; (vs, a) = reserve k a in (v # vs, a))"

text \<open>The slice of the skipped numbers is taken to fit in memory: \<open>make\<close> panics on a gap of some \<open>2 ^ 60\<close> numbers.\<close>

definition Allocator_Next :: "int \<Rightarrow> Allocator \<Rightarrow> u64 \<times> Allocator" where
  "Allocator_Next now a =
     (let (s, a) = fetch_next a in
      if gapEvery a = 0 \<or> gapSize a = 0 then (s, a)
      else
        let n = counter a + 1; a = a\<lparr>counter := n\<rparr> in
        if n mod gapEvery a = 0 then
          let (gap, a) = reserve (unat (gapSize a)) a in
          if gapDelay a > 0
          then (s, a\<lparr>pending := pending a @ [\<lparr>seqs = gap, dueAt = now + gapDelay a\<rparr>]\<rparr>)
          else (s, a)
        else (s, a))"

text \<open>
  The filter of \<open>DueRetransmits\<close> works in place: \<open>keep\<close> shares the array of \<open>a.pending\<close>, and the
  loop writes entry \<open>j\<close> of that array while it reads entry \<open>i\<close>.
\<close>

function due_loop ::
  "int \<Rightarrow> pendingGap list \<Rightarrow> nat \<Rightarrow> nat \<Rightarrow> u64 list \<Rightarrow> u64 list \<times> pendingGap list" where
  "due_loop now arr i j due =
     (if i < length arr then
        let p = arr ! i in
        if \<not> now < dueAt p then due_loop now arr (Suc i) j (due @ seqs p)
        else due_loop now (arr[j := p]) (Suc i) (Suc j) due
      else (due, take j arr))"
  by pat_completeness auto
termination
  by (relation "measure (\<lambda>(now, arr, i, j, due). length arr - i)") auto

declare due_loop.simps [simp del]

definition DueRetransmits :: "int \<Rightarrow> Allocator \<Rightarrow> u64 list \<times> Allocator" where
  "DueRetransmits now a =
     (if pending a = [] then ([], a)
      else let (due, keep) = due_loop now (pending a) 0 0 [] in (due, a\<lparr>pending := keep\<rparr>))"

definition GapEnabled :: "Allocator \<Rightarrow> bool" where
  "GapEnabled a \<longleftrightarrow> gapEvery a \<noteq> 0 \<and> gapSize a \<noteq> 0"

definition GapConfig :: "Allocator \<Rightarrow> Config" where
  "GapConfig a = \<lparr>Start = 0, GapEvery = gapEvery a, GapSize = gapSize a, GapDelay = gapDelay a\<rparr>"

definition Pending :: "Allocator \<Rightarrow> nat" where
  "Pending a = length (pending a)"

section \<open>Per-flow allocation\<close>

record FlowKey =
  GroupIdx :: u32
  SubtreeID :: bytes

text \<open>The map of allocators: distinct keys own distinct allocators, so no two entries alias.\<close>

record PerFlowAllocator =
  pf_cfg :: Config
  allocs :: "FlowKey \<rightharpoonup> Allocator"

definition NewPerFlow :: "Config \<Rightarrow> PerFlowAllocator" where
  "NewPerFlow cfg = \<lparr>pf_cfg = cfg, allocs = Map.empty\<rparr>"

definition PerFlow_alloc :: "PerFlowAllocator \<Rightarrow> FlowKey \<Rightarrow> Allocator" where
  "PerFlow_alloc p k = (case allocs p k of Some a \<Rightarrow> a | None \<Rightarrow> seq_New (pf_cfg p))"

definition PerFlow_Next :: "int \<Rightarrow> FlowKey \<Rightarrow> PerFlowAllocator \<Rightarrow> u64 \<times> PerFlowAllocator" where
  "PerFlow_Next now k p =
     (let (s, a) = Allocator_Next now (PerFlow_alloc p k)
      in (s, p\<lparr>allocs := (allocs p)(k \<mapsto> a)\<rparr>))"

definition PerFlow_GapEnabled :: "PerFlowAllocator \<Rightarrow> bool" where
  "PerFlow_GapEnabled p \<longleftrightarrow> GapEvery (pf_cfg p) \<noteq> 0 \<and> GapSize (pf_cfg p) \<noteq> 0"

section \<open>The contract of a sequence source\<close>

text \<open>
  \<open>at p s\<close> says that the source stands at position \<open>p\<close>, an unbounded counter whose low 64 bits are
  the next number. A source hands out the number of its position and moves strictly forward.
\<close>

locale sequencer =
  fixes nxt :: "'e \<Rightarrow> 's \<Rightarrow> u64 \<times> 's"
    and at :: "nat \<Rightarrow> 's \<Rightarrow> bool"
  assumes nxt_at: "at p s \<Longrightarrow> fst (nxt e s) = word_of_nat p \<and> (\<exists>q > p. at q (snd (nxt e s)))"
begin

primrec run :: "'e list \<Rightarrow> 's \<Rightarrow> u64 list \<times> 's" where
  "run [] s = ([], s)"
| "run (e # es) s =
     (fst (nxt e s) # fst (run es (snd (nxt e s))), snd (run es (snd (nxt e s))))"

lemma run_positions:
  assumes "at p s"
  shows "\<exists>ps q. fst (run es s) = map word_of_nat ps \<and> length ps = length es \<and>
           sorted_wrt (<) ps \<and> set ps \<subseteq> {p..<q} \<and> p \<le> q \<and> at q (snd (run es s))"
  using assms
proof (induction es arbitrary: p s)
  case Nil
  then show ?case by (intro exI [of _ "[]"] exI [of _ p]) simp
next
  case (Cons e es)
  obtain q where q: "q > p" "at q (snd (nxt e s))" and v: "fst (nxt e s) = word_of_nat p"
    using nxt_at [OF Cons.prems] by blast
  obtain ps r where r: "fst (run es (snd (nxt e s))) = map word_of_nat ps" "length ps = length es"
      "sorted_wrt (<) ps" "set ps \<subseteq> {q..<r}" "q \<le> r" "at r (snd (run es (snd (nxt e s))))"
    using Cons.IH [OF q(2)] by blast
  show ?case
    by (intro exI [of _ "p # ps"] exI [of _ r]) (use q v r in auto)
qed

text \<open>As long as the position has not passed the word size, the numbers of a run increase strictly.\<close>

lemma run_increasing:
  assumes "at p s"
  shows "\<exists>q. p \<le> q \<and> at q (snd (run es s)) \<and>
           (q \<le> 2 ^ 64 \<longrightarrow> sorted_wrt (<) (map unat (fst (run es s))))"
proof -
  obtain ps q where r: "fst (run es s) = map word_of_nat ps" "sorted_wrt (<) ps"
      "set ps \<subseteq> {p..<q}" "p \<le> q" "at q (snd (run es s))"
    using run_positions [OF assms] by blast
  have "map unat (map word_of_nat ps :: u64 list) = ps" if "q \<le> 2 ^ 64"
  proof -
    have "unat (word_of_nat x :: u64) = x" if "x \<in> set ps" for x
      using that r(3) \<open>q \<le> 2 ^ 64\<close> by (auto simp: unat_of_nat)
    then show ?thesis by (simp add: map_idI)
  qed
  with r show ?thesis by auto
qed

end

section \<open>The allocator is a sequence source\<close>

definition alloc_at :: "nat \<Rightarrow> Allocator \<Rightarrow> bool" where
  "alloc_at p a \<longleftrightarrow> a_next a = word_of_nat p"

definition flow_at :: "FlowKey \<Rightarrow> nat \<Rightarrow> PerFlowAllocator \<Rightarrow> bool" where
  "flow_at k p s \<longleftrightarrow> alloc_at p (PerFlow_alloc s k)"

lemma fetch_next_eq: "fetch_next a = (a_next a, a\<lparr>a_next := a_next a + 1\<rparr>)"
  by (simp add: fetch_next_def Let_def)

lemma reserve_closed:
  "reserve k a = (map (\<lambda>i. a_next a + word_of_nat i) [0..<k], a\<lparr>a_next := a_next a + word_of_nat k\<rparr>)"
proof (induction k arbitrary: a)
  case 0
  then show ?case by simp
next
  case (Suc k)
  have "map (\<lambda>i. a_next a + word_of_nat i) [0..<Suc k]
      = a_next a # map (\<lambda>i. a_next a + 1 + word_of_nat i) [0..<k]"
    by (simp add: upt_conv_Cons map_Suc_upt [symmetric] add.assoc del: upt_Suc map_Suc_upt)
  then show ?case
    by (simp add: Let_def fetch_next_eq Suc.IH ac_simps del: upt_Suc)
qed

text \<open>The number of sequence numbers one call consumes, and the call in closed form.\<close>

definition gap_now :: "Allocator \<Rightarrow> bool" where
  "gap_now a \<longleftrightarrow> GapEnabled a \<and> (counter a + 1) mod gapEvery a = 0"

definition gap_numbers :: "Allocator \<Rightarrow> u64 list" where
  "gap_numbers a =
     (if gap_now a then map (\<lambda>i. a_next a + 1 + word_of_nat i) [0..<unat (gapSize a)] else [])"

lemma Allocator_Next_closed:
  "Allocator_Next now a =
     (a_next a,
      a\<lparr>a_next := a_next a + 1 + word_of_nat (length (gap_numbers a)),
        counter := (if GapEnabled a then counter a + 1 else counter a),
        pending := pending a @
          (if gap_now a \<and> 0 < gapDelay a
           then [\<lparr>seqs = gap_numbers a, dueAt = now + gapDelay a\<rparr>] else [])\<rparr>)"
  by (auto simp: Allocator_Next_def fetch_next_eq reserve_closed gap_now_def gap_numbers_def
      GapEnabled_def Let_def)

lemma fst_Allocator_Next [simp]: "fst (Allocator_Next now a) = a_next a"
  by (simp add: Allocator_Next_closed)

lemma Allocator_Next_at:
  "alloc_at p a \<Longrightarrow> alloc_at (p + 1 + length (gap_numbers a)) (snd (Allocator_Next now a))"
  by (simp add: alloc_at_def Allocator_Next_closed)

interpretation alloc: sequencer Allocator_Next alloc_at
proof unfold_locales
  show "fst (Allocator_Next e s) = word_of_nat p \<and> (\<exists>q>p. alloc_at q (snd (Allocator_Next e s)))"
    if "alloc_at p s" for p s e
    using that Allocator_Next_at [OF that, of e]
    by (auto simp: alloc_at_def intro!: exI [of _ "p + 1 + length (gap_numbers s)"])
qed

lemma PerFlow_alloc_Next:
  "PerFlow_alloc (snd (PerFlow_Next now k p)) k' =
     (if k' = k then snd (Allocator_Next now (PerFlow_alloc p k)) else PerFlow_alloc p k')"
  by (cases "allocs p k'") (simp_all add: PerFlow_Next_def PerFlow_alloc_def case_prod_beta)

lemma fst_PerFlow_Next: "fst (PerFlow_Next now k p) = fst (Allocator_Next now (PerFlow_alloc p k))"
  by (simp add: PerFlow_Next_def case_prod_beta)

interpretation flow: sequencer "\<lambda>now. PerFlow_Next now k" "flow_at k" for k
proof unfold_locales
  show "fst (PerFlow_Next e k s) = word_of_nat p \<and> (\<exists>q>p. flow_at k q (snd (PerFlow_Next e k s)))"
    if "flow_at k p s" for p s e
    using that alloc.nxt_at [of p "PerFlow_alloc s k" e]
    by (simp add: flow_at_def PerFlow_alloc_Next fst_PerFlow_Next)
qed

section \<open>The gap pattern in closed form\<close>

text \<open>How many numbers the first \<open>k\<close> calls have skipped: \<open>GapSize\<close> after every \<open>GapEvery\<close>-th call.\<close>

definition skipped_before :: "Config \<Rightarrow> nat \<Rightarrow> nat" where
  "skipped_before cfg k =
     (if GapEvery cfg = 0 \<or> GapSize cfg = 0 then 0
      else unat (GapSize cfg) * (k div unat (GapEvery cfg)))"

definition in_pattern :: "Config \<Rightarrow> nat \<Rightarrow> Allocator \<Rightarrow> bool" where
  "in_pattern cfg c a \<longleftrightarrow>
     gapEvery a = GapEvery cfg \<and> gapSize a = GapSize cfg \<and>
     a_next a = (if Start cfg = 0 then 1 else Start cfg) + word_of_nat (c + skipped_before cfg c) \<and>
     (GapEnabled a \<longrightarrow> counter a = word_of_nat c)"

lemma in_pattern_New: "in_pattern cfg 0 (seq_New cfg)"
  by (simp add: in_pattern_def seq_New_def skipped_before_def)

lemma word_mod_of_nat:
  assumes "c < 2 ^ 64"
  shows "((word_of_nat c :: u64) mod g = 0) \<longleftrightarrow> c mod unat g = 0"
  using assms by (simp add: word_unat_eq_iff unat_mod unat_of_nat)

lemma in_pattern_Next:
  assumes "in_pattern cfg c a" and "c + 1 < 2 ^ 64"
  shows "in_pattern cfg (c + 1) (snd (Allocator_Next now a))"
proof (cases "GapEnabled a")
  case False
  then show ?thesis
    using assms
    by (auto simp: in_pattern_def Allocator_Next_closed GapEnabled_def skipped_before_def
        gap_numbers_def gap_now_def)
next
  case True
  let ?g = "unat (gapEvery a)" and ?z = "unat (gapSize a)"
  have cfg: "gapEvery a = GapEvery cfg" "gapSize a = GapSize cfg" "counter a = word_of_nat c"
    using assms(1) True by (auto simp: in_pattern_def)
  have g0: "?g \<noteq> 0" using True by (simp add: GapEnabled_def unat_eq_0)
  have now: "gap_now a \<longleftrightarrow> (c + 1) mod ?g = 0"
    using True word_mod_of_nat [OF assms(2), of "gapEvery a"] cfg(3)
    by (simp add: gap_now_def add.commute)
  have sk: "skipped_before cfg (c + 1) = skipped_before cfg c + length (gap_numbers a)"
    using True cfg g0 now
    by (auto simp: skipped_before_def GapEnabled_def gap_numbers_def div_Suc distrib_left)
  show ?thesis
    using assms(1) True cfg sk
    by (simp add: in_pattern_def Allocator_Next_closed GapEnabled_def ac_simps)
qed

lemma run_pattern:
  assumes "in_pattern cfg c a" and "c + length nows < 2 ^ 64"
  shows "fst (alloc.run nows a) =
      map (\<lambda>k. (if Start cfg = 0 then 1 else Start cfg) + word_of_nat (k + skipped_before cfg k))
        [c..<c + length nows]
    \<and> in_pattern cfg (c + length nows) (snd (alloc.run nows a))"
  using assms
proof (induction nows arbitrary: c a)
  case Nil
  then show ?case by simp
next
  case (Cons now nows)
  have "in_pattern cfg (Suc c) (snd (Allocator_Next now a))"
    using in_pattern_Next [OF Cons.prems(1), of now] Cons.prems(2) by simp
  from Cons.IH [OF this] Cons.prems(2)
  have IH: "fst (alloc.run nows (snd (Allocator_Next now a))) =
      map (\<lambda>k. (if Start cfg = 0 then 1 else Start cfg) + word_of_nat (k + skipped_before cfg k))
        [Suc c..<Suc c + length nows]"
    "in_pattern cfg (Suc c + length nows) (snd (alloc.run nows (snd (Allocator_Next now a))))"
    by simp_all
  have "[c..<c + length (now # nows)] = c # [Suc c..<Suc c + length nows]"
    by (simp add: upt_conv_Cons del: upt_Suc)
  then show ?case
    using IH Cons.prems(1) by (simp add: in_pattern_def del: upt_Suc)
qed


section \<open>The retransmit queue\<close>

lemma due_loop_filter:
  assumes "arr = kept @ drop j mid @ todo" and "i = length mid" and "j = length kept" and "j \<le> i"
  shows "due_loop now arr i j due =
     (due @ concat (map seqs (filter (\<lambda>p. dueAt p \<le> now) todo)),
      kept @ filter (\<lambda>p. now < dueAt p) todo)"
  using assms
proof (induction todo arbitrary: arr kept mid i j due)
  case Nil
  then have "length arr = i" by simp
  with Nil show ?case by (subst due_loop.simps) simp
next
  case (Cons p todo)
  have i: "i < length arr" "arr ! i = p" "length arr = i + Suc (length todo)"
    using Cons.prems by (simp_all add: nth_append)
  show ?case
  proof (cases "now < dueAt p")
    case False
    have "due_loop now arr (Suc i) j (due @ seqs p) =
       ((due @ seqs p) @ concat (map seqs (filter (\<lambda>p. dueAt p \<le> now) todo)),
        kept @ filter (\<lambda>p. now < dueAt p) todo)"
      by (rule Cons.IH [where mid = "mid @ [p]"]) (use Cons.prems in auto)
    with False i show ?thesis by (subst due_loop.simps) (simp add: Let_def)
  next
    case True
    have upd: "arr[j := p] = (kept @ [p]) @ drop (Suc j) (mid @ [p]) @ todo"
    proof (cases "j = i")
      case True
      with Cons.prems show ?thesis by simp
    next
      case False
      with Cons.prems have lt: "j < length mid" by simp
      then obtain m ms where "drop j mid = m # ms" "ms = drop (Suc j) mid"
        by (metis Cons_nth_drop_Suc)
      with Cons.prems lt show ?thesis by (simp add: list_update_append)
    qed
    have "due_loop now (arr[j := p]) (Suc i) (Suc j) due =
       (due @ concat (map seqs (filter (\<lambda>p. dueAt p \<le> now) todo)),
        (kept @ [p]) @ filter (\<lambda>p. now < dueAt p) todo)"
  by (rule Cons.IH [OF upd]) (use Cons.prems in auto)
    with True i show ?thesis by (subst due_loop.simps) (simp add: Let_def)
  qed
qed

lemma DueRetransmits_filter:
  "DueRetransmits now a =
     (concat (map seqs (filter (\<lambda>p. dueAt p \<le> now) (pending a))),
      a\<lparr>pending := filter (\<lambda>p. now < dueAt p) (pending a)\<rparr>)"
proof (cases "pending a = []")
  case True
  then show ?thesis by (simp add: DueRetransmits_def)
next
  case False
  have "due_loop now (pending a) 0 0 [] =
     ([] @ concat (map seqs (filter (\<lambda>p. dueAt p \<le> now) (pending a))),
      [] @ filter (\<lambda>p. now < dueAt p) (pending a))"
    by (rule due_loop_filter [where mid = "[]"]) simp_all
  with False show ?thesis by (simp add: DueRetransmits_def)
qed

text \<open>A session of the allocator: calls of \<open>Next\<close> and \<open>DueRetransmits\<close> in any order, with the
  numbers returned by each kind of call.\<close>

datatype seq_op = OpNext int | OpDue int

fun session :: "seq_op list \<Rightarrow> Allocator \<Rightarrow> u64 list \<times> u64 list \<times> Allocator" where
  "session [] a = ([], [], a)"
| "session (OpNext now # ops) a =
     (let (s, a) = Allocator_Next now a; (iss, ret, a) = session ops a in (s # iss, ret, a))"
| "session (OpDue now # ops) a =
     (let (due, a) = DueRetransmits now a; (iss, ret, a) = session ops a in (iss, due @ ret, a))"

definition queued :: "Allocator \<Rightarrow> u64 list" where
  "queued a = concat (map seqs (pending a))"

lemma mset_due_split:
  "mset (concat (map f (filter (\<lambda>p. dueAt p \<le> now) ps))) +
   mset (concat (map f (filter (\<lambda>p. now < dueAt p) ps))) = mset (concat (map f ps))"
  by (induction ps) (auto simp: not_le)

lemma mset_number_block:
  "mset (map (\<lambda>i. s + word_of_nat i) [0..<m]) + mset (map (\<lambda>i. s + word_of_nat m + word_of_nat i) [0..<n])
   = mset (map (\<lambda>i. s + word_of_nat i :: u64) [0..<m + n])"
proof -
  have "[0..<m + n] = [0..<m] @ map (\<lambda>i. m + i) [0..<n]"
    using map_add_upt [of m n] upt_add_eq_append [of 0 m n] by (simp add: add.commute)
  then show ?thesis by (simp add: add.assoc comp_def)
qed

text \<open>The block of numbers one call hands out, returned or skipped.\<close>

lemma Next_block:
  "a_next a # gap_numbers a =
     map (\<lambda>i. a_next a + word_of_nat i) [0..<Suc (length (gap_numbers a))]"
  by (simp add: gap_numbers_def upt_conv_Cons map_Suc_upt [symmetric] add.assoc
      del: upt_Suc map_Suc_upt)

lemma session_conserves:
  assumes "0 < gapDelay a" and "session ops a = (iss, ret, a')"
  shows "0 < gapDelay a' \<and> (\<exists>m. a_next a' = a_next a + word_of_nat m \<and>
     mset iss + mset ret + mset (queued a') =
     mset (queued a) + mset (map (\<lambda>i. a_next a + word_of_nat i) [0..<m]))"
  using assms
proof (induction ops arbitrary: a iss ret a')
  case Nil
  then show ?case by (intro conjI exI [of _ 0]) simp_all
next
  case (Cons op ops)
  show ?case
  proof (cases op)
    case (OpNext now)
    let ?b = "snd (Allocator_Next now a)" and ?l = "Suc (length (gap_numbers a))"
    obtain iss1 where s: "session ops ?b = (iss1, ret, a')" and iss: "iss = a_next a # iss1"
      using Cons.prems(2) OpNext by (cases "session ops ?b") (auto simp: case_prod_beta)
    have b: "0 < gapDelay ?b" "a_next ?b = a_next a + word_of_nat ?l"
        "mset (queued ?b) = mset (queued a) + mset (gap_numbers a)"
      using Cons.prems(1)
      by (auto simp: Allocator_Next_closed queued_def gap_numbers_def)
    obtain m where m: "0 < gapDelay a'" "a_next a' = a_next ?b + word_of_nat m"
      "mset iss1 + mset ret + mset (queued a') =
         mset (queued ?b) + mset (map (\<lambda>i. a_next ?b + word_of_nat i) [0..<m])"
      using Cons.IH [OF b(1) s] by blast
    have blk: "add_mset (a_next a) (mset (gap_numbers a)) =
        mset (map (\<lambda>i. a_next a + word_of_nat i) [0..<?l])"
      by (metis Next_block mset.simps(2))
    have "mset iss + mset ret + mset (queued a') =
        mset (queued a) + (add_mset (a_next a) (mset (gap_numbers a)) +
          mset (map (\<lambda>i. a_next a + word_of_nat ?l + word_of_nat i) [0..<m]))"
      using m(3) b iss by (simp add: ac_simps)
    also have "\<dots> = mset (queued a) + mset (map (\<lambda>i. a_next a + word_of_nat i) [0..<?l + m])"
      unfolding blk by (simp only: mset_number_block)
    finally show ?thesis
      using m(1,2) b(2) by (intro conjI exI [of _ "?l + m"]) (simp_all add: ac_simps)
  next
    case (OpDue now)
    let ?b = "snd (DueRetransmits now a)" and ?due = "fst (DueRetransmits now a)"
    obtain ret1 where s: "session ops ?b = (iss, ret1, a')" and ret: "ret = ?due @ ret1"
      using Cons.prems(2) OpDue by (cases "session ops ?b") (auto simp: case_prod_beta)
    have b: "0 < gapDelay ?b" "a_next ?b = a_next a"
        "mset (queued a) = mset ?due + mset (queued ?b)"
      using Cons.prems(1) by (simp_all add: DueRetransmits_filter queued_def mset_due_split)
    obtain m where m: "0 < gapDelay a'" "a_next a' = a_next ?b + word_of_nat m"
      "mset iss + mset ret1 + mset (queued a') =
         mset (queued ?b) + mset (map (\<lambda>i. a_next ?b + word_of_nat i) [0..<m])"
      using Cons.IH [OF b(1) s] by blast
    show ?thesis
      using m b ret by (intro conjI exI [of _ m]) (simp_all add: ac_simps)
  qed
qed


lemma session_run:
  "session (map OpNext nows) a = (fst (alloc.run nows a), [], snd (alloc.run nows a))"
  by (induction nows arbitrary: a) (simp_all add: case_prod_beta)

text \<open>Calls of a per-flow allocator: each names its flow and its instant.\<close>

fun flow_session :: "(int \<times> FlowKey) list \<Rightarrow> PerFlowAllocator \<Rightarrow> u64 list \<times> PerFlowAllocator" where
  "flow_session [] p = ([], p)"
| "flow_session ((now, k) # calls) p =
     (let (s, p) = PerFlow_Next now k p; (vs, p) = flow_session calls p in (s # vs, p))"

text \<open>The numbers a session returned to one flow.\<close>

definition numbers_of :: "FlowKey \<Rightarrow> (int \<times> FlowKey) list \<Rightarrow> u64 list \<Rightarrow> u64 list" where
  "numbers_of k calls vs = map snd (filter (\<lambda>((now, k'), v). k' = k) (zip calls vs))"

lemma flow_session_alloc:
  "numbers_of k calls (fst (flow_session calls p)) =
     fst (alloc.run (map fst (filter (\<lambda>c. snd c = k) calls)) (PerFlow_alloc p k)) \<and>
   PerFlow_alloc (snd (flow_session calls p)) k =
     snd (alloc.run (map fst (filter (\<lambda>c. snd c = k) calls)) (PerFlow_alloc p k))"
proof (induction calls arbitrary: p)
  case Nil
  then show ?case by (simp add: numbers_of_def)
next
  case (Cons c calls)
  obtain now k' where c: "c = (now, k')" by (cases c)
  show ?case
    using Cons.IH [of "snd (PerFlow_Next now k' p)"]
    by (auto simp: c case_prod_beta numbers_of_def PerFlow_alloc_Next fst_PerFlow_Next)
qed

lemma flow_session_run:
  "flow_session (map (\<lambda>now. (now, k)) nows) p = flow.run k nows p"
  by (induction nows arbitrary: p) (simp_all add: case_prod_beta)

section \<open>Properties\<close>

text \<open>C25: The injected gap pattern in closed form. From a fresh allocator the \<open>k\<close>-th call (from 0)
  returns the start number plus \<open>k\<close> plus \<open>GapSize\<close> for every \<open>GapEvery\<close> calls completed before it
  (nothing is skipped when either is zero), and after \<open>n\<close> calls the counter stands at the number
  the next call would return. A zero \<open>Start\<close> means 1.\<close>

theorem gap_pattern:
  assumes "length nows < 2 ^ 64"
  shows "session (map OpNext nows) (seq_New cfg) = (vs, ret, a) \<Longrightarrow>
     vs = map (\<lambda>k. (if Start cfg = 0 then 1 else Start cfg) + word_of_nat (k + skipped_before cfg k))
            [0..<length nows] \<and>
     a_next a = (if Start cfg = 0 then 1 else Start cfg) +
       word_of_nat (length nows + skipped_before cfg (length nows))"
  using run_pattern [OF in_pattern_New, of nows cfg] assms
  by (auto simp: session_run in_pattern_def)

theorem gap_pattern_witness:
  "fst (session (map OpNext (replicate 7 0))
     (seq_New \<lparr>Start = 0, GapEvery = 3, GapSize = 2, GapDelay = 0\<rparr>)) = [1, 2, 3, 6, 7, 8, 11]"
proof -
  let ?cfg = "\<lparr>Start = 0, GapEvery = 3, GapSize = 2, GapDelay = 0\<rparr> :: Config"
  obtain vs ret a where s: "session (map OpNext (replicate 7 0)) (seq_New ?cfg) = (vs, ret, a)"
    by (cases "session (map OpNext (replicate 7 0)) (seq_New ?cfg)")
  have u: "[0..<7] = [0, 1, 2, 3, 4, 5, 6 :: nat]" by (simp add: upt_rec)
  show ?thesis
    using gap_pattern [OF _ s] s by (simp add: u skipped_before_def)
qed

text \<open>C26: With a retransmit delay nothing is lost and nothing is sent twice: over any sequence of
  calls of \<open>Next\<close> and \<open>DueRetransmits\<close> on a fresh allocator, the numbers returned by \<open>Next\<close>, those
  returned for retransmission and those still queued are together (with multiplicity) exactly the
  contiguous block the counter has passed.\<close>

theorem delayed_gaps_conserved:
  assumes "0 < GapDelay cfg" and "session ops (seq_New cfg) = (iss, ret, a)"
  shows "\<exists>m. a_next a = a_next (seq_New cfg) + word_of_nat m \<and>
     mset iss + mset ret + mset (queued a) =
     mset (map (\<lambda>i. a_next (seq_New cfg) + word_of_nat i) [0..<m])"
  using session_conserves [OF _ assms(2)] assms(1)
  by (auto simp: queued_def seq_New_def)

theorem delayed_gaps_conserved_witness:
  "\<exists>iss ret a m. session [OpNext 0, OpNext 1, OpDue 3, OpDue 9]
       (seq_New \<lparr>Start = 1, GapEvery = 2, GapSize = 2, GapDelay = 5\<rparr>) = (iss, ret, a) \<and>
     mset iss + mset ret + mset (queued a) = mset (map (\<lambda>i. 1 + word_of_nat i) [0..<m])"
proof -
  let ?a = "seq_New \<lparr>Start = 1, GapEvery = 2, GapSize = 2, GapDelay = 5\<rparr>"
  obtain iss ret a where s: "session [OpNext 0, OpNext 1, OpDue 3, OpDue 9] ?a = (iss, ret, a)"
    by (cases "session [OpNext 0, OpNext 1, OpDue 3, OpDue 9] ?a")
  have "a_next ?a = 1" by (simp add: seq_New_def)
  with delayed_gaps_conserved [OF _ s] s show ?thesis by auto
qed

text \<open>C27: The in-place filter of \<open>DueRetransmits\<close> is correct although it overwrites the array it
  reads: it returns the numbers of exactly the groups whose instant has come, in queue order, and
  keeps exactly the others, in queue order.\<close>

theorem DueRetransmits_exact:
  "DueRetransmits now a =
     (concat (map seqs (filter (\<lambda>p. dueAt p \<le> now) (pending a))),
      a\<lparr>pending := filter (\<lambda>p. now < dueAt p) (pending a)\<rparr>)"
  by (rule DueRetransmits_filter)

text \<open>Flows are independent: in any interleaving of calls for any flows, the numbers returned to
  flow \<open>k\<close> are those a single fresh allocator with the same configuration returns for the calls of
  \<open>k\<close> alone.\<close>

theorem flows_independent:
  "numbers_of k calls (fst (flow_session calls (NewPerFlow cfg))) =
   fst (session (map (\<lambda>c. OpNext (fst c)) (filter (\<lambda>c. snd c = k) calls)) (seq_New cfg))"
proof -
  have "PerFlow_alloc (NewPerFlow cfg) k = seq_New cfg"
    by (simp add: PerFlow_alloc_def NewPerFlow_def)
  then show ?thesis
    using flow_session_alloc [of k calls "NewPerFlow cfg"]
      session_run [of "map fst (filter (\<lambda>c. snd c = k) calls)" "seq_New cfg"]
    by (simp add: comp_def)
qed

text \<open>The numbers of a flow only move forward: from any state of a per-flow allocator, successive
  calls for a flow return the low 64 bits of strictly increasing positions, beginning at or after
  the flow's counter; while the position has not passed the word size the returned numbers
  themselves increase strictly.\<close>

theorem flow_numbers_increase:
  "\<exists>q. unat (a_next (PerFlow_alloc p k)) \<le> q \<and>
     a_next (PerFlow_alloc (snd (flow_session (map (\<lambda>now. (now, k)) nows) p)) k) = word_of_nat q \<and>
     (q \<le> 2 ^ 64 \<longrightarrow>
       sorted_wrt (<) (map unat (fst (flow_session (map (\<lambda>now. (now, k)) nows) p))))"
  using flow.run_increasing [of k "unat (a_next (PerFlow_alloc p k))" p nows]
  by (simp add: flow_session_run flow_at_def alloc_at_def)

theorem flow_numbers_increase_witness:
  "\<exists>q. a_next (PerFlow_alloc (snd (flow_session [] (NewPerFlow \<lparr>Start = 7, GapEvery = 0, GapSize = 0,
       GapDelay = 0\<rparr>))) \<lparr>GroupIdx = 0, SubtreeID = []\<rparr>) = word_of_nat q \<and> 7 \<le> q"
  using flow_numbers_increase [of "NewPerFlow \<lparr>Start = 7, GapEvery = 0, GapSize = 0, GapDelay = 0\<rparr>"
      "\<lparr>GroupIdx = 0, SubtreeID = []\<rparr>" "[]"]
  by (auto simp: PerFlow_alloc_def NewPerFlow_def seq_New_def)

end
