(* ===== verification/Go_Fmt.thy ===== *)
theory Go_Fmt
  imports Go_Std
begin

text \<open>
  The formatting verbs the program uses: \<open>%d\<close> and \<open>strconv.FormatUint\<close>, \<open>%x\<close> on bytes, \<open>%-Ns\<close>. A string is its
  UTF-8 bytes; widths count runes.
\<close>

section \<open>Decimal numbers\<close>

definition digit :: "nat \<Rightarrow> char" where
  "digit d = ''0123456789'' ! d"

fun dec :: "nat \<Rightarrow> string" where
  "dec n = (if n < 10 then [digit n] else dec (n div 10) @ [digit (n mod 10)])"

declare dec.simps [simp del]

definition int_dec :: "int \<Rightarrow> string" where
  "int_dec n = (if n < 0 then ''-'' @ dec (nat (- n)) else dec (nat n))"

text \<open>The value of a string of digits.\<close>

definition un_dec :: "string \<Rightarrow> nat" where
  "un_dec s = foldl (\<lambda>a c. 10 * a + (of_char c - 48)) 0 s"

lemma less_10_cases: "d < 10 \<Longrightarrow> d \<in> {0, 1, 2, 3, 4, 5, 6, 7, 8, 9 :: nat}"
  by auto

lemma digit_val: "d < 10 \<Longrightarrow> of_char (digit d) - (48 :: nat) = d"
  by (drule less_10_cases) (auto simp: digit_def)

lemma digit_not_comma: "d < 10 \<Longrightarrow> digit d \<noteq> CHR '',''"
  by (drule less_10_cases) (auto simp: digit_def)

lemma un_dec_dec: "un_dec (dec n) = n"
proof (induction n rule: dec.induct)
  case (1 n)
  then show ?case
    by (cases "n < 10") (simp_all add: dec.simps [of n] un_dec_def digit_val)
qed

lemma dec_no_comma: "CHR '','' \<notin> set (dec n)"
proof (induction n rule: dec.induct)
  case (1 n)
  then show ?case
    using digit_not_comma [of n] digit_not_comma [of "n mod 10"]
    by (cases "n < 10") (auto simp: dec.simps [of n])
qed

lemma dec_nonempty: "dec n \<noteq> []"
  by (subst dec.simps) simp

section \<open>Hexadecimal rendering\<close>

definition hex_digit :: "nat \<Rightarrow> char" where
  "hex_digit n = char_of (if n < 10 then 48 + n else 87 + n :: nat)"

definition hex_encode :: "bytes \<Rightarrow> string" where
  "hex_encode bs = concat (map (\<lambda>b. [hex_digit (unat b div 16), hex_digit (unat b mod 16)]) bs)"

lemma length_hex_encode: "length (hex_encode bs) = 2 * length bs"
  by (induction bs) (simp_all add: hex_encode_def)

section \<open>Padding\<close>

text \<open>\<open>utf8.RuneCountInString\<close> on a valid string: the bytes that do not continue a rune.\<close>

definition rune_count :: "string \<Rightarrow> nat" where
  "rune_count s = length (filter (\<lambda>c. of_char c div 64 \<noteq> (2 :: nat)) s)"

text \<open>\<open>%-Ns\<close>.\<close>

definition pad_right :: "nat \<Rightarrow> string \<Rightarrow> string" where
  "pad_right n s = s @ replicate (n - rune_count s) (CHR '' '')"

text \<open>The character \<open>U+2026\<close>.\<close>

definition ellipsis :: string where
  "ellipsis = [char_of (0xE2 :: nat), char_of (0x80 :: nat), char_of (0xA6 :: nat)]"

end
