(* ===== verification/Subtree_Pool.thy ===== *)
theory Subtree_Pool
  imports Go_Fmt
begin

text \<open>
  \<open>internal/subtree\<close>: the pool of deterministic 32-byte subtree identifiers. \<open>Pick\<close> takes a 64-bit
  selector and reduces it modulo the pool size on 64-bit words, as the code does; an out-of-range
  \<open>At\<close> is a panic, \<open>None\<close>.
\<close>

record Pool =
  ids :: "bytes list"

definition zero_ID :: bytes where
  "zero_ID = replicate 32 0"

definition subtree_New :: "int \<Rightarrow> bytes \<Rightarrow> Pool" where
  "subtree_New n seed =
     (if n \<le> 0 then \<lparr>ids = []\<rparr>
      else \<lparr>ids = map (\<lambda>i. sha256 (seed @ be 8 i)) [0..<nat n]\<rparr>)"

definition Pool_Len :: "Pool \<Rightarrow> nat" where
  "Pool_Len p = length (ids p)"

definition Pool_At :: "Pool \<Rightarrow> int \<Rightarrow> bytes option" where
  "Pool_At p i = (if 0 \<le> i \<and> i < int (length (ids p)) then Some (ids p ! nat i) else None)"

definition Pool_Pick :: "Pool \<Rightarrow> u64 \<Rightarrow> bytes" where
  "Pool_Pick p i =
     (if ids p = [] then zero_ID
      else ids p ! unat (i mod word_of_nat (length (ids p))))"

section \<open>Rendering\<close>

definition Pool_HexAt :: "Pool \<Rightarrow> int \<Rightarrow> string option" where
  "Pool_HexAt p i = map_option hex_encode (Pool_At p i)"

text \<open>\<open>String\<close>; the slice \<open>[:16]\<close> of the first identifier's rendering panics on a shorter one.\<close>

definition Pool_String :: "Pool \<Rightarrow> string option" where
  "Pool_String p =
     (if ids p = [] then Some ''subtree.Pool{empty}''
      else do {
        h \<leftarrow> Pool_HexAt p 0;
        if length h < 16 then None
        else Some (''subtree.Pool{n='' @ dec (length (ids p)) @ '' first='' @ take 16 h @ ellipsis @ ''}'') })"

section \<open>Lemmas\<close>

lemma Pool_Len_New: "Pool_Len (subtree_New n seed) = nat n"
  by (simp add: Pool_Len_def subtree_New_def)

lemma ids_New_length: "x \<in> set (ids (subtree_New n seed)) \<Longrightarrow> length x = 32"
  by (auto simp: subtree_New_def split: if_splits)

lemma unat_mod_length:
  assumes "0 < n" and "n < 2 ^ 64"
  shows "unat (i mod word_of_nat n :: u64) = unat i mod n"
  using assms by (simp add: unat_mod unat_of_nat)

text \<open>A pool made by \<open>New\<close> can always be shown.\<close>

lemma Pool_String_New: "\<exists>s. Pool_String (subtree_New n seed) = Some s"
proof (cases "0 < n")
  case True
  then have "Pool_At (subtree_New n seed) 0 = Some (sha256 (seed @ be 8 0))" by (simp add: Pool_At_def subtree_New_def)
  then show ?thesis by (simp add: Pool_String_def Pool_HexAt_def length_hex_encode length_sha256)
qed (simp add: Pool_String_def subtree_New_def)

section \<open>Properties\<close>

text \<open>The pool is a pure function of seed and size: it has exactly \<open>n\<close> identifiers (none for a
  non-positive size), the \<open>i\<close>-th is the SHA-256 of the seed followed by \<open>i\<close> on eight big-endian bytes
  whatever the size, so a smaller pool is a prefix of a larger one; and an index outside the pool
  is the panic.\<close>

theorem pool_deterministic:
  "Pool_Len (subtree_New n seed) = nat n \<and>
   Pool_At (subtree_New n seed) i =
     (if 0 \<le> i \<and> i < n then Some (sha256 (seed @ be 8 (nat i))) else None) \<and>
   ids (subtree_New n seed) = take (nat n) (ids (subtree_New (n + int k) seed))"
  by (auto simp: Pool_Len_def Pool_At_def subtree_New_def take_map nat_add_distrib)

text \<open>\<open>Pick\<close> never panics and always yields a pool member: with a nonempty pool of fewer than
  \<open>2^64\<close> identifiers it returns entry \<open>i mod n\<close>, so equal selectors pick equal identifiers and every
  entry is picked by its own index; with an empty pool it returns the zero identifier.\<close>

theorem Pick_spec:
  assumes "length (ids p) < 2 ^ 64"
  shows "Pool_Pick p i =
     (if ids p = [] then zero_ID else ids p ! (unat i mod length (ids p))) \<and>
     (ids p \<noteq> [] \<longrightarrow> Pool_Pick p i \<in> set (ids p)) \<and>
     (\<forall>k < length (ids p). Pool_Pick p (word_of_nat k) = ids p ! k)"
  using assms by (auto simp: Pool_Pick_def unat_mod_length unat_of_nat)

theorem Pick_spec_witness:
  "Pool_Pick \<lparr>ids = [[1], [2], [3]]\<rparr> 10 = [2]"
  using Pick_spec [of "\<lparr>ids = [[1], [2], [3]]\<rparr>" 10] by simp

end
