(* ===== verification/Sender_Frame.thy ===== *)
theory Sender_Frame
  imports Objfmt_Ref Frame_Enc Seq Subtree_Pool
begin

text \<open>
  \<open>internal/sender\<close>, first part: the configuration, and what one token makes a worker do up to the
  encoded frame: build the payload, stamp its TxID (possibly corrupted), choose the subtree, stamp
  SeqNum and HashKey, encode. A worker reuses its payload slice, its frame and its buffer, so all
  three are in its state. The package \<open>seqhash\<close> is the parameter \<open>hash\<close>; the byte drawn for the
  corruption is \<open>None\<close> when the system generator fails; instants are inputs.
\<close>

unbundle bit_operations_syntax

section \<open>Configuration\<close>

datatype PayloadFormat = PayloadBRC124 | PayloadBRC128 | PayloadMixed

datatype Mode = ModeUnicast | ModeDirectMulticast | ModeUnknown

definition MinPayloadSize :: "PayloadFormat \<Rightarrow> int" where
  "MinPayloadSize p =
     (case p of PayloadBRC128 \<Rightarrow> MinEFSize | PayloadMixed \<Rightarrow> MinEFSize | _ \<Rightarrow> MinRawSize)"

definition PayloadFormat_String :: "PayloadFormat \<Rightarrow> string" where
  "PayloadFormat_String p =
     (case p of PayloadBRC128 \<Rightarrow> ''brc128'' | PayloadMixed \<Rightarrow> ''mixed'' | _ \<Rightarrow> ''brc124'')"

record SendConfig =
  c_Mode :: Mode
  c_TCP :: bool
  c_FrameVersion :: byte
  c_Workers :: int
  c_PPS :: int
  c_Duration :: int
  c_Count :: u64
  c_PayloadSize :: int
  c_PayloadFormat :: PayloadFormat
  c_LogInterval :: int
  c_CorruptTxIDRate :: nat
  c_ShardBits :: u64

text \<open>The shared part of the runner a frame touches; \<open>r_alloc\<close> may be a nil pointer.\<close>

record Runner =
  r_cfg :: SendConfig
  r_pool :: Pool
  r_alloc :: "Allocator option"
  r_pfa :: "PerFlowAllocator option"

definition sender_New :: "SendConfig \<Rightarrow> Pool \<Rightarrow> Allocator option \<Rightarrow> Runner" where
  "sender_New cfg pool alloc =
     (let cfg = (if c_Workers cfg \<le> 0 then cfg\<lparr>c_Workers := 1\<rparr> else cfg);
          cfg = (if c_PayloadSize cfg \<le> 0 then cfg\<lparr>c_PayloadSize := 256\<rparr> else cfg);
          cfg = (if c_LogInterval cfg \<le> 0 then cfg\<lparr>c_LogInterval := 1000000000\<rparr> else cfg)
      in \<lparr>r_cfg = cfg, r_pool = pool, r_alloc = alloc,
          r_pfa = (case alloc of
             None \<Rightarrow> None
           | Some a \<Rightarrow> if GapEnabled a then Some (NewPerFlow ((GapConfig a)\<lparr>Start := 1\<rparr>)) else None)\<rparr>)"

text \<open>The shift counts are unsigned 64-bit, so \<open>32 - bits\<close> wraps above 32; a shift by 32 or more is 0.\<close>

definition groupIdx :: "u64 \<Rightarrow> bytes \<Rightarrow> u32" where
  "groupIdx bits txid =
     (if bits = 0 then 0
      else
        let prefix32 = word_of_nat (un_be (take 4 txid)) :: u32;
            mask = push_bit (unat bits) 1 - 1
        in drop_bit (unat (32 - bits)) prefix32 AND mask)"

section \<open>One frame\<close>

record Worker =
  w_builder :: Builder
  w_payload :: bytes
  w_frame :: Frame
  w_buf :: bytes
  w_local :: u64

definition worker_start :: "frame_pkg \<Rightarrow> SendConfig \<Rightarrow> nat \<Rightarrow> bytes \<Rightarrow> Worker" where
  "worker_start P cfg wid seed =
     \<lparr>w_builder = tx_New (seed[0 := (seed ! 0) XOR word_of_nat wid]),
      w_payload = replicate (nat (c_PayloadSize cfg)) 0,
      w_frame = \<lparr>f_TxID = replicate 32 0, f_SubtreeID = replicate 32 0, f_SeqNum = 0, f_HashKey = 0,
                 f_Payload = []\<rparr>,
      w_buf = replicate (frame_HeaderSize P (c_FrameVersion cfg) + nat (c_PayloadSize cfg)) 0,
      w_local = 0\<rparr>"

definition useEF :: "PayloadFormat \<Rightarrow> u64 \<Rightarrow> bool" where
  "useEF pf n = (case pf of PayloadBRC128 \<Rightarrow> True | PayloadMixed \<Rightarrow> n mod 2 = 1 | _ \<Rightarrow> False)"

definition corrupt_txid :: "nat \<Rightarrow> byte option \<Rightarrow> bytes \<Rightarrow> bytes" where
  "corrupt_txid rate rnd txid =
     (if 0 < rate then
        (case rnd of
           None \<Rightarrow> txid
         | Some b \<Rightarrow>
             if unat b mod 100 < rate then
               let byteIdx = unat (b div 8); bitIdx = unat (b mod 8)
               in txid[byteIdx := (txid ! byteIdx) XOR push_bit bitIdx 1]
             else txid)
      else txid)"

text \<open>
  The SeqNum of a frame: \<open>Some\<close> from a per-flow allocator; \<open>None\<close> leaves the field alone and only
  draws from the shared allocator, whose absence is a nil dereference.
\<close>

definition stamp_seq :: "int \<Rightarrow> FlowKey \<Rightarrow> Runner \<Rightarrow> (u64 option \<times> Runner) option" where
  "stamp_seq now k r =
     (case r_pfa r of
        Some p \<Rightarrow> let (s, p) = PerFlow_Next now k p in Some (Some s, r\<lparr>r_pfa := Some p\<rparr>)
      | None \<Rightarrow>
          if c_Mode (r_cfg r) = ModeDirectMulticast then
            let p = NewPerFlow \<lparr>Start = 1, GapEvery = 0, GapSize = 0, GapDelay = 0\<rparr>;
                (s, p) = PerFlow_Next now k p
            in Some (Some s, r\<lparr>r_pfa := Some p\<rparr>)
          else (case r_alloc r of
             None \<Rightarrow> None
           | Some a \<Rightarrow> let (s, a) = Allocator_Next now a in Some (None, r\<lparr>r_alloc := Some a\<rparr>)))"

datatype frame_result = Built bytes | BuildErr tx_error | IDErr | EncErr frame_error | NilPanic

text \<open>The payload of the next frame, in the worker's reused slice; the frame counter moves first.\<close>

definition build_payload :: "SendConfig \<Rightarrow> Worker \<Rightarrow> (tx_error + bytes) \<times> Worker" where
  "build_payload cfg w =
     (let ef = useEF (c_PayloadFormat cfg) (w_local w);
          w = w\<lparr>w_local := w_local w + 1\<rparr>;
          (res, b) = (if ef then BuildEF (w_builder w) (w_payload w) (c_PayloadSize cfg)
                      else Build (w_builder w) (w_payload w) (c_PayloadSize cfg));
          w = w\<lparr>w_builder := b\<rparr>
      in case res of
        Inl e \<Rightarrow> (Inl e, w)
      | Inr payload \<Rightarrow> (Inr payload, w\<lparr>w_payload := payload, w_frame := (w_frame w)\<lparr>f_Payload := payload\<rparr>\<rparr>))"

text \<open>The SeqNum (if one was drawn) and, in direct mode, the HashKey go into the frame.\<close>

definition stamp_fields ::
  "SendConfig \<Rightarrow> (bytes \<Rightarrow> u32 \<Rightarrow> bytes \<Rightarrow> u64) \<Rightarrow> bytes \<Rightarrow> FlowKey \<Rightarrow> u64 option \<Rightarrow> Frame \<Rightarrow> Frame" where
  "stamp_fields cfg hash srcIPv6 k sq f =
     (let f = (case sq of None \<Rightarrow> f | Some s \<Rightarrow> f\<lparr>f_SeqNum := s\<rparr>)
      in if c_Mode cfg = ModeDirectMulticast
         then f\<lparr>f_HashKey := hash srcIPv6 (GroupIdx k) (SubtreeID k)\<rparr> else f)"

text \<open>The flow of a TxID: its group and the subtree the pool picks for it.\<close>

definition flow_of :: "SendConfig \<Rightarrow> Pool \<Rightarrow> bytes \<Rightarrow> FlowKey" where
  "flow_of cfg pool txid =
     \<lparr>GroupIdx = groupIdx (c_ShardBits cfg) txid, SubtreeID = Pool_Pick pool (word_of_nat (un_be (take 8 txid)))\<rparr>"

text \<open>The frame of a stamped TxID: its fields are set and it is encoded into the worker's buffer.\<close>

definition emit_frame ::
  "frame_pkg \<Rightarrow> (bytes \<Rightarrow> u32 \<Rightarrow> bytes \<Rightarrow> u64) \<Rightarrow> bytes \<Rightarrow> SendConfig \<Rightarrow> FlowKey \<Rightarrow> u64 option \<Rightarrow> bytes \<Rightarrow> Worker \<Rightarrow>
   frame_result \<times> Worker" where
  "emit_frame P hash srcIPv6 cfg k sq txid w =
     (let f = stamp_fields cfg hash srcIPv6 k sq ((w_frame w)\<lparr>f_TxID := txid, f_SubtreeID := SubtreeID k\<rparr>);
          w = w\<lparr>w_frame := f\<rparr>
      in case frame_Encode P (c_FrameVersion cfg) f (w_buf w) of
           Inl e \<Rightarrow> (EncErr e, w)
         | Inr (buf, n) \<Rightarrow> (Built (take n buf), w\<lparr>w_buf := buf\<rparr>))"

text \<open>Subtree, SeqNum, HashKey and encoding, under the TxID to be sent.\<close>

definition stamp_frame ::
  "frame_pkg \<Rightarrow> (bytes \<Rightarrow> u32 \<Rightarrow> bytes \<Rightarrow> u64) \<Rightarrow> bytes \<Rightarrow> int \<Rightarrow> bytes \<Rightarrow> Runner \<Rightarrow> Worker \<Rightarrow>
   frame_result \<times> Runner \<times> Worker" where
  "stamp_frame P hash srcIPv6 now txid r w =
     (let k = flow_of (r_cfg r) (r_pool r) txid
      in case stamp_seq now k r of
           None \<Rightarrow> (NilPanic, r, w\<lparr>w_frame := (w_frame w)\<lparr>f_TxID := txid, f_SubtreeID := SubtreeID k\<rparr>\<rparr>)
         | Some (sq, r) \<Rightarrow> let (f, w) = emit_frame P hash srcIPv6 (r_cfg r) k sq txid w in (f, r, w))"

text \<open>The local part of a token: the payload, and the TxID to be sent (with the corruption), or the failure.\<close>

definition take_payload ::
  "objfmt_pkg \<Rightarrow> SendConfig \<Rightarrow> byte option \<Rightarrow> Worker \<Rightarrow> (frame_result + bytes) \<times> Worker" where
  "take_payload ob cfg rnd w =
     (case build_payload cfg w of
        (Inl e, w) \<Rightarrow> (Inl (BuildErr e), w)
      | (Inr payload, w) \<Rightarrow>
          (case obj_TxID ob payload of
             None \<Rightarrow> (Inl IDErr, w)
           | Some txid \<Rightarrow> (Inr (corrupt_txid (c_CorruptTxIDRate cfg) rnd txid), w)))"

definition make_frame ::
  "frame_pkg \<Rightarrow> objfmt_pkg \<Rightarrow> (bytes \<Rightarrow> u32 \<Rightarrow> bytes \<Rightarrow> u64) \<Rightarrow> bytes \<Rightarrow> int \<Rightarrow> byte option \<Rightarrow>
   Runner \<Rightarrow> Worker \<Rightarrow> frame_result \<times> Runner \<times> Worker" where
  "make_frame P ob hash srcIPv6 now rnd r w =
     (case take_payload ob (r_cfg r) rnd w of
        (Inl f, w) \<Rightarrow> (f, r, w)
      | (Inr txid, w) \<Rightarrow> stamp_frame P hash srcIPv6 now txid r w)"

section \<open>Lemmas\<close>

lemma stamp_fields_simps [simp]:
  "f_TxID (stamp_fields cfg hash src k sq f) = f_TxID f"
  "f_SubtreeID (stamp_fields cfg hash src k sq f) = f_SubtreeID f"
  "f_Payload (stamp_fields cfg hash src k sq f) = f_Payload f"
  "f_SeqNum (stamp_fields cfg hash src k sq f) = (case sq of None \<Rightarrow> f_SeqNum f | Some s \<Rightarrow> s)"
  "f_HashKey (stamp_fields cfg hash src k sq f) =
     (if c_Mode cfg = ModeDirectMulticast then hash src (GroupIdx k) (SubtreeID k) else f_HashKey f)"
  by (simp_all add: stamp_fields_def Let_def split: option.split)

text \<open>Exactly one bit of the TxID differs.\<close>

definition one_bit_off :: "bytes \<Rightarrow> bytes \<Rightarrow> bool" where
  "one_bit_off x y \<longleftrightarrow> length x = length y \<and>
     (\<exists>i < length x. \<exists>j < 8. y = x[i := (x ! i) XOR push_bit j 1])"

lemma length_corrupt [simp]: "length (corrupt_txid rate rnd txid) = length txid"
  by (simp add: corrupt_txid_def Let_def split: option.split)

lemma xor_bit_ne: "j < 8 \<Longrightarrow> (c :: byte) XOR push_bit j 1 \<noteq> c"
proof
  assume j: "j < 8" and "c XOR push_bit j 1 = c"
  then have "bit (c XOR push_bit j 1) j = bit c j" by simp
  then show False using j by (simp add: bit_xor_iff bit_exp_iff)
qed

lemma corrupt_hit:
  assumes "length txid = 32" and "unat b mod 100 < rate"
  shows "one_bit_off txid (corrupt_txid rate (Some b) txid) \<and> corrupt_txid rate (Some b) txid \<noteq> txid"
proof -
  let ?i = "unat (b div 8)" and ?j = "unat (b mod 8)"
  have b: "unat b < 256" using unsigned_less [of b, where ?'a = nat] by simp
  have i: "?i < 32" using b by (simp add: unat_div less_mult_imp_div_less)
  have j: "?j < 8" by (simp add: unat_mod)
  have c: "corrupt_txid rate (Some b) txid = txid[?i := (txid ! ?i) XOR push_bit ?j 1]"
    using assms(2) by (simp add: corrupt_txid_def Let_def)
  have "corrupt_txid rate (Some b) txid ! ?i \<noteq> txid ! ?i"
    using i j assms(1) xor_bit_ne by (simp add: c)
  then have "corrupt_txid rate (Some b) txid \<noteq> txid" by auto
  moreover have "one_bit_off txid (corrupt_txid rate (Some b) txid)"
    unfolding one_bit_off_def using i j assms(1) c by auto
  ultimately show ?thesis by simp
qed

lemma corrupt_miss: "rnd = None \<or> (\<exists>b. rnd = Some b \<and> \<not> unat b mod 100 < rate) \<Longrightarrow> corrupt_txid rate rnd txid = txid"
  by (auto simp: corrupt_txid_def)

text \<open>The shard bits select the leading bits of the TxID.\<close>

lemma groupIdx_top:
  assumes "unat bits \<le> 32" and "length txid = 32"
  shows "unat (groupIdx bits txid) = un_be (take 4 txid) div 2 ^ (32 - unat bits)"
proof -
  have p: "un_be (take 4 txid) < 2 ^ 32" using un_be_bound [of "take 4 txid"] assms(2) by simp
  have s: "unat (32 - bits) = 32 - unat bits"
    using assms(1) by (simp add: unat_sub word_le_nat_alt)
  show ?thesis
  proof (cases "bits = 0")
    case True
    with p show ?thesis by (simp add: groupIdx_def)
  next
    case False
    let ?n = "unat bits"
    have m: "push_bit ?n 1 - 1 = (mask ?n :: u32)"
      by (simp add: mask_eq_exp_minus_1 push_bit_eq_mult)
    have "groupIdx bits txid = take_bit ?n (drop_bit (32 - ?n) (word_of_nat (un_be (take 4 txid))))"
      using False by (simp only: groupIdx_def Let_def if_False m s take_bit_eq_mask)
    then have "unat (groupIdx bits txid) =
        take_bit ?n (drop_bit (32 - ?n) (unat (word_of_nat (un_be (take 4 txid)) :: u32)))"
      using unsigned_less [of "word_of_nat (un_be (take 4 txid)) :: u32", where ?'a = nat]
      by (simp only: unsigned_take_bit_eq unsigned_drop_bit_eq)
        (simp add: take_bit_eq_mod drop_bit_eq_div)
    then have "unat (groupIdx bits txid) = (un_be (take 4 txid) div 2 ^ (32 - ?n)) mod 2 ^ ?n"
      using p by (simp add: unat_of_nat drop_bit_eq_div take_bit_eq_mod)
    moreover have "un_be (take 4 txid) div 2 ^ (32 - ?n) < 2 ^ ?n"
      using p assms(1) by (simp add: less_mult_imp_div_less flip: power_add)
    ultimately show ?thesis by simp
  qed
qed

section \<open>Frames of a worker\<close>

text \<open>The frames a worker makes for a list of tokens, each with its instant and random byte.\<close>

fun worker_run ::
  "frame_pkg \<Rightarrow> objfmt_pkg \<Rightarrow> (bytes \<Rightarrow> u32 \<Rightarrow> bytes \<Rightarrow> u64) \<Rightarrow> bytes \<Rightarrow> (int \<times> byte option) list \<Rightarrow>
   Runner \<Rightarrow> Worker \<Rightarrow> frame_result list" where
  "worker_run P ob hash src [] r w = []"
| "worker_run P ob hash src ((now, rnd) # ins) r w =
     (let (f, r1, w1) = make_frame P ob hash src now rnd r w
      in f # worker_run P ob hash src ins r1 w1)"

definition frame_of :: "SendConfig \<Rightarrow> bytes \<Rightarrow> u64 \<Rightarrow> u64 \<Rightarrow> bytes \<Rightarrow> bytes \<Rightarrow> bytes" where
  "frame_of cfg txid hk sn sub t =
     (if c_FrameVersion cfg = V1 then header44 txid (length t)
      else header92 2 0 txid hk sn sub (length t)) @ t"

text \<open>
  What frame \<open>n\<close> of a worker must be: exactly one transaction of the configured size, in the format
  the configuration gives frame \<open>n\<close>, under its own (possibly corrupted) TxID, with the subtree that
  TxID selects; the HashKey is set in direct mode only, and \<open>plain\<close> says SeqNum must be left zero.
\<close>

definition good_frame ::
  "objfmt_pkg \<Rightarrow> (bytes \<Rightarrow> u32 \<Rightarrow> bytes \<Rightarrow> u64) \<Rightarrow> bytes \<Rightarrow> SendConfig \<Rightarrow> Pool \<Rightarrow> bool \<Rightarrow> u64 \<Rightarrow> byte option \<Rightarrow>
   frame_result \<Rightarrow> bool" where
  "good_frame ob hash src cfg pool plain n rnd f \<longleftrightarrow>
     (\<exists>t cid txid sub sn.
        (if useEF (c_PayloadFormat cfg) n then ef_obj t else raw_obj t) \<and>
        int (length t) = c_PayloadSize cfg \<and> obj_TxID ob t = Some cid \<and>
        txid = corrupt_txid (c_CorruptTxIDRate cfg) rnd cid \<and>
        sub = Pool_Pick pool (word_of_nat (un_be (take 8 txid))) \<and> (plain \<longrightarrow> sn = 0) \<and>
        f = Built (frame_of cfg txid
              (if c_Mode cfg = ModeDirectMulticast then hash src (groupIdx (c_ShardBits cfg) txid) sub else 0)
              sn sub t))"

text \<open>The same with the TxID and the SeqNum of the header named, and with the TxID alone.\<close>

definition good_frame_num ::
  "objfmt_pkg \<Rightarrow> (bytes \<Rightarrow> u32 \<Rightarrow> bytes \<Rightarrow> u64) \<Rightarrow> bytes \<Rightarrow> SendConfig \<Rightarrow> Pool \<Rightarrow> u64 \<Rightarrow> byte option \<Rightarrow>
   bytes \<Rightarrow> u64 \<Rightarrow> frame_result \<Rightarrow> bool" where
  "good_frame_num ob hash src cfg pool n rnd txid sn f \<longleftrightarrow>
     (\<exists>t cid sub.
        (if useEF (c_PayloadFormat cfg) n then ef_obj t else raw_obj t) \<and>
        int (length t) = c_PayloadSize cfg \<and> obj_TxID ob t = Some cid \<and>
        txid = corrupt_txid (c_CorruptTxIDRate cfg) rnd cid \<and>
        sub = Pool_Pick pool (word_of_nat (un_be (take 8 txid))) \<and>
        f = Built (frame_of cfg txid
              (if c_Mode cfg = ModeDirectMulticast then hash src (groupIdx (c_ShardBits cfg) txid) sub else 0)
              sn sub t))"

definition good_frame_as ::
  "objfmt_pkg \<Rightarrow> (bytes \<Rightarrow> u32 \<Rightarrow> bytes \<Rightarrow> u64) \<Rightarrow> bytes \<Rightarrow> SendConfig \<Rightarrow> Pool \<Rightarrow> bool \<Rightarrow> u64 \<Rightarrow> byte option \<Rightarrow>
   bytes \<Rightarrow> frame_result \<Rightarrow> bool" where
  "good_frame_as ob hash src cfg pool plain n rnd txid f \<longleftrightarrow>
     (\<exists>sn. (plain \<longrightarrow> sn = 0) \<and> good_frame_num ob hash src cfg pool n rnd txid sn f)"

lemma good_frame_asD: "good_frame_as ob hash src cfg pool plain n rnd txid f \<Longrightarrow> good_frame ob hash src cfg pool plain n rnd f"
  unfolding good_frame_as_def good_frame_num_def good_frame_def by blast

text \<open>A configuration within the protocol's limits; the command checks all but the upper bound of the payload size.\<close>

definition send_ok :: "SendConfig \<Rightarrow> Pool \<Rightarrow> bool" where
  "send_ok cfg pool \<longleftrightarrow> (c_FrameVersion cfg = V1 \<or> c_FrameVersion cfg = V2) \<and>
     MinPayloadSize (c_PayloadFormat cfg) \<le> c_PayloadSize cfg \<and> c_PayloadSize cfg \<le> 10 * 1024 * 1024 \<and>
     (\<forall>i \<in> set (ids pool). length i = 32) \<and> length (ids pool) < 2 ^ 64"

text \<open>The invariant of a worker between frames: its own part, and with the runner it stamps from.\<close>

definition worker_ok :: "frame_pkg \<Rightarrow> SendConfig \<Rightarrow> bool \<Rightarrow> nat \<Rightarrow> Worker \<Rightarrow> bool" where
  "worker_ok P cfg plain n w \<longleftrightarrow>
     (plain \<longrightarrow> f_SeqNum (w_frame w) = 0) \<and> (c_Mode cfg \<noteq> ModeDirectMulticast \<longrightarrow> f_HashKey (w_frame w) = 0) \<and>
     w_local w = word_of_nat n \<and>
     length (w_buf w) = frame_HeaderSize P (c_FrameVersion cfg) + nat (c_PayloadSize cfg)"

definition worker_inv :: "frame_pkg \<Rightarrow> SendConfig \<Rightarrow> Pool \<Rightarrow> bool \<Rightarrow> nat \<Rightarrow> Runner \<Rightarrow> Worker \<Rightarrow> bool" where
  "worker_inv P cfg pool plain n r w \<longleftrightarrow>
     r_cfg r = cfg \<and> r_pool r = pool \<and> r_alloc r \<noteq> None \<and>
     (plain \<longrightarrow> r_pfa r = None \<and> c_Mode cfg \<noteq> ModeDirectMulticast) \<and> worker_ok P cfg plain n w"

text \<open>A payload taken for frame \<open>n\<close> under a TxID.\<close>

definition payload_taken :: "objfmt_pkg \<Rightarrow> SendConfig \<Rightarrow> u64 \<Rightarrow> byte option \<Rightarrow> bytes \<Rightarrow> bytes \<Rightarrow> bool" where
  "payload_taken ob cfg n rnd txid t \<longleftrightarrow>
     (\<exists>cid. (if useEF (c_PayloadFormat cfg) n then ef_obj t else raw_obj t) \<and> int (length t) = c_PayloadSize cfg \<and>
        obj_TxID ob t = Some cid \<and> length cid = 32 \<and> txid = corrupt_txid (c_CorruptTxIDRate cfg) rnd cid)"

lemma Pick_length: "\<forall>i \<in> set (ids pool). length i = 32 \<Longrightarrow> length (ids pool) < 2 ^ 64 \<Longrightarrow> length (Pool_Pick pool s) = 32"
proof -
  assume a: "\<forall>i \<in> set (ids pool). length i = 32" "length (ids pool) < 2 ^ 64"
  show "length (Pool_Pick pool s) = 32"
  proof (cases "ids pool = []")
    case True
    then show ?thesis by (simp add: Pool_Pick_def zero_ID_def)
  next
    case False
    then have "unat (s mod word_of_nat (length (ids pool))) < length (ids pool)"
      using a(2) unat_mod_length [of "length (ids pool)" s] by simp
    then show ?thesis using False a(1) by (simp add: Pool_Pick_def)
  qed
qed

lemma frame_Encode_of:
  assumes "frame_doc P" and "encode_doc P" and "c_FrameVersion cfg = V1 \<or> c_FrameVersion cfg = V2"
    and "length (f_TxID f) = 32" "length (f_SubtreeID f) = 32" "length (f_Payload f) \<le> 10 * 1024 * 1024"
    and "length buf = frame_HeaderSize P (c_FrameVersion cfg) + length (f_Payload f)"
  shows "\<exists>buf'. frame_Encode P (c_FrameVersion cfg) f buf = Inr (buf', length buf') \<and> length buf' = length buf \<and>
     buf' = frame_of cfg (f_TxID f) (f_HashKey f) (f_SeqNum f) (f_SubtreeID f) (f_Payload f)"
proof (cases "c_FrameVersion cfg = V1")
  case True
  then have "length buf = 44 + length (f_Payload f)"
    using assms(1,7) by (simp add: frame_HeaderSize_def frame_doc_def)
  moreover from this have "encodeV1 P f buf =
      Inr (header44 (f_TxID f) (length (f_Payload f)) @ f_Payload f, 44 + length (f_Payload f))"
    using encodeV1_layout [OF assms(1,4), of buf] assms(6) by (simp add: maxPayload_def)
  ultimately show ?thesis
    using True assms(4) by (simp add: frame_Encode_def V1_def V2_def frame_of_def header44_def)
next
  case False
  then have v: "c_FrameVersion cfg = V2" using assms(3) by simp
  then have "length buf = 92 + length (f_Payload f)"
    using assms(1,7) by (simp add: frame_HeaderSize_def frame_doc_def V1_def V2_def)
  moreover from this have "pkg_Encode P f buf =
      Some (header92 2 0 (f_TxID f) (f_HashKey f) (f_SeqNum f) (f_SubtreeID f) (length (f_Payload f)) @
            f_Payload f, 92 + length (f_Payload f))"
    using assms(2,4-6) unfolding encode_doc_def by simp
  ultimately show ?thesis
    using v False assms(4,5) by (simp add: frame_Encode_def frame_of_def length_header92)
qed

lemma stamp_seq_total:
  assumes "r_alloc r \<noteq> None"
  shows "\<exists>sq r'. stamp_seq now k r = Some (sq, r') \<and> r_cfg r' = r_cfg r \<and> r_pool r' = r_pool r \<and>
     r_alloc r' \<noteq> None \<and>
     (r_pfa r = None \<and> c_Mode (r_cfg r) \<noteq> ModeDirectMulticast \<longrightarrow> sq = None \<and> r_pfa r' = None)"
  using assms by (auto simp: stamp_seq_def case_prod_beta Let_def split: option.split)

text \<open>The build step: whichever format frame \<open>n\<close> has, it yields one transaction of the exact size.\<close>

lemma payload_built:
  assumes "send_ok cfg pool"
  shows "\<exists>t b'. build_payload cfg w = (Inr t, w\<lparr>w_local := w_local w + 1, w_builder := b', w_payload := t,
        w_frame := (w_frame w)\<lparr>f_Payload := t\<rparr>\<rparr>) \<and>
     (if useEF (c_PayloadFormat cfg) (w_local w) then ef_obj t else raw_obj t) \<and>
     int (length t) = c_PayloadSize cfg"
proof (cases "useEF (c_PayloadFormat cfg) (w_local w)")
  case True
  then have "75 \<le> c_PayloadSize cfg" "c_PayloadSize cfg \<le> 75 + (0xFFFFFFFF + 6)"
    using assms by (auto simp: send_ok_def MinPayloadSize_def useEF_def MinEFSize_def split: PayloadFormat.splits)
  then obtain t b' where "BuildEF (w_builder w) (w_payload w) (c_PayloadSize cfg) = (Inr t, b')" using BuildEF_total by blast
  with True BuildEF_ok [OF this] show ?thesis by (auto simp: build_payload_def Let_def)
next
  case False
  then have "60 \<le> c_PayloadSize cfg" "c_PayloadSize cfg \<le> 60 + (0xFFFFFFFF + 6)"
    using assms by (auto simp: send_ok_def MinPayloadSize_def MinEFSize_def MinRawSize_def split: PayloadFormat.splits)
  then obtain t b' where "Build (w_builder w) (w_payload w) (c_PayloadSize cfg) = (Inr t, b')" using Build_total by blast
  with False Build_ok [OF this] show ?thesis by (auto simp: build_payload_def Let_def)
qed

lemma take_payload_good:
  assumes "txid_doc ob tx_obj" and "send_ok cfg pool" and "worker_ok P cfg plain n w"
  shows "\<exists>txid w'. take_payload ob cfg rnd w = (Inr txid, w') \<and>
     payload_taken ob cfg (word_of_nat n) rnd txid (f_Payload (w_frame w')) \<and> worker_ok P cfg plain (Suc n) w'"
proof -
  have l: "w_local w = word_of_nat n" using assms(3) by (simp add: worker_ok_def)
  obtain t b' where t: "build_payload cfg w = (Inr t, w\<lparr>w_local := w_local w + 1, w_builder := b',
        w_payload := t, w_frame := (w_frame w)\<lparr>f_Payload := t\<rparr>\<rparr>)"
    "if useEF (c_PayloadFormat cfg) (word_of_nat n) then ef_obj t else raw_obj t"
    "int (length t) = c_PayloadSize cfg"
    using payload_built [OF assms(2), of w] l by auto
  have "tx_obj t" using t(2) by (auto simp: tx_obj_def split: if_splits)
  then obtain cid where cid: "obj_TxID ob t = Some cid" "length cid = 32"
    using assms(1) by (auto simp: txid_doc_def)
  have p: "payload_taken ob cfg (word_of_nat n) rnd (corrupt_txid (c_CorruptTxIDRate cfg) rnd cid) t"
    unfolding payload_taken_def using t(2,3) cid by blast
  show ?thesis
    using t(1) cid(1) p assms(3) by (simp add: take_payload_def worker_ok_def)
qed

lemma emit_frame_good:
  assumes "frame_doc P" and "encode_doc P" and "send_ok cfg pool" and "worker_ok P cfg plain m w"
    and "payload_taken ob cfg n rnd txid (f_Payload (w_frame w))" and "plain \<longrightarrow> sq = None"
  shows "\<exists>f w'. emit_frame P hash src cfg (flow_of cfg pool txid) sq txid w = (f, w') \<and>
     good_frame_num ob hash src cfg pool n rnd txid (case sq of None \<Rightarrow> f_SeqNum (w_frame w) | Some v \<Rightarrow> v) f \<and>
     f_TxID (w_frame w') = txid \<and> worker_ok P cfg plain m w'"
proof -
  let ?t = "f_Payload (w_frame w)"
  let ?k = "flow_of cfg pool txid"
  let ?sn = "case sq of None \<Rightarrow> f_SeqNum (w_frame w) | Some v \<Rightarrow> v"
  obtain cid where t: "if useEF (c_PayloadFormat cfg) n then ef_obj ?t else raw_obj ?t"
    "int (length ?t) = c_PayloadSize cfg" "obj_TxID ob ?t = Some cid" "length cid = 32"
    "txid = corrupt_txid (c_CorruptTxIDRate cfg) rnd cid"
    using assms(5) by (auto simp: payload_taken_def)
  define f where "f = stamp_fields cfg hash src ?k sq ((w_frame w)\<lparr>f_TxID := txid, f_SubtreeID := SubtreeID ?k\<rparr>)"
  have fields: "f_TxID f = txid" "f_SubtreeID f = SubtreeID ?k" "f_Payload f = ?t" "f_SeqNum f = ?sn"
    "f_HashKey f = (if c_Mode cfg = ModeDirectMulticast then hash src (GroupIdx ?k) (SubtreeID ?k) else f_HashKey (w_frame w))"
    by (simp_all add: f_def split: option.split)
  have sub: "length (SubtreeID ?k) = 32"
    using assms(3) by (simp add: flow_of_def send_ok_def Pick_length)
  have len: "length ?t \<le> 10 * 1024 * 1024" using t(2) assms(3) by (simp add: send_ok_def)
  have buf: "length (w_buf w) = frame_HeaderSize P (c_FrameVersion cfg) + length ?t"
    using assms(4) t(2) by (auto simp: worker_ok_def)
  obtain buf' where enc: "frame_Encode P (c_FrameVersion cfg) f (w_buf w) = Inr (buf', length buf')"
    "length buf' = length (w_buf w)" "buf' = frame_of cfg txid (f_HashKey f) ?sn (SubtreeID ?k) ?t"
    using frame_Encode_of [OF assms(1,2), of cfg f "w_buf w"] assms(3) sub len buf t(4,5)
    by (auto simp: fields send_ok_def)
  let ?w = "w\<lparr>w_frame := f, w_buf := buf'\<rparr>"
  have e: "emit_frame P hash src cfg ?k sq txid w = (Built buf', ?w)"
    using enc(1) by (simp add: emit_frame_def f_def [symmetric])
  have hk: "f_HashKey f = (if c_Mode cfg = ModeDirectMulticast then hash src (groupIdx (c_ShardBits cfg) txid)
      (Pool_Pick pool (word_of_nat (un_be (take 8 txid)))) else 0)"
    using assms(4) unfolding fields(5) worker_ok_def flow_of_def by auto
  have "good_frame_num ob hash src cfg pool n rnd txid ?sn (Built buf')"
    unfolding good_frame_num_def enc(3) hk flow_of_def
    by (intro exI conjI) (rule t(1) t(2) t(3) t(5) refl | simp)+
  moreover have "worker_ok P cfg plain m ?w"
    using assms(4,6) enc(2) by (auto simp: worker_ok_def fields)
  ultimately show ?thesis using e fields(1) by simp
qed

lemma make_frame_good:
  assumes "frame_doc P" and "encode_doc P" and "txid_doc ob tx_obj" and "send_ok cfg pool"
    and inv: "worker_inv P cfg pool plain n r w"
  shows "\<exists>f r' w'. make_frame P ob hash src now rnd r w = (f, r', w') \<and>
     good_frame_as ob hash src cfg pool plain (word_of_nat n) rnd (f_TxID (w_frame w')) f \<and>
     worker_inv P cfg pool plain (Suc n) r' w'"
proof -
  have i: "r_cfg r = cfg" "r_pool r = pool" "r_alloc r \<noteq> None" "worker_ok P cfg plain n w"
    "plain \<longrightarrow> r_pfa r = None \<and> c_Mode cfg \<noteq> ModeDirectMulticast"
    using inv by (simp_all add: worker_inv_def)
  obtain txid w1 where t: "take_payload ob cfg rnd w = (Inr txid, w1)"
    "payload_taken ob cfg (word_of_nat n) rnd txid (f_Payload (w_frame w1))" "worker_ok P cfg plain (Suc n) w1"
    using take_payload_good [OF assms(3,4) i(4)] by blast
  obtain sq r' where st: "stamp_seq now (flow_of cfg pool txid) r = Some (sq, r')"
    "r_cfg r' = cfg" "r_pool r' = pool" "r_alloc r' \<noteq> None"
    "r_pfa r = None \<and> c_Mode cfg \<noteq> ModeDirectMulticast \<longrightarrow> sq = None \<and> r_pfa r' = None"
    using stamp_seq_total [OF i(3)] i(1,2) by metis
  have sq: "plain \<longrightarrow> sq = None" using st(5) i(5) by blast
  obtain f w2 where e: "emit_frame P hash src cfg (flow_of cfg pool txid) sq txid w1 = (f, w2)"
    "good_frame_num ob hash src cfg pool (word_of_nat n) rnd txid
       (case sq of None \<Rightarrow> f_SeqNum (w_frame w1) | Some v \<Rightarrow> v) f"
    "f_TxID (w_frame w2) = txid" "worker_ok P cfg plain (Suc n) w2"
    using emit_frame_good [OF assms(1,2,4) t(3,2) sq] by blast
  have "make_frame P ob hash src now rnd r w = (f, r', w2)"
    using t(1) st(1,2) e(1) by (simp add: make_frame_def stamp_frame_def i(1,2))
  moreover have "plain \<longrightarrow> (case sq of None \<Rightarrow> f_SeqNum (w_frame w1) | Some v \<Rightarrow> v) = 0"
    using sq t(3) by (auto simp: worker_ok_def)
  then have "good_frame_as ob hash src cfg pool plain (word_of_nat n) rnd (f_TxID (w_frame w2)) f"
    unfolding good_frame_as_def e(3) using e(2) by blast
  moreover have "worker_inv P cfg pool plain (Suc n) r' w2"
    using st(2-5) i(5) e(4) by (auto simp: worker_inv_def)
  ultimately show ?thesis by blast
qed

lemma worker_run_good:
  assumes "frame_doc P" and "encode_doc P" and "txid_doc ob tx_obj" and "send_ok cfg pool"
  shows "worker_inv P cfg pool plain n r w \<Longrightarrow>
     length (worker_run P ob hash src ins r w) = length ins \<and>
     (\<forall>i < length ins. good_frame ob hash src cfg pool plain (word_of_nat (n + i)) (snd (ins ! i))
        (worker_run P ob hash src ins r w ! i))"
proof (induction ins arbitrary: n r w)
  case Nil
  then show ?case by simp
next
  case (Cons a ins)
  obtain now rnd where a: "a = (now, rnd)" by (cases a)
  obtain f r1 w1 where m: "make_frame P ob hash src now rnd r w = (f, r1, w1)"
    "good_frame ob hash src cfg pool plain (word_of_nat n) rnd f" "worker_inv P cfg pool plain (Suc n) r1 w1"
    using make_frame_good [OF assms Cons.prems] good_frame_asD by blast
  from Cons.IH [OF m(3)] m a show ?case by (auto simp: nth_Cons less_Suc_eq_0_disj simp del: of_nat_add of_nat_Suc)
qed

section \<open>Sequence numbers\<close>

text \<open>The stamps of a run: the SeqNum each call put into its frame, if any.\<close>

fun stamp_run :: "(int \<times> FlowKey) list \<Rightarrow> Runner \<Rightarrow> (u64 option list \<times> Runner) option" where
  "stamp_run [] r = Some ([], r)"
| "stamp_run ((now, k) # calls) r =
     (case stamp_seq now k r of
        None \<Rightarrow> None
      | Some (sq, r) \<Rightarrow> map_option (\<lambda>(vs, r). (sq # vs, r)) (stamp_run calls r))"

lemma stamp_run_flow:
  "r_pfa r = Some p \<Longrightarrow>
   stamp_run calls r = Some (map Some (fst (flow_session calls p)), r\<lparr>r_pfa := Some (snd (flow_session calls p))\<rparr>)"
proof (induction calls arbitrary: r p)
  case Nil
  then show ?case by simp
next
  case (Cons c calls)
  obtain now k where c: "c = (now, k)" by (cases c)
  obtain s p1 where n: "PerFlow_Next now k p = (s, p1)" by (cases "PerFlow_Next now k p")
  have "stamp_seq now k r = Some (Some s, r\<lparr>r_pfa := Some p1\<rparr>)"
    using Cons.prems n by (simp add: stamp_seq_def)
  with Cons.IH [of "r\<lparr>r_pfa := Some p1\<rparr>" p1] c n show ?case
    by (simp add: case_prod_beta)
qed

lemma stamp_run_direct:
  assumes "r_pfa r = None" and "c_Mode (r_cfg r) = ModeDirectMulticast" and "calls \<noteq> []"
  shows "\<exists>r'. stamp_run calls r =
     Some (map Some (fst (flow_session calls (NewPerFlow \<lparr>Start = 1, GapEvery = 0, GapSize = 0, GapDelay = 0\<rparr>))), r')"
proof -
  let ?p = "NewPerFlow \<lparr>Start = 1, GapEvery = 0, GapSize = 0, GapDelay = 0\<rparr>"
  have "stamp_seq now k r = stamp_seq now k (r\<lparr>r_pfa := Some ?p\<rparr>)" for now k
    using assms by (simp add: stamp_seq_def case_prod_beta Let_def)
  then have "stamp_run calls r = stamp_run calls (r\<lparr>r_pfa := Some ?p\<rparr>)"
    using assms(3) by (cases calls) auto
  then show ?thesis using stamp_run_flow [of "r\<lparr>r_pfa := Some ?p\<rparr>" ?p calls] by simp
qed

lemma stamp_run_plain:
  "r_pfa r = None \<Longrightarrow> c_Mode (r_cfg r) \<noteq> ModeDirectMulticast \<Longrightarrow> r_alloc r \<noteq> None \<Longrightarrow>
   \<exists>r'. stamp_run calls r = Some (replicate (length calls) None, r')"
proof (induction calls arbitrary: r)
  case Nil
  then show ?case by simp
next
  case (Cons c calls)
  obtain now k where c: "c = (now, k)" by (cases c)
  obtain sq r' where st: "stamp_seq now k r = Some (sq, r')" "r_cfg r' = r_cfg r" "r_alloc r' \<noteq> None"
    "sq = None" "r_pfa r' = None"
    using stamp_seq_total [OF Cons.prems(3), of now k] Cons.prems(1,2) by blast
  then obtain r2 where "stamp_run calls r' = Some (replicate (length calls) None, r2)"
    using Cons.IH [of r'] Cons.prems(2) by auto
  with c st show ?case by simp
qed

lemma flow_pattern:
  assumes "length calls < 2 ^ 64"
  shows "numbers_of k calls (fst (flow_session calls (NewPerFlow cfg))) =
     map (\<lambda>i. (if Start cfg = 0 then 1 else Start cfg) + word_of_nat (i + skipped_before cfg i))
       [0..<length (filter (\<lambda>c. snd c = k) calls)]"
proof -
  let ?nows = "map fst (filter (\<lambda>c. snd c = k) calls)"
  have "length ?nows < 2 ^ 64" using le_less_trans [OF length_filter_le assms] by simp
  then show ?thesis
    using flow_session_alloc [of k calls "NewPerFlow cfg"] run_pattern [OF in_pattern_New, of ?nows cfg]
    by (simp add: PerFlow_alloc_def NewPerFlow_def)
qed

section \<open>How many frames are corrupted\<close>

lemma card_bytes: "card {b :: byte. P (unat b)} = card {n. n < 256 \<and> P n}"
proof -
  have "unat ` {b :: byte. P (unat b)} = {n. n < 256 \<and> P n}"
  proof
    show "unat ` {b :: byte. P (unat b)} \<subseteq> {n. n < 256 \<and> P n}"
      using unsigned_less [where ?'a = nat and ?'b = 8] by auto
    show "{n. n < 256 \<and> P n} \<subseteq> unat ` {b :: byte. P (unat b)}"
    proof
      fix n assume "n \<in> {n. n < 256 \<and> P n}"
      then have "n = unat (word_of_nat n :: byte)" "P (unat (word_of_nat n :: byte))"
        by (simp_all add: unat_of_nat)
      then show "n \<in> unat ` {b :: byte. P (unat b)}" by blast
    qed
  qed
  moreover have "inj_on unat {b :: byte. P (unat b)}" by (auto simp: inj_on_def word_unat_eq_iff)
  ultimately show ?thesis by (metis card_image)
qed

lemma card_mod_100: "card {n. n < 256 \<and> n mod 100 < (r :: nat)} = 2 * min r 100 + min r 56"
proof -
  have "n < 256 \<and> n mod 100 < r \<longleftrightarrow>
      n \<in> {0..<min r 100} \<union> {100..<100 + min r 100} \<union> {200..<200 + min r 56}" for n
  proof (cases "n < 256")
    case True
    then have "n mod 100 = (if n < 100 then n else if n < 200 then n - 100 else n - 200)"
      by (simp add: mod_if)
    with True show ?thesis by auto
  next
    case False
    then show ?thesis by auto
  qed
  then have "{n. n < 256 \<and> n mod 100 < r} =
      {0..<min r 100} \<union> {100..<100 + min r 100} \<union> {200..<200 + min r 56}"
    by blast
  moreover have "({0..<min r 100} \<union> {100..<100 + min r 100}) \<inter> {200..<200 + min r 56} = {}"
    "{0..<min r 100} \<inter> {100..<100 + min r 100} = {}" by auto
  ultimately show ?thesis by (simp add: card_Un_disjoint)
qed

text \<open>
  The lazy creation of the per-flow allocator in direct mode is a check followed by a store, and
  the draw reads the field again. Split into these steps, workers can interleave: each remembers
  whether it saw no allocator.
\<close>

datatype lazy_op = Check nat | Create nat | Draw nat FlowKey

fun lazy_run :: "lazy_op list \<Rightarrow> (nat \<Rightarrow> bool) \<Rightarrow> PerFlowAllocator option \<Rightarrow> u64 list" where
  "lazy_run [] saw p = []"
| "lazy_run (Check i # ops) saw p = lazy_run ops (saw(i := (p = None))) p"
| "lazy_run (Create i # ops) saw p =
     lazy_run ops saw (if saw i then Some (NewPerFlow \<lparr>Start = 1, GapEvery = 0, GapSize = 0, GapDelay = 0\<rparr>) else p)"
| "lazy_run (Draw i k # ops) saw p =
     (case p of None \<Rightarrow> lazy_run ops saw p
      | Some a \<Rightarrow> (let (s, a) = PerFlow_Next 0 k a in s # lazy_run ops saw (Some a)))"

lemma lazy_race: "lazy_run [Check 0, Check 1, Create 0, Draw 0 k, Create 1, Draw 1 k] (\<lambda>i. False) None = [1, 1]"
  by (simp add: PerFlow_Next_def PerFlow_alloc_def NewPerFlow_def seq_New_def Allocator_Next_def
      fetch_next_def Let_def case_prod_beta)

text \<open>A configuration within the limits, for the witnesses.\<close>

definition demo_cfg :: "Mode \<Rightarrow> SendConfig" where
  "demo_cfg m = \<lparr>c_Mode = m, c_TCP = True, c_FrameVersion = V2, c_Workers = 2, c_PPS = 1000, c_Duration = 0,
     c_Count = 10, c_PayloadSize = 512, c_PayloadFormat = PayloadMixed, c_LogInterval = 1,
     c_CorruptTxIDRate = 0, c_ShardBits = 2\<rparr>"

definition demo_alloc :: Allocator where
  "demo_alloc = seq_New \<lparr>Start = 1, GapEvery = 0, GapSize = 1, GapDelay = 0\<rparr>"

lemma worker_start_inv:
  "worker_inv P (r_cfg (sender_New cfg pool (Some a))) pool (\<not> GapEnabled a \<and> c_Mode cfg \<noteq> ModeDirectMulticast) 0
     (sender_New cfg pool (Some a)) (worker_start P (r_cfg (sender_New cfg pool (Some a))) wid seed)"
  by (simp add: worker_inv_def worker_ok_def worker_start_def sender_New_def Let_def)

section \<open>Properties\<close>



text \<open>C28: Sequence numbers are per flow: with gap injection or in direct mode, over any sequence of
  frames of any flows (workers taking the allocator one at a time), the numbers stamped on flow \<open>k\<close>
  are \<open>1, 2, 3, ...\<close> with the configured gaps and nothing else, whatever \<open>-seq-start\<close> was; otherwise no
  frame is given a number.\<close>

theorem flow_stamps:
  assumes "r = sender_New cfg pool (Some a)" and "calls \<noteq> []" and "length calls < 2 ^ 64"
    and "c = (if GapEnabled a then (GapConfig a)\<lparr>Start := 1\<rparr>
              else \<lparr>Start = 1, GapEvery = 0, GapSize = 0, GapDelay = 0\<rparr>)"
  shows "if GapEnabled a \<or> c_Mode cfg = ModeDirectMulticast then
      (\<exists>vs r'. stamp_run calls r = Some (map Some vs, r') \<and>
        (\<forall>k. numbers_of k calls vs =
           map (\<lambda>i. 1 + word_of_nat (i + skipped_before c i)) [0..<length (filter (\<lambda>x. snd x = k) calls)]))
    else \<exists>r'. stamp_run calls r = Some (replicate (length calls) None, r')"
proof (cases "GapEnabled a")
  case True
  then have "r_pfa r = Some (NewPerFlow c)" by (simp add: assms(1,4) sender_New_def Let_def)
  from stamp_run_flow [OF this, of calls] flow_pattern [OF assms(3), of _ c] True assms(4) show ?thesis by simp
next
  case False
  then have p: "r_pfa r = None" "r_alloc r \<noteq> None" "c_Mode (r_cfg r) = c_Mode cfg"
    by (simp_all add: assms(1) sender_New_def Let_def)
  show ?thesis
  proof (cases "c_Mode cfg = ModeDirectMulticast")
    case True
    with stamp_run_direct [OF p(1) _ assms(2)] flow_pattern [OF assms(3), of _ c] False p(3) assms(4)
    show ?thesis by fastforce
  next
    case no: False
    with stamp_run_plain [OF p(1) _ p(2), of calls] False p(3) show ?thesis by simp
  qed
qed

theorem flow_stamps_witness:
  "\<exists>vs r'. stamp_run [(0, \<lparr>GroupIdx = 1, SubtreeID = []\<rparr>), (0, \<lparr>GroupIdx = 2, SubtreeID = []\<rparr>),
       (0, \<lparr>GroupIdx = 1, SubtreeID = []\<rparr>)]
       (sender_New (demo_cfg ModeDirectMulticast) \<lparr>ids = []\<rparr> (Some demo_alloc)) = Some (map Some vs, r') \<and>
     numbers_of \<lparr>GroupIdx = 1, SubtreeID = []\<rparr> [(0, \<lparr>GroupIdx = 1, SubtreeID = []\<rparr>),
       (0, \<lparr>GroupIdx = 2, SubtreeID = []\<rparr>), (0, \<lparr>GroupIdx = 1, SubtreeID = []\<rparr>)] vs = [1, 2]"
proof -
  let ?calls = "[(0, \<lparr>GroupIdx = 1, SubtreeID = []\<rparr>), (0, \<lparr>GroupIdx = 2, SubtreeID = []\<rparr>),
    (0, \<lparr>GroupIdx = 1, SubtreeID = []\<rparr>)] :: (int \<times> FlowKey) list"
  have g: "\<not> GapEnabled demo_alloc" by (simp add: demo_alloc_def seq_New_def GapEnabled_def)
  show ?thesis
    using flow_stamps [OF refl, of ?calls _ demo_alloc "demo_cfg ModeDirectMulticast" "\<lparr>ids = []\<rparr>"] g
    by (force simp: demo_cfg_def skipped_before_def)
qed

text \<open>The flow's group is the leading \<open>bits\<close> bits of the TxID for up to 32 bits, so it is below
  \<open>2 ^ bits\<close>; beyond 32 the unsigned shift counts wrap and every frame is in group 0.\<close>

theorem groupIdx_bits:
  assumes "length txid = 32"
  shows "(unat bits \<le> 32 \<longrightarrow> unat (groupIdx bits txid) = un_be (take 4 txid) div 2 ^ (32 - unat bits)) \<and>
     (unat bits \<le> 32 \<longrightarrow> unat (groupIdx bits txid) < 2 ^ unat bits) \<and>
     (32 < unat bits \<longrightarrow> groupIdx bits txid = 0)"
proof (intro conjI impI)
  show "unat (groupIdx bits txid) = un_be (take 4 txid) div 2 ^ (32 - unat bits)" if "unat bits \<le> 32"
    by (rule groupIdx_top [OF that assms])
  show "unat (groupIdx bits txid) < 2 ^ unat bits" if "unat bits \<le> 32"
  proof -
    have "un_be (take 4 txid) < 2 ^ (32 - unat bits) * 2 ^ unat bits"
      using un_be_bound [of "take 4 txid"] assms that by (simp flip: power_add)
    then show ?thesis
      unfolding groupIdx_top [OF that assms] by (simp add: less_mult_imp_div_less mult.commute)
  qed
  show "groupIdx bits txid = 0" if "32 < unat bits"
  proof -
    have "unat (32 - bits) = 2 ^ 64 + 32 - unat bits"
      using that unsigned_less [of bits, where ?'a = nat]
      by (simp add: unat_sub_if' word_le_nat_alt)
    moreover have "32 \<le> 2 ^ 64 + 32 - unat bits" using unsigned_less [of bits, where ?'a = nat] by simp
    ultimately have "drop_bit (unat (32 - bits)) (w :: u32) = 0" for w
      by (intro bit_word_eqI) (auto simp: bit_drop_bit_eq dest: bit_imp_le_length)
    then show ?thesis by (simp add: groupIdx_def Let_def)
  qed
qed

theorem groupIdx_bits_witness:
  "unat (groupIdx 2 (0xC0 # replicate 31 0)) = 3 \<and> groupIdx 40 (0xC0 # replicate 31 0) = 0"
proof -
  have "take 4 (0xC0 # replicate 31 (0 :: byte)) = [0xC0, 0, 0, 0]"
    by (simp add: take_Cons' numeral_2_eq_2 replicate_Suc [of 2, simplified])
  then have "un_be (take 4 (0xC0 # replicate 31 0)) = 0xC0000000" by (simp add: un_be_def)
  then show ?thesis
    using groupIdx_bits [of "0xC0 # replicate 31 0" 2] groupIdx_bits [of "0xC0 # replicate 31 0" 40]
    by simp
qed

text \<open>The corruption rate is not a percentage: a frame whose random byte is hit leaves with exactly
  one bit of its TxID flipped, and of the 256 byte values \<open>2 * rate + min rate 56\<close> are hit (150 of 256,
  not half, at 50), all of them from 100 on; a rate of zero or a failed draw corrupts nothing.\<close>

theorem corruption_rate:
  assumes "length txid = 32"
  shows "card {b. corrupt_txid rate (Some b) txid \<noteq> txid} = 2 * min rate 100 + min rate 56 \<and>
     (\<forall>b. corrupt_txid rate (Some b) txid = txid \<or> one_bit_off txid (corrupt_txid rate (Some b) txid)) \<and>
     corrupt_txid rate None txid = txid"
proof (intro conjI allI)
  have hit: "corrupt_txid rate (Some b) txid \<noteq> txid \<longleftrightarrow> unat b mod 100 < rate" for b
    using corrupt_hit [OF assms, of b rate] corrupt_miss [of "Some b" rate txid] by blast
  show "card {b. corrupt_txid rate (Some b) txid \<noteq> txid} = 2 * min rate 100 + min rate 56"
    unfolding hit using card_bytes [of "\<lambda>n. n mod 100 < rate"] card_mod_100 by simp
  show "corrupt_txid rate (Some b) txid = txid \<or> one_bit_off txid (corrupt_txid rate (Some b) txid)" for b
    using corrupt_hit [OF assms, of b rate] corrupt_miss [of "Some b" rate txid] by blast
  show "corrupt_txid rate None txid = txid" by (simp add: corrupt_miss)
qed

theorem corruption_rate_witness:
  "card {b. corrupt_txid 50 (Some b) (replicate 32 0) \<noteq> replicate 32 0} = 150"
  using corruption_rate [of "replicate 32 0" 50] by simp

end
