(* ===== verification/Sender_Run.thy ===== *)
theory Sender_Run
  imports Prelude
begin

text \<open>
  \<open>internal/sender\<close>, second part: the token protocol of \<open>Run\<close>. The dispatcher and the workers are
  split at their shared operations (the context, the channel, the atomic counters); a label names
  the goroutine that moves and the outcome of what it does, and a run is any sequence of enabled
  labels. The dispatcher's look at the context and at \<open>issued\<close> are one step, and dials, waits of the pacer and
  writes always come back. \<open>issued\<close> is the 64-bit counter; \<open>n_sent\<close> and \<open>n_errs\<close> count without wrapping. Three ghost
  fields follow the tokens: \<open>dropped\<close> (spent for good on a closed socket), \<open>late\<close> (released after the
  dispatcher has left) and \<open>by_count\<close> (the dispatcher left because \<open>Count\<close> was reached).
\<close>

datatype disp_pc = D_top | D_wait | D_offer | D_add | D_done

datatype worker_pc = W_start | W_idle | W_busy | W_exit

record run_sys =
  issued :: u64
  n_sent :: nat
  n_errs :: nat
  chan :: nat
  closed :: bool
  cancelled :: bool
  disp :: disp_pc
  wks :: "worker_pc list"
  dropped :: nat
  late :: nat
  by_count :: bool

datatype run_label =
  Cancel | DCheck | DPace | DSend | DCtx | DAdd
  | WDial nat bool | WRecv nat | WCtx nat | WClosed nat
  | WSent nat | WRetry nat | WBuildErr nat | WSockClosed nat

definition run_init :: "int \<Rightarrow> run_sys" where
  "run_init workers =
     \<lparr>issued = 0, n_sent = 0, n_errs = 0, chan = 0, closed = False, cancelled = False, disp = D_top,
      wks = replicate (nat workers) W_start, dropped = 0, late = 0, by_count = False\<rparr>"

definition at_pc :: "run_sys \<Rightarrow> nat \<Rightarrow> worker_pc \<Rightarrow> bool" where
  "at_pc s i pc \<longleftrightarrow> i < length (wks s) \<and> wks s ! i = pc"

definition move :: "nat \<Rightarrow> worker_pc \<Rightarrow> run_sys \<Rightarrow> run_sys" where
  "move i pc s = s\<lparr>wks := (wks s)[i := pc]\<rparr>"

definition release :: "run_sys \<Rightarrow> run_sys" where
  "release s = s\<lparr>n_errs := Suc (n_errs s), issued := issued s - 1,
     late := (if closed s then Suc (late s) else late s)\<rparr>"

definition leave :: "run_sys \<Rightarrow> run_sys" where
  "leave s = s\<lparr>disp := D_done, closed := True\<rparr>"

text \<open>One step, \<open>None\<close> when the label is not enabled. \<open>cap\<close> is the channel's capacity.\<close>

fun run_step :: "u64 \<Rightarrow> nat \<Rightarrow> run_label \<Rightarrow> run_sys \<Rightarrow> run_sys option" where
  "run_step count cap Cancel s = (if cancelled s then None else Some (s\<lparr>cancelled := True\<rparr>))"
| "run_step count cap DCheck s =
     (if disp s \<noteq> D_top then None
      else if cancelled s then Some (leave s)
      else if 0 < count \<and> count \<le> issued s then Some (leave (s\<lparr>by_count := True\<rparr>))
      else Some (s\<lparr>disp := D_wait\<rparr>))"
| "run_step count cap DPace s = (if disp s = D_wait then Some (s\<lparr>disp := D_offer\<rparr>) else None)"
| "run_step count cap DSend s =
     (if disp s = D_offer \<and> chan s < cap then Some (s\<lparr>chan := Suc (chan s), disp := D_add\<rparr>) else None)"
| "run_step count cap DCtx s = (if disp s = D_offer \<and> cancelled s then Some (leave s) else None)"
| "run_step count cap DAdd s =
     (if disp s = D_add then Some (s\<lparr>issued := issued s + 1, disp := D_top\<rparr>) else None)"
| "run_step count cap (WDial i ok) s =
     (if at_pc s i W_start then Some (move i (if ok then W_idle else W_exit) s) else None)"
| "run_step count cap (WRecv i) s =
     (if at_pc s i W_idle \<and> 0 < chan s then Some (move i W_busy (s\<lparr>chan := chan s - 1\<rparr>)) else None)"
| "run_step count cap (WCtx i) s = (if at_pc s i W_idle \<and> cancelled s then Some (move i W_exit s) else None)"
| "run_step count cap (WClosed i) s =
     (if at_pc s i W_idle \<and> chan s = 0 \<and> closed s then Some (move i W_exit s) else None)"
| "run_step count cap (WSent i) s =
     (if at_pc s i W_busy then Some (move i W_idle (s\<lparr>n_sent := Suc (n_sent s)\<rparr>)) else None)"
| "run_step count cap (WRetry i) s = (if at_pc s i W_busy then Some (move i W_idle (release s)) else None)"
| "run_step count cap (WBuildErr i) s = (if at_pc s i W_busy then Some (move i W_exit (release s)) else None)"
| "run_step count cap (WSockClosed i) s =
     (if at_pc s i W_busy
      then Some (move i W_exit (s\<lparr>n_errs := Suc (n_errs s), dropped := Suc (dropped s)\<rparr>)) else None)"

fun run_path :: "u64 \<Rightarrow> nat \<Rightarrow> run_label list \<Rightarrow> run_sys \<Rightarrow> run_sys option" where
  "run_path count cap [] s = Some s"
| "run_path count cap (l # ls) s =
     (case run_step count cap l s of None \<Rightarrow> None | Some s \<Rightarrow> run_path count cap ls s)"

text \<open>A run of \<open>Run\<close> with \<open>w\<close> workers: the channel holds twice as many tokens.\<close>

definition sender_run :: "u64 \<Rightarrow> int \<Rightarrow> run_label list \<Rightarrow> run_sys option" where
  "sender_run count w ls = run_path count (nat (w * 2)) ls (run_init w)"

text \<open>\<open>Run\<close> returns when the dispatcher and all workers have returned.\<close>

definition returned :: "run_sys \<Rightarrow> bool" where
  "returned s \<longleftrightarrow> disp s = D_done \<and> set (wks s) \<subseteq> {W_exit}"

section \<open>The token invariant\<close>

lemma count_list_update:
  "i < length xs \<Longrightarrow>
   count_list (xs[i := y]) z + (if xs ! i = z then 1 else 0) = count_list xs z + (if y = z then 1 else 0)"
proof (induction xs arbitrary: i)
  case (Cons x xs)
  show ?case
  proof (cases i)
    case 0
    then show ?thesis by simp
  next
    case (Suc j)
    with Cons.IH [of j] Cons.prems show ?thesis by auto
  qed
qed simp

definition busy :: "run_sys \<Rightarrow> nat" where
  "busy s = count_list (wks s) W_busy"

text \<open>Tokens that count against \<open>Count\<close>: queued, being processed, sent or dropped.\<close>

definition live :: "run_sys \<Rightarrow> nat" where
  "live s = chan s + busy s + n_sent s + dropped s"

definition run_inv :: "u64 \<Rightarrow> run_sys \<Rightarrow> bool" where
  "run_inv count s \<longleftrightarrow>
     word_of_nat (live s) = issued s + (if disp s = D_add then 1 else 0) \<and>
     (closed s \<longleftrightarrow> disp s = D_done) \<and>
     (0 < count \<longrightarrow> live s \<le> unat count) \<and>
     (0 < count \<and> disp s \<in> {D_wait, D_offer} \<longrightarrow> live s < unat count) \<and>
     (by_count s \<longrightarrow> closed s \<and> live s + late s = unat count) \<and>
     (\<not> closed s \<longrightarrow> late s = 0)"

lemma busy_move:
  assumes "at_pc s i pc"
  shows "busy (move i pc' s) + (if pc = W_busy then 1 else 0) = busy s + (if pc' = W_busy then 1 else 0)"
  using assms count_list_update [of i "wks s" pc' W_busy] by (simp add: at_pc_def busy_def move_def)

lemma move_simps [simp]:
  "issued (move i pc s) = issued s" "n_sent (move i pc s) = n_sent s" "chan (move i pc s) = chan s"
  "closed (move i pc s) = closed s" "cancelled (move i pc s) = cancelled s" "disp (move i pc s) = disp s"
  "dropped (move i pc s) = dropped s" "late (move i pc s) = late s" "by_count (move i pc s) = by_count s"
  "n_errs (move i pc s) = n_errs s"
  by (simp_all add: move_def)

lemma run_inv_init: "run_inv count (run_init w)"
proof -
  have "count_list (replicate n W_start) W_busy = 0" for n by (induction n) simp_all
  then show ?thesis by (simp add: run_inv_def run_init_def live_def busy_def)
qed

text \<open>A worker step moves one token from busy to where it ends up.\<close>

lemma busy_left:
  assumes "at_pc s i W_busy" and "pc \<noteq> W_busy" and "wks s' = wks s"
  shows "Suc (busy (move i pc s')) = busy s"
  using busy_move [of s' i W_busy pc] assms by (simp add: at_pc_def busy_def)

lemma busy_same:
  assumes "at_pc s i pc" and "pc \<noteq> W_busy" "pc' \<noteq> W_busy"
  shows "busy (move i pc' s) = busy s"
  using busy_move [OF assms(1), of pc'] assms(2,3) by simp

lemma issued_top:
  assumes "run_inv count s" and "0 < count" and "disp s = D_top"
  shows "unat (issued s) = live s"
proof -
  have "live s \<le> unat count" using assms by (simp add: run_inv_def)
  then have "live s < 2 ^ 64" using unsigned_less [of count, where ?'a = nat] by simp
  moreover have "issued s = word_of_nat (live s)" using assms(1,3) by (simp add: run_inv_def)
  ultimately show ?thesis by (simp add: unat_of_nat)
qed

lemma live_fields:
  "chan s' + busy s' + n_sent s' + dropped s' = live s \<Longrightarrow> live s' = live s"
  by (simp add: live_def)

lemma run_inv_same:
  assumes "run_inv count s" and "live s' = live s" and "issued s' = issued s" and "disp s' = disp s"
    and "closed s' = closed s" and "by_count s' = by_count s" and "late s' = late s"
  shows "run_inv count s'"
  using assms by (auto simp: run_inv_def)

lemma run_inv_release:
  assumes "run_inv count s" and "Suc (live s') = live s" and "issued s' = issued s - 1" and "disp s' = disp s"
    and "closed s' = closed s" and "by_count s' = by_count s"
    and "late s' = (if closed s then Suc (late s) else late s)"
  shows "run_inv count s'"
proof -
  have "live s = Suc (live s')" using assms(2) by simp
  then have "(word_of_nat (live s') :: u64) = word_of_nat (live s) - 1" by simp
  then have "word_of_nat (live s') = issued s' + (if disp s' = D_add then 1 else 0)"
    using assms(1,3,4) by (simp add: run_inv_def)
  then show ?thesis using assms unfolding run_inv_def by auto
qed

lemma run_step_inv:
  assumes inv: "run_inv count s" and st: "run_step count cap l s = Some s'"
  shows "run_inv count s'"
proof (cases l)
  case Cancel
  with st show ?thesis by (intro run_inv_same [OF inv]) (auto simp: live_def busy_def split: if_splits)
next
  case DCheck
  then have d: "disp s = D_top" using st by (auto split: if_splits)
  have leave: "live (leave s) = live s" "live (leave (s\<lparr>by_count := True\<rparr>)) = live s"
    "live (s\<lparr>disp := D_wait\<rparr>) = live s" by (simp_all add: live_def busy_def leave_def)
  show ?thesis
    using inv st DCheck d issued_top [OF inv _ d] leave
    by (auto simp: run_inv_def leave_def word_le_nat_alt split: if_splits)
next
  case DPace
  have "live (s\<lparr>disp := D_offer\<rparr>) = live s" by (simp add: live_def busy_def)
  with inv st DPace show ?thesis by (auto simp: run_inv_def split: if_splits)
next
  case DSend
  have "live (s\<lparr>chan := Suc (chan s), disp := D_add\<rparr>) = Suc (live s)" by (simp add: live_def busy_def)
  with inv st DSend show ?thesis by (auto simp: run_inv_def split: if_splits)
next
  case DCtx
  have "live (leave s) = live s" by (simp add: live_def busy_def leave_def)
  with inv st DCtx show ?thesis by (auto simp: run_inv_def leave_def split: if_splits)
next
  case DAdd
  have "live (s\<lparr>issued := issued s + 1, disp := D_top\<rparr>) = live s" by (simp add: live_def busy_def)
  with inv st DAdd show ?thesis by (auto simp: run_inv_def split: if_splits)
next
  case (WDial i ok)
  with st show ?thesis
    by (intro run_inv_same [OF inv]) (auto simp: live_def busy_same split: if_splits)
next
  case (WRecv i)
  with st have at: "at_pc s i W_idle" "0 < chan s" "s' = move i W_busy (s\<lparr>chan := chan s - 1\<rparr>)"
    by (auto split: if_splits)
  have "busy s' = Suc (busy s)"
    using busy_move [of "s\<lparr>chan := chan s - 1\<rparr>" i W_idle W_busy] at(1)
    unfolding at(3) by (simp add: at_pc_def busy_def)
  with at show ?thesis by (intro run_inv_same [OF inv]) (auto simp: live_def)
next
  case (WCtx i)
  with st show ?thesis
    by (intro run_inv_same [OF inv]) (auto simp: live_def busy_same split: if_splits)
next
  case (WClosed i)
  with st show ?thesis
    by (intro run_inv_same [OF inv]) (auto simp: live_def busy_same split: if_splits)
next
  case (WSent i)
  with st have at: "at_pc s i W_busy" "s' = move i W_idle (s\<lparr>n_sent := Suc (n_sent s)\<rparr>)"
    by (auto split: if_splits)
  have "Suc (busy s') = busy s" unfolding at(2) by (rule busy_left [OF at(1)]) simp_all
  with at show ?thesis by (intro run_inv_same [OF inv]) (auto simp: live_def)
next
  case (WRetry i)
  with st have at: "at_pc s i W_busy" "s' = move i W_idle (release s)" by (auto split: if_splits)
  have "Suc (busy s') = busy s" unfolding at(2) by (rule busy_left [OF at(1)]) (simp_all add: release_def)
  with at show ?thesis by (intro run_inv_release [OF inv]) (auto simp: live_def release_def)
next
  case (WBuildErr i)
  with st have at: "at_pc s i W_busy" "s' = move i W_exit (release s)" by (auto split: if_splits)
  have "Suc (busy s') = busy s" unfolding at(2) by (rule busy_left [OF at(1)]) (simp_all add: release_def)
  with at show ?thesis by (intro run_inv_release [OF inv]) (auto simp: live_def release_def)
next
  case (WSockClosed i)
  with st have at: "at_pc s i W_busy"
    "s' = move i W_exit (s\<lparr>n_errs := Suc (n_errs s), dropped := Suc (dropped s)\<rparr>)"
    by (auto split: if_splits)
  have "Suc (busy s') = busy s" unfolding at(2) by (rule busy_left [OF at(1)]) simp_all
  with at show ?thesis by (intro run_inv_same [OF inv]) (auto simp: live_def)
qed

lemma run_path_inv: "run_inv count s \<Longrightarrow> run_path count cap ls s = Some s' \<Longrightarrow> run_inv count s'"
  by (induction ls arbitrary: s) (auto split: option.splits dest: run_step_inv)

lemma sender_run_inv: "sender_run count w ls = Some s \<Longrightarrow> run_inv count s"
  unfolding sender_run_def by (rule run_path_inv [OF run_inv_init])

section \<open>Progress\<close>

text \<open>Every worker has left, and the dispatcher is blocked on a full channel with a live context.\<close>

definition starved :: "nat \<Rightarrow> run_sys \<Rightarrow> bool" where
  "starved cap s \<longleftrightarrow> set (wks s) \<subseteq> {W_exit} \<and> disp s = D_offer \<and> cap \<le> chan s \<and> \<not> cancelled s"

lemma worker_moves:
  assumes "at_pc s i pc" and "pc \<noteq> W_exit" and "pc = W_idle \<Longrightarrow> 0 < chan s \<or> closed s"
  shows "\<exists>l. l \<noteq> Cancel \<and> run_step count cap l s \<noteq> None"
proof (cases pc)
  case W_start
  with assms(1) show ?thesis by (intro exI [of _ "WDial i True"]) simp
next
  case W_idle
  show ?thesis
  proof (cases "0 < chan s")
    case True
    with W_idle assms(1) show ?thesis by (intro exI [of _ "WRecv i"]) simp
  next
    case False
    with W_idle assms(1,3) show ?thesis by (intro exI [of _ "WClosed i"]) simp
  qed
next
  case W_busy
  with assms(1) show ?thesis by (intro exI [of _ "WSent i"]) simp
next
  case W_exit
  with assms(2) show ?thesis by simp
qed

lemma run_progress:
  assumes inv: "run_inv count s" and cap: "0 < cap" and no: "\<not> returned s" "\<not> starved cap s"
  shows "\<exists>l. l \<noteq> Cancel \<and> run_step count cap l s \<noteq> None"
proof (cases "disp s")
  case D_top
  then show ?thesis by (intro exI [of _ DCheck]) simp
next
  case D_wait
  then show ?thesis by (intro exI [of _ DPace]) simp
next
  case D_add
  then show ?thesis by (intro exI [of _ DAdd]) simp
next
  case offer: D_offer
  show ?thesis
  proof (cases "chan s < cap \<or> cancelled s")
    case True
    then have "run_step count cap DSend s \<noteq> None \<or> run_step count cap DCtx s \<noteq> None"
      using offer by auto
    then show ?thesis by blast
  next
    case False
    with no(2) offer obtain pc where "pc \<in> set (wks s)" "pc \<noteq> W_exit" by (auto simp: starved_def)
    moreover from this obtain i where "at_pc s i pc" by (auto simp: in_set_conv_nth at_pc_def)
    moreover have "0 < chan s" using False cap by simp
    ultimately show ?thesis using worker_moves by blast
  qed
next
  case D_done
  then obtain pc where "pc \<in> set (wks s)" "pc \<noteq> W_exit" using no(1) by (auto simp: returned_def)
  moreover from this obtain i where "at_pc s i pc" by (auto simp: in_set_conv_nth at_pc_def)
  moreover have "closed s" using inv D_done by (simp add: run_inv_def)
  ultimately show ?thesis using worker_moves by blast
qed

lemma exited_no_pc: "set (wks s) \<subseteq> {W_exit} \<Longrightarrow> pc \<noteq> W_exit \<Longrightarrow> \<not> at_pc s i pc"
  by (auto simp: at_pc_def dest: nth_mem)

lemma stuck_only:
  assumes "returned s \<or> starved cap s" and "l \<noteq> Cancel"
  shows "run_step count cap l s = None"
  using assms exited_no_pc [of s] by (cases l) (auto simp: returned_def starved_def)

section \<open>Runs that fall short\<close>

text \<open>
  A frame that fails after the dispatcher has counted the last token is not sent again; and when no
  worker connects, the dispatcher waits for ever once the channel is full.
\<close>

lemma short_run:
  "\<exists>s. sender_run 1 1 [WDial 0 True, DCheck, DPace, DSend, DAdd, DCheck, WRecv 0, WRetry 0, WClosed 0] = Some s \<and>
     returned s \<and> by_count s \<and> \<not> cancelled s \<and> n_sent s = 0"
  by (simp add: sender_run_def run_init_def at_pc_def move_def release_def leave_def returned_def)

lemma stuck_run:
  "\<exists>s. sender_run 10 1 [WDial 0 False, DCheck, DPace, DSend, DAdd, DCheck, DPace, DSend, DAdd, DCheck, DPace] = Some s \<and>
     starved 2 s"
  by (simp add: sender_run_def run_init_def at_pc_def move_def starved_def word_le_nat_alt)

section \<open>Healthy runs\<close>

text \<open>
  Labels of a run in which nothing fails: nobody cancels, every dial succeeds and every frame is sent. Such a run
  cannot go on for ever: \<open>fuel_left\<close> decreases with every step.
\<close>

fun healthy :: "run_label \<Rightarrow> bool" where
  "healthy Cancel = False"
| "healthy (WDial i ok) = ok"
| "healthy (WRetry i) = False"
| "healthy (WBuildErr i) = False"
| "healthy (WSockClosed i) = False"
| "healthy _ = True"

definition disp_fuel :: "disp_pc \<Rightarrow> nat" where
  "disp_fuel d = (case d of D_top \<Rightarrow> 3 | D_wait \<Rightarrow> 2 | D_offer \<Rightarrow> 1 | D_add \<Rightarrow> 4 | D_done \<Rightarrow> 0)"

definition worker_fuel :: "worker_pc \<Rightarrow> nat" where
  "worker_fuel w = (case w of W_start \<Rightarrow> 2 | W_idle \<Rightarrow> 1 | W_busy \<Rightarrow> 2 | W_exit \<Rightarrow> 0)"

definition wks_fuel :: "run_sys \<Rightarrow> nat" where
  "wks_fuel s = sum_list (map worker_fuel (wks s))"

definition fuel_left :: "u64 \<Rightarrow> run_sys \<Rightarrow> nat" where
  "fuel_left count s = 6 * (unat count - live s) + disp_fuel (disp s) + 2 * chan s + wks_fuel s"

definition fit :: "run_sys \<Rightarrow> bool" where
  "fit s \<longleftrightarrow> dropped s = 0 \<and> late s = 0 \<and> n_errs s = 0 \<and> \<not> cancelled s \<and> (closed s \<longrightarrow> by_count s) \<and>
     (W_exit \<in> set (wks s) \<longrightarrow> chan s = 0 \<and> closed s)"

lemma fit_init: "fit (run_init w)"
  by (simp add: fit_def run_init_def)

lemma wks_fuel_move:
  assumes "at_pc s i pc" and "wks s' = wks s"
  shows "wks_fuel (move i pc' s') + worker_fuel pc = wks_fuel s + worker_fuel pc'"
proof -
  have i: "i < length (wks s)" "wks s ! i = pc" using assms(1) by (simp_all add: at_pc_def)
  have "sum_list (map worker_fuel ((wks s)[i := pc'])) + worker_fuel (wks s ! i) =
      sum_list (map worker_fuel (wks s)) + worker_fuel pc'"
    using i(1)
  proof (induction "wks s" arbitrary: s i)
    case Nil
    then show ?case by simp
  next
    case (Cons x xs)
    have "sum_list (map worker_fuel (xs[j := pc'])) + worker_fuel (xs ! j) =
        sum_list (map worker_fuel xs) + worker_fuel pc'" if "j < length xs" for j
      using Cons.hyps(1) [of "s\<lparr>wks := xs\<rparr>" j] that by simp
    with Cons.prems show ?case unfolding Cons.hyps(2) [symmetric] by (cases i) auto
  qed
  then show ?thesis using i(2) assms(2) by (simp add: wks_fuel_def move_def)
qed

lemma wks_fuel_same: "wks s' = wks s \<Longrightarrow> wks_fuel s' = wks_fuel s"
  by (simp add: wks_fuel_def)

lemma exit_move:
  assumes "W_exit \<in> set (wks (move i pc s))" and "pc \<noteq> W_exit"
  shows "W_exit \<in> set (wks s)"
  using assms set_update_subset_insert [of "wks s" i pc] by (auto simp: move_def)

lemma fit_dispatch:
  assumes "fit s" and "wks s' = wks s" "chan s' = chan s" "dropped s' = dropped s" "late s' = late s"
    "n_errs s' = n_errs s" "cancelled s' = cancelled s"
    and "closed s \<longrightarrow> closed s'" "closed s' \<longrightarrow> by_count s'"
  shows "fit s'"
  using assms by (auto simp: fit_def)

lemma fit_worker:
  assumes "fit s" and "at_pc s i pc" and "wks s' = wks s" "dropped s' = dropped s" "late s' = late s" "n_errs s' = n_errs s"
    "cancelled s' = cancelled s" "closed s' = closed s" "by_count s' = by_count s" "chan s' \<le> chan s"
    and "pc' = W_exit \<longrightarrow> chan s' = 0 \<and> closed s"
  shows "fit (move i pc' s')"
  using assms exit_move [of i pc' s'] by (auto simp: fit_def)

lemma healthy_step:
  assumes inv: "run_inv count s" and fit: "fit s" and "0 < count" and "healthy l"
    and st: "run_step count cap l s = Some s'"
  shows "fit s' \<and> fuel_left count s' < fuel_left count s"
proof (cases l)
  case DCheck
  then have d: "disp s = D_top" using st by (auto split: if_splits)
  have nc: "\<not> cancelled s" using fit by (simp add: fit_def)
  have w: "wks_fuel (leave (s\<lparr>by_count := True\<rparr>)) = wks_fuel s" "wks_fuel (s\<lparr>disp := D_wait\<rparr>) = wks_fuel s"
    by (simp_all add: wks_fuel_def leave_def)
  have nd: "\<not> closed s" using inv d by (simp add: run_inv_def)
  have b: "live (leave (s\<lparr>by_count := True\<rparr>)) = live s" "live (s\<lparr>disp := D_wait\<rparr>) = live s"
    by (simp_all add: live_def busy_def leave_def)
  consider "s' = leave (s\<lparr>by_count := True\<rparr>)" | "s' = s\<lparr>disp := D_wait\<rparr>"
    using st DCheck nc by (auto split: if_splits)
  then show ?thesis
  proof cases
    case 1
    have "fit s'" unfolding 1 using fit by (rule fit_dispatch) (simp_all add: leave_def)
    with 1 b w d show ?thesis by (simp add: fuel_left_def leave_def disp_fuel_def)
  next
    case 2
    have "fit s'" unfolding 2 using fit by (rule fit_dispatch) (simp_all add: nd)
    with 2 b w d show ?thesis by (simp add: fuel_left_def disp_fuel_def)
  qed
next
  case DPace
  then have d: "disp s = D_wait" "s' = s\<lparr>disp := D_offer\<rparr>" using st by (auto split: if_splits)
  have nd: "\<not> closed s" using inv d by (simp add: run_inv_def)
  have "fit s'" unfolding d(2) using fit by (rule fit_dispatch) (simp_all add: nd)
  moreover have "live s' = live s" "wks_fuel s' = wks_fuel s" by (simp_all add: d live_def busy_def wks_fuel_def)
  ultimately show ?thesis using d by (simp add: fuel_left_def disp_fuel_def)
next
  case DSend
  then have d: "disp s = D_offer" "s' = s\<lparr>chan := Suc (chan s), disp := D_add\<rparr>" using st by (auto split: if_splits)
  have nd: "\<not> closed s" using inv d by (simp add: run_inv_def)
  then have "W_exit \<notin> set (wks s)" using fit by (auto simp: fit_def)
  then have "fit s'" using fit nd by (simp add: fit_def d(2))
  moreover have "live s' = Suc (live s)" "wks_fuel s' = wks_fuel s" by (simp_all add: d live_def busy_def wks_fuel_def)
  moreover have "live s < unat count" using inv d assms(3) by (simp add: run_inv_def)
  ultimately show ?thesis using d by (simp add: fuel_left_def disp_fuel_def)
next
  case DCtx
  then show ?thesis using st fit by (simp add: fit_def)
next
  case DAdd
  then have d: "disp s = D_add" "s' = s\<lparr>issued := issued s + 1, disp := D_top\<rparr>" using st by (auto split: if_splits)
  have nd: "\<not> closed s" using inv d by (simp add: run_inv_def)
  have "fit s'" unfolding d(2) using fit by (rule fit_dispatch) (simp_all add: nd)
  moreover have "live s' = live s" "wks_fuel s' = wks_fuel s" by (simp_all add: d live_def busy_def wks_fuel_def)
  ultimately show ?thesis using d by (simp add: fuel_left_def disp_fuel_def)
next
  case (WDial i ok)
  then have at: "at_pc s i W_start" "s' = move i W_idle s" using st assms(4) by (auto split: if_splits)
  have "fit s'" unfolding at(2) by (rule fit_worker [OF fit at(1)]) simp_all
  moreover have "wks_fuel s' + 2 = wks_fuel s + 1"
    using wks_fuel_move [OF at(1), of s W_idle] by (simp add: at(2) worker_fuel_def)
  moreover have "live s' = live s" unfolding at(2) using busy_same [OF at(1), of W_idle] by (simp add: live_def)
  ultimately show ?thesis using at(2) by (simp add: fuel_left_def)
next
  case (WRecv i)
  then have at: "at_pc s i W_idle" "0 < chan s" "s' = move i W_busy (s\<lparr>chan := chan s - 1\<rparr>)"
    using st by (auto split: if_splits)
  have "fit s'" unfolding at(3) by (rule fit_worker [OF fit at(1)]) simp_all
  moreover have "wks_fuel s' + 1 = wks_fuel s + 2"
    using wks_fuel_move [OF at(1), of "s\<lparr>chan := chan s - 1\<rparr>" W_busy] by (simp add: at(3) worker_fuel_def)
  moreover have "busy s' = Suc (busy s)"
    using busy_move [of "s\<lparr>chan := chan s - 1\<rparr>" i W_idle W_busy] at(1)
    unfolding at(3) by (simp add: at_pc_def busy_def)
  then have "live s' = live s" using at(2,3) by (simp add: live_def)
  ultimately show ?thesis using at(2,3) by (simp add: fuel_left_def)
next
  case (WCtx i)
  then show ?thesis using st fit by (simp add: fit_def)
next
  case (WClosed i)
  then have at: "at_pc s i W_idle" "chan s = 0" "closed s" "s' = move i W_exit s" using st by (auto split: if_splits)
  have "fit s'" unfolding at(4) by (rule fit_worker [OF fit at(1)]) (simp_all add: at)
  moreover have "wks_fuel s' + 1 = wks_fuel s"
    using wks_fuel_move [OF at(1), of s W_exit] by (simp add: at(4) worker_fuel_def)
  moreover have "live s' = live s" unfolding at(4) using busy_same [OF at(1), of W_exit] by (simp add: live_def)
  ultimately show ?thesis using at(4) by (simp add: fuel_left_def)
next
  case (WSent i)
  then have at: "at_pc s i W_busy" "s' = move i W_idle (s\<lparr>n_sent := Suc (n_sent s)\<rparr>)" using st by (auto split: if_splits)
  have "fit s'" unfolding at(2) by (rule fit_worker [OF fit at(1)]) simp_all
  moreover have "wks_fuel s' + 2 = wks_fuel s + 1"
    using wks_fuel_move [OF at(1), of "s\<lparr>n_sent := Suc (n_sent s)\<rparr>" W_idle] by (simp add: at(2) worker_fuel_def)
  moreover have "Suc (busy s') = busy s" unfolding at(2) by (rule busy_left [OF at(1)]) simp_all
  then have "live s' = live s" using at(2) by (simp add: live_def)
  ultimately show ?thesis using at(2) by (simp add: fuel_left_def)
qed (use assms(4) in simp_all)

lemma healthy_path:
  assumes "run_inv count s" and "fit s" and "0 < count" and "list_all healthy ls" and "run_path count cap ls s = Some s'"
  shows "run_inv count s' \<and> fit s' \<and> length ls + fuel_left count s' \<le> fuel_left count s"
  using assms
proof (induction ls arbitrary: s)
  case Nil
  then show ?case by simp
next
  case (Cons l ls)
  then obtain s1 where s1: "run_step count cap l s = Some s1" "run_path count cap ls s1 = Some s'"
    by (auto split: option.splits)
  have h: "healthy l" "list_all healthy ls" using Cons.prems(4) by simp_all
  note inv = run_step_inv [OF Cons.prems(1) s1(1)]
  note step = healthy_step [OF Cons.prems(1,2,3) h(1) s1(1)]
  from Cons.IH [OF inv _ Cons.prems(3) h(2) s1(2)] step show ?case by auto
qed

lemma fuel_init: "fuel_left count (run_init w) = 6 * unat count + 3 + 2 * nat w"
proof -
  have "count_list (replicate n W_start) W_busy = 0" for n by (induction n) simp_all
  then show ?thesis
    by (simp add: fuel_left_def run_init_def live_def busy_def disp_fuel_def wks_fuel_def worker_fuel_def sum_list_replicate)
qed

lemma healthy_stuck:
  assumes "\<And>l. healthy l \<Longrightarrow> run_step count cap l s = None" and "l \<noteq> Cancel"
  shows "run_step count cap l s = None"
proof (rule ccontr)
  assume on: "run_step count cap l s \<noteq> None"
  have "\<not> healthy l" using assms(1) [of l] on by auto
  then show False
  proof (cases l)
    case (WDial i ok)
    then show ?thesis using on assms(1) [of "WDial i True"] by (simp split: if_splits)
  next
    case (WRetry i)
    then show ?thesis using on assms(1) [of "WSent i"] by (simp split: if_splits)
  next
    case (WBuildErr i)
    then show ?thesis using on assms(1) [of "WSent i"] by (simp split: if_splits)
  next
    case (WSockClosed i)
    then show ?thesis using on assms(1) [of "WSent i"] by (simp split: if_splits)
  qed (use assms(2) in simp_all)
qed

lemma wks_length:
  assumes "run_path count cap ls s = Some s'"
  shows "length (wks s') = length (wks s)"
  using assms
proof (induction ls arbitrary: s)
  case Nil
  then show ?case by simp
next
  case (Cons l ls)
  then obtain s1 where s1: "run_step count cap l s = Some s1" "run_path count cap ls s1 = Some s'"
    by (auto split: option.splits)
  have "length (wks s1) = length (wks s)"
    using s1(1) by (cases l) (auto simp: move_def leave_def release_def split: if_splits)
  with Cons.IH [OF s1(2)] show ?case by simp
qed

lemma healthy_end:
  assumes run: "sender_run count w ls = Some s" and "list_all healthy ls" and "0 < count" and "0 < w"
    and stuck: "\<And>l. healthy l \<Longrightarrow> run_step count (nat (w * 2)) l s = None"
  shows "returned s \<and> n_sent s = unat count"
proof -
  have path: "run_path count (nat (w * 2)) ls (run_init w) = Some s" using run by (simp add: sender_run_def)
  have inv: "run_inv count s" and fit: "fit s"
    using healthy_path [OF run_inv_init fit_init assms(3,2) path] by simp_all
  have "length (wks s) = nat w" using wks_length [OF path] by (simp add: run_init_def)
  then have ne: "wks s \<noteq> []" using assms(4) by auto
  have "returned s \<or> starved (nat (w * 2)) s"
  proof (rule ccontr)
    assume "\<not> (returned s \<or> starved (nat (w * 2)) s)"
    moreover have "0 < nat (w * 2)" using assms(4) by simp
    ultimately obtain l where l: "l \<noteq> Cancel" "run_step count (nat (w * 2)) l s \<noteq> None"
      using run_progress [OF inv] by blast
    have "run_step count (nat (w * 2)) l s = None" by (rule healthy_stuck [OF stuck l(1)])
    with l(2) show False ..
  qed
  moreover have ex: "W_exit \<in> set (wks s)" if "set (wks s) \<subseteq> {W_exit}"
    using that ne by (cases "wks s") auto
  have "\<not> starved (nat (w * 2)) s"
  proof
    assume st: "starved (nat (w * 2)) s"
    then have "closed s" using ex fit by (auto simp: starved_def fit_def)
    with st inv show False by (simp add: starved_def run_inv_def)
  qed
  ultimately have ret: "returned s" by blast
  then have all: "set (wks s) \<subseteq> {W_exit}" "disp s = D_done" by (simp_all add: returned_def)
  then have z: "chan s = 0" "closed s" using ex [OF all(1)] fit by (simp_all add: fit_def)
  then have "by_count s" using fit by (simp add: fit_def)
  moreover have "busy s = 0" using all(1) by (auto simp: busy_def count_list_0_iff)
  ultimately have "n_sent s = unat count" using inv fit z by (simp add: run_inv_def live_def fit_def)
  with ret show ?thesis by simp
qed

section \<open>Properties\<close>

text \<open>C7: The count is never exceeded and every token is accounted for: with a count, in every
  interleaving of the dispatcher and any number of workers, with any failures, no more than \<open>Count\<close>
  frames are sent; and when \<open>Run\<close> returns after reaching the count, the frames sent, those dropped on
  closed sockets, those that failed after the dispatcher had left and the tokens no worker took add
  up to exactly \<open>Count\<close>, so without such losses exactly \<open>Count\<close> frames were sent.\<close>

theorem count_accounting:
  assumes "sender_run count w ls = Some s" and "0 < count"
  shows "n_sent s \<le> unat count \<and>
     (by_count s \<and> returned s \<longrightarrow> n_sent s + dropped s + late s + chan s = unat count)"
proof -
  have inv: "run_inv count s" by (rule sender_run_inv [OF assms(1)])
  have "busy s = 0" if "returned s"
    using that by (auto simp: returned_def busy_def count_list_0_iff)
  then show ?thesis using inv assms(2) by (auto simp: run_inv_def live_def)
qed

theorem count_accounting_witness:
  "\<exists>s. sender_run 1 1 [WDial 0 True, DCheck, DPace, DSend, DAdd, WRecv 0, WSent 0, DCheck, WClosed 0] = Some s \<and>
     by_count s \<and> n_sent s + dropped s + late s + chan s = 1"
proof -
  obtain s where s: "sender_run 1 1 [WDial 0 True, DCheck, DPace, DSend, DAdd, WRecv 0, WSent 0, DCheck, WClosed 0] = Some s"
    "by_count s" "returned s"
    by (auto simp: sender_run_def run_init_def at_pc_def move_def leave_def returned_def)
  with count_accounting [OF s(1)] show ?thesis by auto
qed

text \<open>C8: The only way to hang: in every reachable state of a run with at least one worker some goroutine
  can move, unless \<open>Run\<close> has returned, or every worker has left while the dispatcher waits on a full
  channel under a context nobody has cancelled.\<close>

theorem run_progress_iff:
  assumes "sender_run count w ls = Some s" and "0 < w"
  shows "(\<forall>l. l \<noteq> Cancel \<longrightarrow> run_step count (nat (w * 2)) l s = None) \<longleftrightarrow>
     returned s \<or> starved (nat (w * 2)) s"
proof
  assume stuck: "\<forall>l. l \<noteq> Cancel \<longrightarrow> run_step count (nat (w * 2)) l s = None"
  show "returned s \<or> starved (nat (w * 2)) s"
  proof (rule ccontr)
    assume "\<not> (returned s \<or> starved (nat (w * 2)) s)"
    then show False
      using run_progress [OF sender_run_inv [OF assms(1)], of "nat (w * 2)"] assms(2) stuck by auto
  qed
next
  assume "returned s \<or> starved (nat (w * 2)) s"
  then show "\<forall>l. l \<noteq> Cancel \<longrightarrow> run_step count (nat (w * 2)) l s = None"
    using stuck_only by blast
qed

theorem run_progress_iff_witness:
  "\<exists>s l. sender_run 1 1 [WDial 0 True] = Some s \<and> l \<noteq> Cancel \<and> run_step 1 2 l s \<noteq> None"
proof -
  obtain s where s: "sender_run 1 1 [WDial 0 True] = Some s" "\<not> returned s" "\<not> starved 2 s"
    by (auto simp: sender_run_def run_init_def at_pc_def move_def returned_def starved_def)
  with run_progress_iff [OF s(1)] show ?thesis by auto
qed

text \<open>C9: A healthy run is exact and ends: with a count and at least one worker, when nobody cancels, every dial
  succeeds and every frame is sent, then however the goroutines interleave the run takes at most
  \<open>6 * Count + 2 * w + 3\<close> steps, counts no error, and when nothing can move any more \<open>Run\<close> has returned having
  sent exactly \<open>Count\<close> frames.\<close>

theorem healthy_run_exact:
  assumes "sender_run count w ls = Some s" and "list_all healthy ls" and "0 < count" and "0 < w"
  shows "length ls \<le> 6 * unat count + 2 * nat w + 3 \<and> n_errs s = 0 \<and>
     ((\<forall>l. healthy l \<longrightarrow> run_step count (nat (w * 2)) l s = None) \<longrightarrow> returned s \<and> n_sent s = unat count)"
proof -
  have path: "run_path count (nat (w * 2)) ls (run_init w) = Some s" using assms(1) by (simp add: sender_run_def)
  note h = healthy_path [OF run_inv_init fit_init assms(3,2) path]
  have "length ls \<le> 6 * unat count + 2 * nat w + 3" using h fuel_init [of count w] by linarith
  moreover have "n_errs s = 0" using h by (simp add: fit_def)
  ultimately show ?thesis using healthy_end [OF assms] by blast
qed

theorem healthy_run_exact_witness:
  "\<exists>s. sender_run 1 1 [WDial 0 True, DCheck, DPace, DSend, DAdd, WRecv 0, WSent 0, DCheck, WClosed 0] = Some s \<and>
     returned s \<and> n_sent s = 1 \<and> n_errs s = 0"
proof -
  let ?ls = "[WDial 0 True, DCheck, DPace, DSend, DAdd, WRecv 0, WSent 0, DCheck, WClosed 0]"
  obtain s where s: "sender_run 1 1 ?ls = Some s" "returned s" "n_sent s = 1"
    by (auto simp: sender_run_def run_init_def at_pc_def move_def leave_def returned_def)
  have h: "list_all healthy ?ls" by simp
  have "n_errs s = 0" using healthy_run_exact [OF s(1) h] by simp
  with s show ?thesis by blast
qed

end
