(* ===== verification/Tcp_Lane.thy ===== *)
theory Tcp_Lane
  imports Prelude "HOL-Library.Sublist"
begin

text \<open>
  \<open>internal/sender\<close>, third part: the TCP submission lane. A worker writes its frames through a
  \<open>bufio.Writer\<close> of 128 KiB and flushes by size, when the pacer is idle, and once at its end. The
  writer is modelled with its sticky error; the network is a script: the result of the \<open>k\<close>-th write
  to the connection is \<open>net k\<close>, \<open>None\<close> when it succeeds and \<open>Some j\<close> when it fails after \<open>j\<close> bytes.
  The contract of a sink that queues what it is given is the locale \<open>byte_sink\<close>, interpreted on the
  buffered writer.
\<close>

section \<open>The writer\<close>

type_synonym net = "nat \<Rightarrow> nat option"

record bufio =
  bw_out :: bytes
  bw_calls :: nat
  bw_buf :: bytes
  bw_err :: bool

definition bufSize :: nat where
  "bufSize = 128 * 1024"

definition tcpFlushBytes :: nat where
  "tcpFlushBytes = 4096"

definition bw_new :: bufio where
  "bw_new = \<lparr>bw_out = [], bw_calls = 0, bw_buf = [], bw_err = False\<rparr>"

text \<open>One write to the connection: how many bytes it took and whether it failed.\<close>

definition conn_write :: "net \<Rightarrow> bytes \<Rightarrow> bufio \<Rightarrow> nat \<times> bufio" where
  "conn_write net bs w =
     (let n = (case net (bw_calls w) of None \<Rightarrow> length bs | Some j \<Rightarrow> min j (length bs))
      in (n, w\<lparr>bw_out := bw_out w @ take n bs, bw_calls := Suc (bw_calls w),
              bw_err := (net (bw_calls w) \<noteq> None)\<rparr>))"

definition bw_Flush :: "net \<Rightarrow> bufio \<Rightarrow> bool \<times> bufio" where
  "bw_Flush net w =
     (if bw_err w then (False, w)
      else if bw_buf w = [] then (True, w)
      else let (n, w1) = conn_write net (bw_buf w) w
           in (\<not> bw_err w1, w1\<lparr>bw_buf := drop n (bw_buf w)\<rparr>))"

text \<open>
  The loop of \<open>bufio.Writer.Write\<close>: while the bytes do not fit, an empty buffer is bypassed and a
  non-empty one is filled and flushed.
\<close>

function bw_loop :: "net \<Rightarrow> bytes \<Rightarrow> bufio \<Rightarrow> bytes \<times> bufio" where
  "bw_loop net p w =
     (if bufSize - length (bw_buf w) < length p \<and> \<not> bw_err w then
        (if bw_buf w = [] then
           let (n, w1) = conn_write net p w in
           if bw_err w1 then (drop n p, w1) else bw_loop net (drop n p) w1
         else
           let n = bufSize - length (bw_buf w);
               (ok, w1) = bw_Flush net (w\<lparr>bw_buf := bw_buf w @ take n p\<rparr>) in
           if \<not> ok then (drop n p, w1) else bw_loop net (drop n p) w1)
      else (p, w))"
  by pat_completeness auto
termination
  by (relation "measure (\<lambda>(net, p, w). 2 * length p + (if bw_buf w = [] then 0 else 1))")
    (auto simp: conn_write_def bw_Flush_def Let_def split: if_splits option.splits)

declare bw_loop.simps [simp del]

definition bw_Write :: "net \<Rightarrow> bytes \<Rightarrow> bufio \<Rightarrow> bool \<times> bufio" where
  "bw_Write net p w =
     (let (rest, w1) = bw_loop net p w in
      if bw_err w1 then (False, w1) else (True, w1\<lparr>bw_buf := bw_buf w1 @ rest\<rparr>))"

section \<open>The lane\<close>

text \<open>One frame, with the number of tokens queued when it is sent; then the deferred flush.\<close>

definition tcp_send :: "net \<Rightarrow> int \<Rightarrow> nat \<Rightarrow> bytes \<Rightarrow> bufio \<Rightarrow> bool \<times> bufio" where
  "tcp_send net pps queued f w =
     (let (ok, w) = bw_Write net f w in
      if ok \<and> (tcpFlushBytes \<le> length (bw_buf w) \<or> (0 < pps \<and> queued = 0)) then bw_Flush net w
      else (ok, w))"

fun tcp_frames :: "net \<Rightarrow> int \<Rightarrow> (bytes \<times> nat) list \<Rightarrow> bufio \<Rightarrow> bool list \<times> bufio" where
  "tcp_frames net pps [] w = ([], w)"
| "tcp_frames net pps ((f, queued) # fs) w =
     (let (ok, w) = tcp_send net pps queued f w; (oks, w) = tcp_frames net pps fs w in (ok # oks, w))"

definition tcp_lane :: "net \<Rightarrow> int \<Rightarrow> (bytes \<times> nat) list \<Rightarrow> bool list \<times> bufio" where
  "tcp_lane net pps fs =
     (let (oks, w) = tcp_frames net pps fs bw_new in (oks, snd (bw_Flush net w)))"

section \<open>Lemmas\<close>

text \<open>
  The abstraction: what has been accepted so far. A healthy writer holds exactly the accepted bytes,
  sent or buffered; after an error the connection has a prefix of them.
\<close>

definition holds :: "bytes \<Rightarrow> bufio \<Rightarrow> bool" where
  "holds bs w \<longleftrightarrow> (if bw_err w then prefix (bw_out w) bs else bw_out w @ bw_buf w = bs)"

lemma holds_new: "holds [] bw_new"
  by (simp add: holds_def bw_new_def)

lemma holds_err_mono: "holds bs w \<Longrightarrow> bw_err w \<Longrightarrow> holds (bs @ cs) w"
  by (auto simp: holds_def)

lemma take_prefix: "prefix (xs @ take n ys) (xs @ ys @ zs)"
  by (metis append_assoc append_take_drop_id prefixI same_prefix_prefix)

lemma bw_Flush_holds:
  assumes "holds bs w" and "bw_Flush net w = (ok, w')"
  shows "holds bs w' \<and> ok = (\<not> bw_err w') \<and> (ok \<longrightarrow> bw_buf w' = []) \<and> (bw_err w \<longrightarrow> w' = w)"
  using assms take_prefix [of "bw_out w" _ "bw_buf w" "[]"]
  by (auto simp: bw_Flush_def conn_write_def Let_def holds_def split: if_splits option.splits)

lemma bw_loop_holds:
  assumes "holds bs w" and "bw_loop net p w = (rest, w')"
  shows "\<exists>pre. p = pre @ rest \<and> (if bw_err w' then holds (bs @ p) w' else holds (bs @ pre) w' \<and>
     length (bw_buf w') + length rest \<le> max bufSize (length (bw_buf w)))"
  using assms
proof (induction net p w arbitrary: bs rule: bw_loop.induct)
  case (1 net p w)
  note step = bw_loop.simps [of net p w]
  let ?n = "bufSize - length (bw_buf w)"
  show ?case
  proof (cases "?n < length p \<and> \<not> bw_err w")
    case False
    with "1.prems" show ?thesis
      by (intro exI [of _ "[]"]) (auto simp: step holds_err_mono)
  next
    case go: True
    show ?thesis
    proof (cases "bw_buf w = []")
      case True
      obtain n w1 where c: "conn_write net p w = (n, w1)" by (cases "conn_write net p w")
      have w1: "bw_buf w1 = []" "bw_out w1 = bw_out w @ take n p" "n \<le> length p"
        using c True by (auto simp: conn_write_def Let_def split: option.splits)
      show ?thesis
      proof (cases "bw_err w1")
        case err: True
        with "1.prems" go True c have r: "rest = drop n p" "w' = w1" by (auto simp: step)
        have "prefix (bw_out w @ take n p) (bs @ p)"
          using "1.prems"(1) go True take_prefix [of "bw_out w" n p "[]"] by (simp add: holds_def)
        with err r w1 show ?thesis by (intro exI [of _ "take n p"]) (simp add: holds_def)
      next
        case ok: False
        have h: "holds (bs @ take n p) w1" using "1.prems"(1) go True w1 ok by (simp add: holds_def)
        have l: "bw_loop net (drop n p) w1 = (rest, w')" using "1.prems"(2) go True c ok by (simp add: step)
        from "1.IH"(1) [OF go True c [symmetric] refl ok h l] obtain d where
          "drop n p = d @ rest" "if bw_err w' then holds ((bs @ take n p) @ drop n p) w' else
            holds ((bs @ take n p) @ d) w' \<and> length (bw_buf w') + length rest \<le> max bufSize (length (bw_buf w1))"
          by blast
        moreover from this(1) have "p = (take n p @ d) @ rest" by (metis append_assoc append_take_drop_id)
        ultimately show ?thesis
          using w1 True by (intro exI [of _ "take n p @ d"]) (auto simp: bufSize_def split: if_splits)
      qed
    next
      case False
      let ?w = "w\<lparr>bw_buf := bw_buf w @ take ?n p\<rparr>"
      obtain ok w1 where f: "bw_Flush net ?w = (ok, w1)" by (cases "bw_Flush net ?w")
      have "holds (bs @ take ?n p) ?w" using "1.prems"(1) go by (simp add: holds_def)
      note fl = bw_Flush_holds [OF this f]
      show ?thesis
      proof (cases ok)
        case no: False
        with "1.prems" go False f have r: "rest = drop ?n p" "w' = w1" by (auto simp: step Let_def)
        have "holds ((bs @ take ?n p) @ drop ?n p) w1" by (rule holds_err_mono) (use fl no in auto)
        with r fl no show ?thesis by (intro exI [of _ "take ?n p"]) simp
      next
        case True
        have l: "bw_loop net (drop ?n p) w1 = (rest, w')"
          using "1.prems"(2) go False f True by (simp add: step Let_def)
        from "1.IH"(2) [OF go False refl f [symmetric] refl _ _ l, of "bs @ take ?n p"] True fl obtain d where
          "drop ?n p = d @ rest" "if bw_err w' then holds ((bs @ take ?n p) @ drop ?n p) w' else
            holds ((bs @ take ?n p) @ d) w' \<and> length (bw_buf w') + length rest \<le> max bufSize (length (bw_buf w1))"
          by auto
        moreover from this(1) have "p = (take ?n p @ d) @ rest" by (metis append_assoc append_take_drop_id)
        ultimately show ?thesis
          using fl True by (intro exI [of _ "take ?n p @ d"]) (auto simp: bufSize_def split: if_splits)
      qed
    qed
  qed
qed

section \<open>The contract\<close>

text \<open>
  A byte sink: writes and flushes keep \<open>hold bs\<close>, with \<open>bs\<close> everything written so far; a successful
  flush leaves nothing behind, and an error stays.
\<close>

locale byte_sink =
  fixes put_bytes :: "bytes \<Rightarrow> 's \<Rightarrow> bool \<times> 's"
    and drain :: "'s \<Rightarrow> bool \<times> 's"
    and hold :: "bytes \<Rightarrow> 's \<Rightarrow> bool"
    and failed :: "'s \<Rightarrow> bool"
    and waiting :: "'s \<Rightarrow> nat"
  assumes write_holds: "hold bs s \<Longrightarrow> put_bytes p s = (ok, s') \<Longrightarrow> hold (bs @ p) s' \<and> ok = (\<not> failed s')"
    and flush_holds: "hold bs s \<Longrightarrow> drain s = (ok, s') \<Longrightarrow>
          hold bs s' \<and> ok = (\<not> failed s') \<and> (ok \<longrightarrow> waiting s' = 0)"
    and write_sticky: "failed s \<Longrightarrow> put_bytes p s = (False, s)"
    and flush_sticky: "failed s \<Longrightarrow> drain s = (False, s)"
begin

text \<open>The worker's policy over any sink: write, then flush when enough waits or the pacer is idle.\<close>

definition send :: "int \<Rightarrow> nat \<Rightarrow> bytes \<Rightarrow> 's \<Rightarrow> bool \<times> 's" where
  "send pps queued f s =
     (let (ok, s) = put_bytes f s in
      if ok \<and> (tcpFlushBytes \<le> waiting s \<or> (0 < pps \<and> queued = 0)) then drain s else (ok, s))"

fun sends :: "int \<Rightarrow> (bytes \<times> nat) list \<Rightarrow> 's \<Rightarrow> bool list \<times> 's" where
  "sends pps [] s = ([], s)"
| "sends pps ((f, queued) # fs) s =
     (let (ok, s) = send pps queued f s; (oks, s) = sends pps fs s in (ok # oks, s))"

lemma send_holds:
  assumes "hold bs s" and "send pps queued f s = (ok, s')"
  shows "hold (bs @ f) s' \<and> ok = (\<not> failed s') \<and>
     (ok \<longrightarrow> waiting s' < tcpFlushBytes \<and> (0 < pps \<and> queued = 0 \<longrightarrow> waiting s' = 0))"
proof -
  obtain ok1 s1 where w: "put_bytes f s = (ok1, s1)" by (cases "put_bytes f s")
  note h = write_holds [OF assms(1) w]
  show ?thesis
  proof (cases "ok1 \<and> (tcpFlushBytes \<le> waiting s1 \<or> (0 < pps \<and> queued = 0))")
    case True
    then have "drain s1 = (ok, s')" using assms(2) w by (simp add: send_def)
    from flush_holds [OF _ this] h show ?thesis by (auto simp: tcpFlushBytes_def)
  next
    case False
    then have "ok = ok1" "s' = s1" using assms(2) w by (auto simp: send_def split: if_splits)
    with h False show ?thesis by auto
  qed
qed

lemma sends_holds:
  assumes "hold bs s" and "sends pps fs s = (oks, s')"
  shows "hold (bs @ concat (map fst fs)) s' \<and> length oks = length fs \<and>
     (\<not> failed s' \<longrightarrow> oks = replicate (length fs) True \<and> (fs \<noteq> [] \<longrightarrow> waiting s' < tcpFlushBytes) \<and>
        (fs \<noteq> [] \<and> 0 < pps \<and> snd (last fs) = 0 \<longrightarrow> waiting s' = 0)) \<and> (failed s \<longrightarrow> failed s')"
  using assms
proof (induction fs arbitrary: bs s oks)
  case Nil
  then show ?case by auto
next
  case (Cons x fs)
  obtain f queued where x: "x = (f, queued)" by (cases x)
  obtain ok s1 where s1: "send pps queued f s = (ok, s1)" by (cases "send pps queued f s")
  obtain oks1 where r: "sends pps fs s1 = (oks1, s')" "oks = ok # oks1"
    using Cons.prems(2) x s1 by (auto split: prod.splits)
  note h = send_holds [OF Cons.prems(1) s1]
  have keep: "failed s \<Longrightarrow> failed s1" using s1 write_sticky by (auto simp: send_def)
  have "hold (bs @ f) s1" using h by simp
  note ih = Cons.IH [OF this r(1)]
  show ?case
  proof (cases "fs = []")
    case True
    with h ih r x keep show ?thesis by auto
  next
    case False
    with h ih r x keep show ?thesis by auto
  qed
qed

text \<open>After an error nothing is sent any more: every further frame fails and the sink stays as it is.\<close>

lemma sends_dead: "failed s \<Longrightarrow> sends pps fs s = (replicate (length fs) False, s)"
  by (induction fs) (auto simp: send_def write_sticky)

lemma sends_pattern:
  "hold bs s \<Longrightarrow> \<exists>j \<le> length fs. fst (sends pps fs s) = replicate j True @ replicate (length fs - j) False"
proof (induction fs arbitrary: bs s)
  case Nil
  then show ?case by simp
next
  case (Cons x fs)
  obtain f queued where x: "x = (f, queued)" by (cases x)
  obtain ok s1 where s1: "send pps queued f s = (ok, s1)" by (cases "send pps queued f s")
  note h = send_holds [OF Cons.prems s1]
  show ?case
  proof (cases ok)
    case True
    obtain j where "j \<le> length fs" "fst (sends pps fs s1) = replicate j True @ replicate (length fs - j) False"
      using Cons.IH h by blast
    then show ?thesis using x s1 True by (intro exI [of _ "Suc j"]) (simp add: case_prod_beta)
  next
    case False
    then have "failed s1" using h by simp
    from sends_dead [OF this, of pps fs] False x s1 show ?thesis by (intro exI [of _ 0]) simp
  qed
qed

end

lemma bw_sticky: "bw_err w \<Longrightarrow> bw_Write net p w = (False, w)" "bw_err w \<Longrightarrow> bw_Flush net w = (False, w)"
  by (simp_all add: bw_Write_def bw_loop.simps bw_Flush_def)

lemma bw_Write_holds:
  assumes "holds bs w" and "bw_Write net p w = (ok, w')"
  shows "holds (bs @ p) w' \<and> ok = (\<not> bw_err w')"
proof -
  obtain rest w1 where l: "bw_loop net p w = (rest, w1)" by (cases "bw_loop net p w")
  from bw_loop_holds [OF assms(1) l] obtain d where
    "p = d @ rest" "if bw_err w1 then holds (bs @ p) w1 else holds (bs @ d) w1" by (auto split: if_splits)
  with assms(2) l show ?thesis by (auto simp: bw_Write_def holds_def split: if_splits)
qed

interpretation buffered: byte_sink "bw_Write net" "bw_Flush net" holds bw_err "\<lambda>w. length (bw_buf w)"
  for net
  by unfold_locales (use bw_Write_holds bw_Flush_holds bw_sticky in \<open>auto\<close>)

lemma tcp_send_sink: "tcp_send net = buffered.send net"
  by (intro ext) (simp add: tcp_send_def buffered.send_def)

lemma tcp_frames_sink: "tcp_frames net pps fs w = buffered.sends net pps fs w"
  by (induction fs arbitrary: w) (auto simp: tcp_send_sink split: prod.split)

section \<open>A network that does not fail\<close>

definition quiet :: "net \<Rightarrow> bool" where
  "quiet net \<longleftrightarrow> (\<forall>k. net k = None)"

lemma bw_Flush_ok: "quiet net \<Longrightarrow> \<not> bw_err w \<Longrightarrow> \<not> bw_err (snd (bw_Flush net w))"
  by (simp add: bw_Flush_def conn_write_def Let_def quiet_def)

lemma bw_loop_ok: "quiet net \<Longrightarrow> \<not> bw_err w \<Longrightarrow> \<not> bw_err (snd (bw_loop net p w))"
proof (induction net p w rule: bw_loop.induct)
  case (1 net p w)
  let ?n = "bufSize - length (bw_buf w)"
  show ?case
  proof (cases "?n < length p")
    case False
    with "1.prems" show ?thesis by (subst bw_loop.simps) simp
  next
    case True
    then have go: "?n < length p \<and> \<not> bw_err w" using "1.prems" by simp
    obtain n w1 where c: "conn_write net p w = (n, w1)" by (cases "conn_write net p w")
    obtain ok w2 where f: "bw_Flush net (w\<lparr>bw_buf := bw_buf w @ take ?n p\<rparr>) = (ok, w2)"
      by (cases "bw_Flush net (w\<lparr>bw_buf := bw_buf w @ take ?n p\<rparr>)")
    have w1: "\<not> bw_err w1" using c "1.prems"(1) by (auto simp: conn_write_def Let_def quiet_def)
    have "\<not> bw_err w2" using bw_Flush_ok [OF "1.prems"(1), of "w\<lparr>bw_buf := bw_buf w @ take ?n p\<rparr>"] f "1.prems"(2) by simp
    then show ?thesis
      using go "1.IH"(1) [OF go _ c [symmetric] refl w1] "1.IH"(2) [OF go _ refl f [symmetric] refl] "1.prems" w1 c f
      by (subst bw_loop.simps) (simp add: Let_def)
  qed
qed

lemma tcp_frames_ok:
  "quiet net \<Longrightarrow> \<not> bw_err w \<Longrightarrow> \<not> bw_err (snd (tcp_frames net pps fs w))"
proof (induction fs arbitrary: w)
  case Nil
  then show ?case by simp
next
  case (Cons x fs)
  obtain f queued where x: "x = (f, queued)" by (cases x)
  have wr: "\<not> bw_err (snd (bw_Write net f w))"
    using bw_loop_ok [OF Cons.prems, of f] by (simp add: bw_Write_def case_prod_beta)
  have "\<not> bw_err (snd (tcp_send net pps queued f w))"
    using wr bw_Flush_ok [OF Cons.prems(1) wr] by (simp add: tcp_send_def case_prod_beta)
  from Cons.IH [OF Cons.prems(1) this] x show ?case by (simp add: case_prod_beta)
qed

lemma tcp_lane_quiet:
  assumes n: "quiet net" and "tcp_lane net pps fs = (oks, w')"
  shows "bw_out w' = concat (map fst fs)"
proof -
  obtain oks1 w where run: "tcp_frames net pps fs bw_new = (oks1, w)" by (cases "tcp_frames net pps fs bw_new")
  then have sends: "buffered.sends net pps fs bw_new = (oks1, w)" by (simp add: tcp_frames_sink)
  have h: "holds (concat (map fst fs)) w" using buffered.sends_holds [OF holds_new sends] by simp
  have fl: "bw_Flush net w = (fst (bw_Flush net w), w')" using assms(2) run by (auto simp: tcp_lane_def)
  note e = bw_Flush_holds [OF h fl]
  have "\<not> bw_err bw_new" by (simp add: bw_new_def)
  from tcp_frames_ok [OF n this, of pps fs] run have w: "\<not> bw_err w" by simp
  have "\<not> bw_err w'" using bw_Flush_ok [OF n w] fl by (metis snd_conv)
  with w e show ?thesis by (auto simp: holds_def)
qed

section \<open>Properties\<close>

text \<open>C15: The TCP lane delivers the frames: whatever the network does, the connection has received a prefix
  of the frames written so far, in order and without gaps, and from the first failed frame on every
  frame fails; when the network does not fail, every frame succeeds and at the end of the worker the
  connection has received exactly the frames. Until then fewer than 4096 bytes wait in the buffer
  after any frame, and none when the run is paced and no token is queued.\<close>

theorem tcp_lane_delivers:
  assumes "tcp_frames net pps fs bw_new = (oks, w)" and "tcp_lane net pps fs = (oks', w')"
  shows "prefix (bw_out w') (concat (map fst fs)) \<and> oks' = oks \<and>
     (\<exists>j \<le> length fs. oks = replicate j True @ replicate (length fs - j) False) \<and>
     ((\<forall>k. net k = None) \<longrightarrow> bw_out w' = concat (map fst fs) \<and> oks = replicate (length fs) True) \<and>
     (\<not> bw_err w \<longrightarrow> length (bw_buf w) < 4096 \<and>
        (0 < pps \<and> fs \<noteq> [] \<and> snd (last fs) = 0 \<longrightarrow> bw_buf w = []))"
proof -
  have run: "buffered.sends net pps fs bw_new = (oks, w)" using assms(1) by (simp add: tcp_frames_sink)
  note h = buffered.sends_holds [OF holds_new run]
  have fl: "bw_Flush net w = (fst (bw_Flush net w), w')" and oks: "oks' = oks"
    using assms by (auto simp: tcp_lane_def)
  have "holds (concat (map fst fs)) w" using h by simp
  note e = bw_Flush_holds [OF this fl]
  have "prefix (bw_out w') (concat (map fst fs))"
    using e by (auto simp: holds_def prefix_def split: if_splits)
  moreover have "bw_out w' = concat (map fst fs) \<and> oks = replicate (length fs) True" if n: "\<forall>k. net k = None"
  proof -
    have that: "quiet net" using n by (simp add: quiet_def)
    have "\<not> bw_err bw_new" by (simp add: bw_new_def)
    from tcp_frames_ok [OF that this, of pps fs] assms(1) have w: "\<not> bw_err w" by simp
    have "\<not> bw_err w'" using bw_Flush_ok [OF that w] fl by (metis snd_conv)
    with w e h w show ?thesis by (auto simp: holds_def)
  qed
  moreover have "length (bw_buf w) < 4096" if "\<not> bw_err w"
    using h that assms(1) by (cases "fs = []") (auto simp: tcpFlushBytes_def bw_new_def)
  ultimately show ?thesis
    using buffered.sends_pattern [OF holds_new, of fs net pps] run oks h by auto
qed

theorem tcp_lane_delivers_witness:
  "bw_out (snd (tcp_lane (\<lambda>k. None) 100 [([1, 2, 3], 1), ([4, 5], 0), ([6], 7)])) = [1, 2, 3, 4, 5, 6]"
proof -
  let ?fs = "[([1, 2, 3], 1), ([4, 5], 0), ([6], 7)] :: (bytes \<times> nat) list"
  obtain oks w where a: "tcp_frames (\<lambda>k. None) 100 ?fs bw_new = (oks, w)"
    by (cases "tcp_frames (\<lambda>k. None) 100 ?fs bw_new")
  obtain oks' w' where b: "tcp_lane (\<lambda>k. None) 100 ?fs = (oks', w')" by (cases "tcp_lane (\<lambda>k. None) 100 ?fs")
  show ?thesis using tcp_lane_delivers [OF a b] unfolding b by simp
qed

end
