(* ===== verification/Sender_Worker.thy ===== *)
theory Sender_Worker
  imports Sender_Frame Sender_Run Tcp_Lane
begin

text \<open>
  \<open>internal/sender\<close>, fourth part: the whole life of a worker. It opens its socket for the mode, draws its seed,
  spends one token after the other on a frame and its write, and releases the socket on every way out. The
  operating system, the network and the packages outside the repository are the environment; the steps of the
  token protocol a worker makes are the labels of \<open>Sender_Run\<close>.
\<close>

section \<open>Settings and environment\<close>

text \<open>The fields of \<open>Config\<close> for direct mode; a nil \<open>BindSource\<close> is the empty list.\<close>

record mcast =
  mc_bind :: bytes
  mc_iface :: "nat option"
  mc_prefix :: u16
  mc_group :: u16
  mc_port :: int

datatype write_result = W_ok | W_closed | W_failed

text \<open>How far the system lets the opening of the multicast socket come.\<close>

record egress_os =
  os_listen :: bool
  os_udp :: bool
  os_raw :: bool
  os_control :: bool
  os_setopt :: bool

record worker_env =
  we_frame :: frame_pkg
  we_obj :: objfmt_pkg
  we_hash :: "bytes \<Rightarrow> u32 \<Rightarrow> bytes \<Rightarrow> u64"
  we_target :: string                       \<comment> \<open>\<open>Config.Addr\<close>\<close>
  we_dial :: bool                           \<comment> \<open>\<open>net.Dial\<close> succeeds\<close>
  we_os :: egress_os
  we_ip :: "bytes \<Rightarrow> string"               \<comment> \<open>\<open>net.IP.String\<close>\<close>
  we_addr :: "u16 \<Rightarrow> u16 \<Rightarrow> u64 \<Rightarrow> u32 \<Rightarrow> int \<Rightarrow> string" \<comment> \<open>\<open>shard.New(prefix, group, bits).Addr(g, port)\<close>\<close>
  we_dgram :: "nat \<Rightarrow> write_result"         \<comment> \<open>the outcome of the \<open>k\<close>-th datagram write\<close>
  we_net :: net                             \<comment> \<open>the outcomes of the TCP connection's writes\<close>
  we_gone :: bool                           \<comment> \<open>a failed TCP write reports \<open>net.ErrClosed\<close>\<close>

section \<open>Sockets\<close>

datatype sock_ev = Sock_open string | Sock_iface nat | Sock_close

datatype egress_err = E_listen | E_conn_type | E_syscall_conn | E_control | E_setsockopt

definition openMulticastEgress ::
  "(bytes \<Rightarrow> string) \<Rightarrow> egress_os \<Rightarrow> nat option \<Rightarrow> bytes \<Rightarrow> (egress_err + unit) \<times> sock_ev list" where
  "openMulticastEgress ip os iface src =
     (let listenAddr = (if src \<noteq> [] then ''['' @ ip src @ '']:0'' else ''[::]:0'') in
      if \<not> os_listen os then (Inl E_listen, [])
      else if \<not> os_udp os then (Inl E_conn_type, [Sock_open listenAddr, Sock_close])
      else case iface of
        None \<Rightarrow> (Inr (), [Sock_open listenAddr])
      | Some ix \<Rightarrow>
          if \<not> os_raw os then (Inl E_syscall_conn, [Sock_open listenAddr, Sock_close])
          else if \<not> os_control os then (Inl E_control, [Sock_open listenAddr, Sock_close])
          else if \<not> os_setopt os then (Inl E_setsockopt, [Sock_open listenAddr, Sock_close])
          else (Inr (), [Sock_open listenAddr, Sock_iface ix]))"

datatype transport = Udp | Tcp | Mcast

definition worker_open :: "worker_env \<Rightarrow> SendConfig \<Rightarrow> mcast \<Rightarrow> transport option \<times> sock_ev list" where
  "worker_open env cfg mc =
     (case c_Mode cfg of
        ModeUnicast \<Rightarrow>
          if we_dial env then (Some (if c_TCP cfg then Tcp else Udp), [Sock_open (we_target env)]) else (None, [])
      | ModeDirectMulticast \<Rightarrow>
          (case openMulticastEgress (we_ip env) (we_os env) (mc_iface mc) (mc_bind mc) of
             (Inl _, evs) \<Rightarrow> (None, evs) | (Inr _, evs) \<Rightarrow> (Some Mcast, evs))
      | ModeUnknown \<Rightarrow> (None, []))"

definition To16 :: "bytes \<Rightarrow> bytes" where
  "To16 ip =
     (if length ip = 4 then replicate 10 0 @ [0xFF, 0xFF] @ ip else if length ip = 16 then ip else [])"

definition srcIPv6 :: "SendConfig \<Rightarrow> mcast \<Rightarrow> bytes" where
  "srcIPv6 cfg mc =
     (if c_Mode cfg = ModeDirectMulticast then take 16 (To16 (mc_bind mc) @ replicate 16 0) else replicate 16 0)"

section \<open>Writing\<close>

text \<open>
  The open socket: the TCP buffer, the datagram writes tried so far, and (for the proofs) the frames counted
  as sent, with the group address of a multicast datagram.
\<close>

record link =
  ln_tr :: transport
  ln_buf :: bufio
  ln_tries :: nat
  ln_sent :: "(string option \<times> bytes) list"

definition link_new :: "transport \<Rightarrow> link" where
  "link_new tr = \<lparr>ln_tr = tr, ln_buf = bw_new, ln_tries = 0, ln_sent = []\<rparr>"

definition worker_write ::
  "worker_env \<Rightarrow> SendConfig \<Rightarrow> mcast \<Rightarrow> u32 \<Rightarrow> nat \<Rightarrow> bytes \<Rightarrow> link \<Rightarrow> write_result \<times> link" where
  "worker_write env cfg mc g qd bs l =
     (case ln_tr l of
        Mcast \<Rightarrow>
          let dst = we_addr env (mc_prefix mc) (mc_group mc) (c_ShardBits cfg) g (mc_port mc);
              res = we_dgram env (ln_tries l)
          in (res, l\<lparr>ln_tries := Suc (ln_tries l),
                     ln_sent := (if res = W_ok then ln_sent l @ [(Some dst, bs)] else ln_sent l)\<rparr>)
      | Tcp \<Rightarrow>
          let (ok, b) = tcp_send (we_net env) (c_PPS cfg) qd bs (ln_buf l)
          in (if ok then W_ok else if we_gone env then W_closed else W_failed,
              l\<lparr>ln_buf := b, ln_sent := (if ok then ln_sent l @ [(None, bs)] else ln_sent l)\<rparr>)
      | Udp \<Rightarrow>
          let res = we_dgram env (ln_tries l)
          in (res, l\<lparr>ln_tries := Suc (ln_tries l),
                     ln_sent := (if res = W_ok then ln_sent l @ [(None, bs)] else ln_sent l)\<rparr>))"

section \<open>Tokens\<close>

text \<open>What a worker does with its token once the frame is made and written; a nil dereference ends the program.\<close>

definition token_label :: "nat \<Rightarrow> frame_result \<Rightarrow> write_result \<Rightarrow> run_label option" where
  "token_label i f w =
     (case f of
        NilPanic \<Rightarrow> None
      | BuildErr e \<Rightarrow> Some (WBuildErr i)
      | IDErr \<Rightarrow> Some (WRetry i)
      | EncErr e \<Rightarrow> Some (WRetry i)
      | Built bs \<Rightarrow>
          (case w of W_ok \<Rightarrow> Some (WSent i) | W_closed \<Rightarrow> Some (WSockClosed i) | W_failed \<Rightarrow> Some (WRetry i)))"

fun leaves :: "run_label \<Rightarrow> bool" where
  "leaves (WBuildErr i) = True"
| "leaves (WSockClosed i) = True"
| "leaves _ = False"

text \<open>
  The loop over the tokens; each comes with the instant, the random byte of the corruption and the number of
  tokens still queued. The result has a label per token, and whether the worker left its loop.
\<close>

fun worker_tokens ::
  "worker_env \<Rightarrow> mcast \<Rightarrow> nat \<Rightarrow> (int \<times> byte option \<times> nat) list \<Rightarrow> Runner \<Rightarrow> Worker \<Rightarrow> link \<Rightarrow>
   (run_label list \<times> bool \<times> link) option" where
  "worker_tokens env mc i [] r w l = Some ([], False, l)"
| "worker_tokens env mc i ((now, rnd, qd) # ins) r w l =
     (let cfg = r_cfg r;
          (f, r, w) = make_frame (we_frame env) (we_obj env) (we_hash env) (srcIPv6 cfg mc) now rnd r w;
          g = groupIdx (c_ShardBits cfg) (f_TxID (w_frame w));
          (res, l) = (case f of Built bs \<Rightarrow> worker_write env cfg mc g qd bs l | _ \<Rightarrow> (W_ok, l))
      in case token_label i f res of
           None \<Rightarrow> None
         | Some lab \<Rightarrow>
             if leaves lab then Some ([lab], True, l)
             else map_option (\<lambda>(labs, left, l). (lab # labs, left, l)) (worker_tokens env mc i ins r w l))"

section \<open>The life of a worker\<close>

record life =
  li_socks :: "sock_ev list"
  li_labels :: "run_label list"
  li_link :: link

text \<open>Every token is received before it is spent; a worker still in its loop leaves by \<open>fin\<close>.\<close>

definition token_steps :: "nat \<Rightarrow> run_label list \<Rightarrow> run_label list" where
  "token_steps i labs = concat (map (\<lambda>lab. [WRecv i, lab]) labs)"

definition worker_release :: "worker_env \<Rightarrow> link \<Rightarrow> link" where
  "worker_release env l =
     (if ln_tr l = Tcp then l\<lparr>ln_buf := snd (bw_Flush (we_net env) (ln_buf l))\<rparr> else l)"

definition worker_life ::
  "worker_env \<Rightarrow> mcast \<Rightarrow> nat \<Rightarrow> bytes option \<Rightarrow> (int \<times> byte option \<times> nat) list \<Rightarrow> run_label \<Rightarrow> Runner \<Rightarrow>
   life option" where
  "worker_life env mc i seed ins fin r =
     (case worker_open env (r_cfg r) mc of
        (None, evs) \<Rightarrow> Some \<lparr>li_socks = evs, li_labels = [WDial i False], li_link = link_new Udp\<rparr>
      | (Some tr, evs) \<Rightarrow>
          (case seed of
             None \<Rightarrow> Some \<lparr>li_socks = evs @ [Sock_close], li_labels = [WDial i False],
                           li_link = worker_release env (link_new tr)\<rparr>
           | Some sd \<Rightarrow>
               map_option (\<lambda>(labs, left, l).
                   \<lparr>li_socks = evs @ [Sock_close],
                    li_labels = WDial i True # token_steps i labs @ (if left then [] else [fin]),
                    li_link = worker_release env l\<rparr>)
                 (worker_tokens env mc i ins r (worker_start (we_frame env) (r_cfg r) i sd) (link_new tr))))"

section \<open>A worker follows the token protocol\<close>

lemma token_step:
  assumes "token_label i f res = Some lab" and "at_pc s i W_idle" and "0 < chan s"
  shows "\<exists>s1. run_path cnt cap [WRecv i, lab] s = Some s1 \<and>
     at_pc s1 i (if leaves lab then W_exit else W_idle) \<and> chan s1 + 1 = chan s \<and>
     n_sent s1 = n_sent s + (if lab = WSent i then 1 else 0) \<and> closed s1 = closed s \<and> cancelled s1 = cancelled s"
  using assms
  by (auto simp: token_label_def at_pc_def move_def release_def split: frame_result.splits write_result.splits)

lemma write_count:
  assumes "token_label i (Built bs) (fst (worker_write env cfg mc g qd bs l)) = Some lab"
  shows "length (ln_sent (snd (worker_write env cfg mc g qd bs l))) =
     length (ln_sent l) + (if lab = WSent i then 1 else 0)"
  using assms
  by (auto simp: worker_write_def token_label_def Let_def case_prod_beta
      split: transport.splits write_result.splits if_splits)

lemma token_steps_simps [simp]:
  "token_steps i [] = []" "token_steps i (lab # labs) = [WRecv i, lab] @ token_steps i labs"
  by (simp_all add: token_steps_def)

lemma run_path_append:
  "run_path cnt cap (xs @ ys) s = Option.bind (run_path cnt cap xs s) (run_path cnt cap ys)"
  by (induction xs arbitrary: s) (auto split: option.split)

text \<open>One turn of the loop, as a link before and after, a label and the rest of the loop.\<close>

lemma worker_tokens_step:
  assumes "worker_tokens env mc i ((now, rnd, qd) # ins) r w l = Some (labs, left, l')"
  obtains f r1 w1 res l1 lab where
    "make_frame (we_frame env) (we_obj env) (we_hash env) (srcIPv6 (r_cfg r) mc) now rnd r w = (f, r1, w1)"
    "(res, l1) = (case f of Built bs \<Rightarrow>
        worker_write env (r_cfg r) mc (groupIdx (c_ShardBits (r_cfg r)) (f_TxID (w_frame w1))) qd bs l
      | _ \<Rightarrow> (W_ok, l))"
    "token_label i f res = Some lab"
    "if leaves lab then labs = [lab] \<and> left \<and> l' = l1
     else \<exists>rest. labs = lab # rest \<and> worker_tokens env mc i ins r1 w1 l1 = Some (rest, left, l')"
proof -
  obtain f r1 w1 where m:
    "make_frame (we_frame env) (we_obj env) (we_hash env) (srcIPv6 (r_cfg r) mc) now rnd r w = (f, r1, w1)"
    by (metis prod_cases3)
  obtain res l1 where wr: "(res, l1) = (case f of Built bs \<Rightarrow>
        worker_write env (r_cfg r) mc (groupIdx (c_ShardBits (r_cfg r)) (f_TxID (w_frame w1))) qd bs l
      | _ \<Rightarrow> (W_ok, l))" by (metis surj_pair)
  obtain lab where lab: "token_label i f res = Some lab"
    using assms m wr [symmetric] by (auto simp: Let_def split: option.splits)
  from assms m wr [symmetric] lab have "if leaves lab then labs = [lab] \<and> left \<and> l' = l1
     else \<exists>rest. labs = lab # rest \<and> worker_tokens env mc i ins r1 w1 l1 = Some (rest, left, l')"
    by (auto simp: Let_def split: if_splits)
  from that [OF m wr lab this] show ?thesis .
qed

lemma worker_tokens_run:
  "worker_tokens env mc i ins r w l = Some (labs, left, l') \<Longrightarrow> at_pc s i W_idle \<Longrightarrow> length ins \<le> chan s \<Longrightarrow>
   \<exists>s'. run_path cnt cap (token_steps i labs) s = Some s' \<and> at_pc s' i (if left then W_exit else W_idle) \<and>
     (\<not> left \<longrightarrow> chan s' + length ins = chan s) \<and>
     n_sent s' + length (ln_sent l) = n_sent s + length (ln_sent l') \<and>
     closed s' = closed s \<and> cancelled s' = cancelled s"
proof (induction ins arbitrary: r w l labs s)
  case Nil
  then show ?case by auto
next
  case (Cons a ins)
  obtain now rnd qd where a: "a = (now, rnd, qd)" by (metis prod_cases3)
  obtain f r1 w1 res l1 lab where t:
    "(res, l1) = (case f of Built bs \<Rightarrow>
        worker_write env (r_cfg r) mc (groupIdx (c_ShardBits (r_cfg r)) (f_TxID (w_frame w1))) qd bs l
      | _ \<Rightarrow> (W_ok, l))" "token_label i f res = Some lab"
    "if leaves lab then labs = [lab] \<and> left \<and> l' = l1
     else \<exists>rest. labs = lab # rest \<and> worker_tokens env mc i ins r1 w1 l1 = Some (rest, left, l')"
    using worker_tokens_step [OF Cons.prems(1) [unfolded a]] by metis
  have sent: "length (ln_sent l1) = length (ln_sent l) + (if lab = WSent i then 1 else 0)"
  proof (cases f)
    case (Built bs)
    let ?wr = "worker_write env (r_cfg r) mc (groupIdx (c_ShardBits (r_cfg r)) (f_TxID (w_frame w1))) qd bs l"
    from t(1) Built have e: "(res, l1) = ?wr" by simp
    have "token_label i (Built bs) (fst ?wr) = Some lab" using t(2) Built by (simp flip: e)
    from write_count [OF this] show ?thesis by (simp flip: e)
  qed (use t(1,2) in \<open>auto simp: token_label_def\<close>)
  obtain s1 where s1: "run_path cnt cap [WRecv i, lab] s = Some s1"
    "at_pc s1 i (if leaves lab then W_exit else W_idle)" "chan s1 + 1 = chan s"
    "n_sent s1 = n_sent s + (if lab = WSent i then 1 else 0)" "closed s1 = closed s" "cancelled s1 = cancelled s"
    using token_step [OF t(2) Cons.prems(2)] Cons.prems(3) by fastforce
  show ?case
  proof (cases "leaves lab")
    case True
    with t(3) s1 sent show ?thesis by (auto simp: run_path_append simp del: run_path.simps)
  next
    case False
    then obtain rest where rest: "labs = lab # rest" "worker_tokens env mc i ins r1 w1 l1 = Some (rest, left, l')"
      using t(3) by auto
    have "at_pc s1 i W_idle" "length ins \<le> chan s1" using s1(2,3) False Cons.prems(3) by auto
    from Cons.IH [OF rest(2) this] obtain s' where
      "run_path cnt cap (token_steps i rest) s1 = Some s'" "at_pc s' i (if left then W_exit else W_idle)"
      "\<not> left \<longrightarrow> chan s' + length ins = chan s1" "n_sent s' + length (ln_sent l1) = n_sent s1 + length (ln_sent l')"
      "closed s' = closed s1" "cancelled s' = cancelled s1" by blast
    note s' = this
    have "run_path cnt cap ([WRecv i, lab] @ token_steps i rest) s = Some s'"
      unfolding run_path_append s1(1) by (simp add: s'(1))
    then show ?thesis using s' s1(3-6) sent rest(1) by (intro exI [of _ s']) simp
  qed
qed

section \<open>What a worker puts on the wire\<close>

text \<open>A frame counted as sent: a good frame of the configuration and, in direct mode, the address of the group
  its TxID selects.\<close>

definition sent_good :: "worker_env \<Rightarrow> mcast \<Rightarrow> SendConfig \<Rightarrow> Pool \<Rightarrow> bool \<Rightarrow> string option \<times> bytes \<Rightarrow> bool" where
  "sent_good env mc cfg pool plain d \<longleftrightarrow>
     (\<exists>n rnd txid.
        good_frame_as (we_obj env) (we_hash env) (srcIPv6 cfg mc) cfg pool plain n rnd txid (Built (snd d)) \<and>
        fst d = (if c_Mode cfg = ModeDirectMulticast
                 then Some (we_addr env (mc_prefix mc) (mc_group mc) (c_ShardBits cfg)
                              (groupIdx (c_ShardBits cfg) txid) (mc_port mc))
                 else None))"

definition link_inv :: "worker_env \<Rightarrow> mcast \<Rightarrow> SendConfig \<Rightarrow> Pool \<Rightarrow> bool \<Rightarrow> link \<Rightarrow> bool" where
  "link_inv env mc cfg pool plain l \<longleftrightarrow>
     list_all (sent_good env mc cfg pool plain) (ln_sent l) \<and>
     (ln_tr l = Mcast \<longleftrightarrow> c_Mode cfg = ModeDirectMulticast) \<and>
     (ln_tr l = Tcp \<and> quiet (we_net env) \<longrightarrow> \<not> bw_err (ln_buf l) \<and> holds (concat (map snd (ln_sent l))) (ln_buf l))"

lemma tcp_send_quiet:
  assumes "quiet net" and "\<not> bw_err b" and "holds bs b"
  shows "\<exists>b'. tcp_send net pps qd f b = (True, b') \<and> \<not> bw_err b' \<and> holds (bs @ f) b'"
proof -
  obtain ok b' where t: "tcp_send net pps qd f b = (ok, b')" by (cases "tcp_send net pps qd f b")
  then have r: "tcp_frames net pps [(f, qd)] b = ([ok], b')" by simp
  then have sends: "buffered.sends net pps [(f, qd)] b = ([ok], b')" by (simp only: tcp_frames_sink)
  have "\<not> bw_err b'" using tcp_frames_ok [OF assms(1,2), of pps "[(f, qd)]"] r by simp
  moreover have "holds (bs @ f) b'" using buffered.sends_holds [OF assms(3) sends] by simp
  moreover have ok using buffered.send_holds [OF assms(3), of net pps qd f ok b'] t \<open>\<not> bw_err b'\<close>
    by (simp add: tcp_send_sink)
  ultimately show ?thesis using t by simp
qed

lemma link_write:
  assumes "link_inv env mc cfg pool plain l"
    and "good_frame_as (we_obj env) (we_hash env) (srcIPv6 cfg mc) cfg pool plain n rnd txid (Built bs)"
  shows "link_inv env mc cfg pool plain (snd (worker_write env cfg mc (groupIdx (c_ShardBits cfg) txid) qd bs l))"
proof -
  let ?dst = "we_addr env (mc_prefix mc) (mc_group mc) (c_ShardBits cfg) (groupIdx (c_ShardBits cfg) txid) (mc_port mc)"
  have good: "sent_good env mc cfg pool plain (if ln_tr l = Mcast then Some ?dst else None, bs)"
    using assms unfolding sent_good_def link_inv_def by auto
  show ?thesis
  proof (cases "ln_tr l")
    case Tcp
    obtain ok b where t: "tcp_send (we_net env) (c_PPS cfg) qd bs (ln_buf l) = (ok, b)" by (metis surj_pair)
    have "quiet (we_net env) \<longrightarrow> ok \<and> \<not> bw_err b \<and> holds (concat (map snd (ln_sent l)) @ bs) b"
      using tcp_send_quiet [of "we_net env" "ln_buf l" "concat (map snd (ln_sent l))" "c_PPS cfg" qd bs] assms(1) Tcp t
      by (auto simp: link_inv_def)
    then show ?thesis using assms(1) good Tcp t by (auto simp: link_inv_def worker_write_def)
  qed (use assms(1) good in \<open>auto simp: link_inv_def worker_write_def Let_def\<close>)
qed

text \<open>The label of a token whose frame was made: what its write gave, nothing else.\<close>

fun write_label :: "nat \<Rightarrow> write_result \<Rightarrow> run_label" where
  "write_label i W_ok = WSent i"
| "write_label i W_closed = WSockClosed i"
| "write_label i W_failed = WRetry i"

definition labels_ok :: "worker_env \<Rightarrow> nat \<Rightarrow> transport \<Rightarrow> nat \<Rightarrow> run_label list \<Rightarrow> bool" where
  "labels_ok env i tr k labs \<longleftrightarrow>
     (if tr = Tcp then quiet (we_net env) \<longrightarrow> labs = replicate (length labs) (WSent i)
      else labs = map (\<lambda>j. write_label i (we_dgram env j)) [k..<k + length labs])"

lemma labels_ok_Nil [simp]: "labels_ok env i tr k []"
  by (simp add: labels_ok_def)

lemma labels_ok_write:
  assumes "link_inv env mc cfg pool plain l" and "worker_write env cfg mc g qd bs l = (res, l1)"
    and "labels_ok env i (ln_tr l) (ln_tries l1) labs"
  shows "labels_ok env i (ln_tr l) (ln_tries l) (write_label i res # labs)"
proof (cases "ln_tr l")
  case Tcp
  have "res = W_ok" if "quiet (we_net env)"
    using tcp_send_quiet [OF that, of "ln_buf l" "concat (map snd (ln_sent l))" "c_PPS cfg" qd bs] assms(1,2) Tcp that
    by (auto simp: link_inv_def worker_write_def)
  then show ?thesis using assms(3) Tcp by (simp add: labels_ok_def)
qed (use assms(2,3) in \<open>auto simp: labels_ok_def worker_write_def Let_def upt_conv_Cons simp del: upt_Suc\<close>)

lemma worker_tokens_good:
  assumes "frame_doc (we_frame env)" and "encode_doc (we_frame env)" and "txid_doc (we_obj env) tx_obj"
    and "send_ok cfg pool"
  shows "worker_inv (we_frame env) cfg pool plain n r w \<Longrightarrow> link_inv env mc cfg pool plain l \<Longrightarrow>
     \<exists>labs left l'. worker_tokens env mc i ins r w l = Some (labs, left, l') \<and> link_inv env mc cfg pool plain l' \<and>
       ln_tr l' = ln_tr l \<and> set labs \<subseteq> {WSent i, WRetry i, WSockClosed i} \<and> labels_ok env i (ln_tr l) (ln_tries l) labs"
proof (induction ins arbitrary: n r w l)
  case Nil
  then show ?case by auto
next
  case (Cons a ins)
  obtain now rnd qd where a: "a = (now, rnd, qd)" by (metis prod_cases3)
  obtain f r1 w1 where m:
    "make_frame (we_frame env) (we_obj env) (we_hash env) (srcIPv6 cfg mc) now rnd r w = (f, r1, w1)"
    "good_frame_as (we_obj env) (we_hash env) (srcIPv6 cfg mc) cfg pool plain (word_of_nat n) rnd (f_TxID (w_frame w1)) f"
    "worker_inv (we_frame env) cfg pool plain (Suc n) r1 w1"
    using make_frame_good [OF assms Cons.prems(1)] by blast
  have cfg: "r_cfg r = cfg" using Cons.prems(1) by (simp add: worker_inv_def)
  obtain bs where bs: "f = Built bs" using m(2) by (auto simp: good_frame_as_def good_frame_num_def)
  obtain res l1 where wr:
    "worker_write env cfg mc (groupIdx (c_ShardBits cfg) (f_TxID (w_frame w1))) qd bs l = (res, l1)" by (metis surj_pair)
  have l1: "link_inv env mc cfg pool plain l1"
    using link_write [OF Cons.prems(2) m(2) [unfolded bs], of qd] wr by simp
  have tr: "ln_tr l1 = ln_tr l"
    using wr by (auto simp: worker_write_def Let_def case_prod_beta split: transport.splits)
  from Cons.IH [OF m(3) l1] obtain labs left l' where
    "worker_tokens env mc i ins r1 w1 l1 = Some (labs, left, l')" "link_inv env mc cfg pool plain l'"
    "ln_tr l' = ln_tr l1" "set labs \<subseteq> {WSent i, WRetry i, WSockClosed i}" "labels_ok env i (ln_tr l1) (ln_tries l1) labs"
    by blast
  note rest = this
  have "labels_ok env i (ln_tr l) (ln_tries l) (write_label i res # labs)"
    "labels_ok env i (ln_tr l) (ln_tries l) [write_label i res]"
    using labels_ok_write [OF Cons.prems(2) wr, of i labs] labels_ok_write [OF Cons.prems(2) wr, of i "[]"] rest(5) tr by simp_all
  with a m(1) bs wr cfg l1 tr rest(1-4) show ?case by (cases res) (auto simp: token_label_def)
qed

section \<open>Properties\<close>

text \<open>The socket history of a worker that has left: nothing opened, or one socket opened and then closed.\<close>

fun released :: "sock_ev list \<Rightarrow> bool" where
  "released [] = True"
| "released [Sock_open a, Sock_close] = True"
| "released [Sock_open a, Sock_iface ix, Sock_close] = True"
| "released _ = False"

lemma open_failed: "worker_open env cfg mc = (None, evs) \<Longrightarrow> released evs"
  by (auto simp: worker_open_def openMulticastEgress_def Let_def split: Mode.splits if_splits option.splits)

lemma open_done:
  "worker_open env cfg mc = (Some tr, evs) \<Longrightarrow>
   released (evs @ [Sock_close]) \<and> (tr = Mcast \<longleftrightarrow> c_Mode cfg = ModeDirectMulticast)"
  by (auto simp: worker_open_def openMulticastEgress_def Let_def split: Mode.splits if_splits option.splits)

lemma release_sent [simp]: "ln_sent (worker_release env l) = ln_sent l" "ln_tr (worker_release env l) = ln_tr l"
  by (simp_all add: worker_release_def)

lemma release_flushes:
  assumes "link_inv env mc cfg pool plain l" and "ln_tr l = Tcp" and "quiet (we_net env)"
  shows "bw_out (ln_buf (worker_release env l)) = concat (map snd (ln_sent l))"
proof -
  have l: "\<not> bw_err (ln_buf l)" "holds (concat (map snd (ln_sent l))) (ln_buf l)"
    using assms by (simp_all add: link_inv_def)
  obtain ok b where f: "bw_Flush (we_net env) (ln_buf l) = (ok, b)" by (metis surj_pair)
  have "\<not> bw_err b" using bw_Flush_ok [OF assms(3) l(1)] f by simp
  then show ?thesis
    using bw_Flush_holds [OF l(2) f] f assms(2) by (auto simp: worker_release_def holds_def)
qed

lemma link_new_inv:
  "(tr = Mcast \<longleftrightarrow> c_Mode cfg = ModeDirectMulticast) \<Longrightarrow> link_inv env mc cfg pool plain (link_new tr)"
  using holds_new by (auto simp: link_inv_def link_new_def) (simp add: bw_new_def)

lemma sent_good_new [simp]: "ln_sent (link_new tr) = []" "ln_tr (link_new tr) = tr"
  by (simp_all add: link_new_def)

lemma worker_life_good:
  assumes "frame_doc (we_frame env)" and "encode_doc (we_frame env)" and "txid_doc (we_obj env) tx_obj"
    and "r = sender_New cfg pool (Some a)" and "send_ok (r_cfg r) pool"
  shows "\<exists>li. worker_life env mc i seed ins fin r = Some li \<and> released (li_socks li) \<and>
     set (li_labels li) \<subseteq> {WDial i True, WDial i False, WRecv i, WSent i, WRetry i, WSockClosed i, fin} \<and>
     (\<exists>labs. li_labels li \<in> {[WDial i False], WDial i True # token_steps i labs, WDial i True # token_steps i labs @ [fin]} \<and>
        (if ln_tr (li_link li) = Tcp then quiet (we_net env) \<longrightarrow> labs = replicate (length labs) (WSent i)
         else labs = map (\<lambda>k. write_label i (we_dgram env k)) [0..<length labs])) \<and>
     list_all (sent_good env mc (r_cfg r) pool (\<not> GapEnabled a \<and> c_Mode cfg \<noteq> ModeDirectMulticast))
       (ln_sent (li_link li)) \<and>
     (ln_tr (li_link li) = Tcp \<and> quiet (we_net env) \<longrightarrow>
        bw_out (ln_buf (li_link li)) = concat (map snd (ln_sent (li_link li))))"
proof -
  let ?plain = "\<not> GapEnabled a \<and> c_Mode cfg \<noteq> ModeDirectMulticast"
  obtain tr evs where o: "worker_open env (r_cfg r) mc = (tr, evs)" by (metis surj_pair)
  show ?thesis
  proof (cases tr)
    case None
    have "li_labels \<lparr>li_socks = evs, li_labels = [WDial i False], li_link = link_new Udp\<rparr> = [WDial i False]" by simp
    with None o open_failed [of env "r_cfg r" mc evs] show ?thesis
      by (auto simp: worker_life_def intro!: exI [of _ "[]"])
  next
    case (Some t)
    with o have open': "released (evs @ [Sock_close])" "t = Mcast \<longleftrightarrow> c_Mode (r_cfg r) = ModeDirectMulticast"
      using open_done [of env "r_cfg r" mc t evs] by auto
    note new = link_new_inv [OF open'(2), of env mc pool ?plain]
    show ?thesis
    proof (cases seed)
      case None
      have "bw_out (ln_buf (worker_release env (link_new t))) = []" if "t = Tcp" "quiet (we_net env)"
        using release_flushes [OF new _ that(2)] that(1) by simp
      with o \<open>tr = Some t\<close> None open' show ?thesis by (auto simp: worker_life_def intro!: exI [of _ "[]"])
    next
      case (Some sd)
      note inv = worker_start_inv [of "we_frame env" cfg pool a i sd, folded assms(4)]
      obtain labs left l' where t: "worker_tokens env mc i ins r (worker_start (we_frame env) (r_cfg r) i sd) (link_new t) =
          Some (labs, left, l')" "link_inv env mc (r_cfg r) pool ?plain l'"
        "set labs \<subseteq> {WSent i, WRetry i, WSockClosed i}" "ln_tr l' = t" "labels_ok env i t 0 labs"
        using worker_tokens_good [OF assms(1-3,5) inv new, of i ins] by (auto simp: link_new_def)
      have fl: "ln_tr l' = Tcp \<and> quiet (we_net env) \<longrightarrow>
          bw_out (ln_buf (worker_release env l')) = concat (map snd (ln_sent l'))"
        using release_flushes [OF t(2)] by blast
      have sent: "list_all (sent_good env mc (r_cfg r) pool ?plain) (ln_sent l')"
        using t(2) by (simp add: link_inv_def)
      have labs: "set (token_steps i labs) \<subseteq> {WRecv i, WSent i, WRetry i, WSockClosed i}"
        using t(3) by (auto simp: token_steps_def)
      show ?thesis
        using o \<open>tr = Some t\<close> Some t(1,4,5) open'(1) fl sent labs
        by (auto simp: worker_life_def labels_ok_def intro!: exI [of _ labs])
    qed
  qed
qed

text \<open>C10: A worker's whole life is safe. With frame version 1 or 2 and a payload size between the minimum of its format
  and the protocol's 10 MiB, and whatever the dial, the system calls, the seed and the writes do, it never panics and never
  fails to build or encode a frame: every token it takes is spent on a write, and its step in the token protocol is what
  this write gave (on datagrams, of the \<open>k\<close>-th token by the \<open>k\<close>-th write; on a TCP connection that does not fail, always
  sent). It opens at most one socket and has closed it when it leaves, on every path; every frame it counts as sent is
  a good frame of the configuration, and in direct mode it went to the group selected by the TxID in its own header, the
  group its HashKey is computed from; and on a TCP connection that does not fail the stream at the end is exactly the
  frames counted, the buffered tail included.\<close>

theorem worker_life_safe:
  assumes "frame_doc (we_frame env)" and "encode_doc (we_frame env)" and "txid_doc (we_obj env) tx_obj"
    and "r = sender_New cfg pool (Some a)" and "send_ok (r_cfg r) pool"
  shows "\<exists>li. worker_life env mc i seed ins fin r = Some li \<and> released (li_socks li) \<and>
     set (li_labels li) \<subseteq> {WDial i True, WDial i False, WRecv i, WSent i, WRetry i, WSockClosed i, fin} \<and>
     (\<exists>labs. li_labels li \<in> {[WDial i False], WDial i True # token_steps i labs, WDial i True # token_steps i labs @ [fin]} \<and>
        (if ln_tr (li_link li) = Tcp then quiet (we_net env) \<longrightarrow> labs = replicate (length labs) (WSent i)
         else labs = map (\<lambda>k. write_label i (we_dgram env k)) [0..<length labs])) \<and>
     list_all (sent_good env mc (r_cfg r) pool (\<not> GapEnabled a \<and> c_Mode cfg \<noteq> ModeDirectMulticast))
       (ln_sent (li_link li)) \<and>
     (ln_tr (li_link li) = Tcp \<and> quiet (we_net env) \<longrightarrow>
        bw_out (ln_buf (li_link li)) = concat (map snd (ln_sent (li_link li))))"
  by (rule worker_life_good [OF assms])

text \<open>An environment in which everything succeeds, for the witnesses.\<close>

definition fair_env :: worker_env where
  "fair_env = \<lparr>we_frame = ref_frame, we_obj = ref_objfmt, we_hash = (\<lambda>src g sub. 0), we_target = ''proxy:8725'',
     we_dial = True, we_os = \<lparr>os_listen = True, os_udp = True, os_raw = True, os_control = True, os_setopt = True\<rparr>,
     we_ip = (\<lambda>_. ''fd20::2''), we_addr = (\<lambda>prefix group bits g port. ''group''), we_dgram = (\<lambda>k. W_ok),
     we_net = (\<lambda>k. None), we_gone = False\<rparr>"

definition fair_mc :: mcast where
  "fair_mc = \<lparr>mc_bind = replicate 16 1, mc_iface = Some 3, mc_prefix = 0xFF35, mc_group = 11, mc_port = 9001\<rparr>"

definition fair_runner :: "Mode \<Rightarrow> Runner" where
  "fair_runner m = sender_New (demo_cfg m) \<lparr>ids = [replicate 32 5]\<rparr> (Some demo_alloc)"

lemma fair_ok: "send_ok (r_cfg (fair_runner m)) \<lparr>ids = [replicate 32 5]\<rparr>"
  by (simp add: fair_runner_def sender_New_def send_ok_def demo_cfg_def MinPayloadSize_def MinEFSize_def Let_def)

lemma fair_docs: "frame_doc (we_frame fair_env)" "encode_doc (we_frame fair_env)" "txid_doc (we_obj fair_env) tx_obj"
  using ref_frame_doc ref_objfmt_txid by (simp_all add: fair_env_def)

theorem worker_life_safe_witness:
  "\<exists>li. worker_life fair_env fair_mc 1 (Some (replicate 32 0)) [(0, None, 0), (1, Some 3, 0)] (WCtx 1)
       (fair_runner ModeDirectMulticast) = Some li \<and> released (li_socks li) \<and>
     list_all (sent_good fair_env fair_mc (r_cfg (fair_runner ModeDirectMulticast)) \<lparr>ids = [replicate 32 5]\<rparr> False)
       (ln_sent (li_link li))"
proof -
  have "c_Mode (demo_cfg ModeDirectMulticast) = ModeDirectMulticast" by (simp add: demo_cfg_def)
  with worker_life_safe [OF fair_docs fair_runner_def [of ModeDirectMulticast] fair_ok, of fair_mc 1
      "Some (replicate 32 0)" "[(0, None, 0), (1, Some 3, 0)]" "WCtx 1"]
  show ?thesis by auto
qed

lemma fair_life:
  "\<exists>li. worker_life fair_env fair_mc 0 (Some (replicate 32 0)) [(0, None, 0)] (WCtx 0) (fair_runner ModeUnicast) = Some li"
proof -
  let ?r = "fair_runner ModeUnicast"
  have cfg: "c_Mode (r_cfg ?r) = ModeUnicast" "c_TCP (r_cfg ?r)"
    by (simp_all add: fair_runner_def sender_New_def demo_cfg_def Let_def)
  have o: "worker_open fair_env (r_cfg ?r) fair_mc = (Some Tcp, [Sock_open ''proxy:8725''])"
    using cfg by (simp add: worker_open_def fair_env_def)
  have n: "link_inv fair_env fair_mc (r_cfg ?r) \<lparr>ids = [replicate 32 5]\<rparr> False (link_new Tcp)"
    by (rule link_new_inv) (simp add: cfg)
  have inv: "worker_inv (we_frame fair_env) (r_cfg ?r) \<lparr>ids = [replicate 32 5]\<rparr> False 0 ?r
      (worker_start (we_frame fair_env) (r_cfg ?r) 0 (replicate 32 0))"
    using worker_start_inv [of "we_frame fair_env" "demo_cfg ModeUnicast" "\<lparr>ids = [replicate 32 5]\<rparr>" demo_alloc 0
        "replicate 32 0", folded fair_runner_def] by (simp add: worker_inv_def worker_ok_def)
  from worker_tokens_good [OF fair_docs fair_ok inv n, of 0 "[(0, None, 0)]"] obtain labs lft l' where
    "worker_tokens fair_env fair_mc 0 [(0, None, 0)] ?r (worker_start (we_frame fair_env) (r_cfg ?r) 0 (replicate 32 0))
       (link_new Tcp) = Some (labs, lft, l')" by blast
  with o show ?thesis by (simp add: worker_life_def)
qed

text \<open>A worker follows the token protocol of the run. From any state of a run in which worker \<open>i\<close> has not
  started and the channel holds its tokens, the steps of its life are steps of the protocol, one after the
  other, up to its return; and the run's sent counter has gained exactly the frames the worker put on the
  wire.\<close>

theorem worker_refines_run:
  assumes "worker_life env mc i seed ins fin r = Some li" and "at_pc s i W_start" and "length ins \<le> chan s"
    and "fin = WCtx i \<and> cancelled s \<or> fin = WClosed i \<and> closed s \<and> chan s = length ins"
  shows "\<exists>s'. run_path cnt cap (li_labels li) s = Some s' \<and> at_pc s' i W_exit \<and>
     n_sent s' = n_sent s + length (ln_sent (li_link li))"
proof -
  have i: "i < length (wks s)" using assms(2) by (simp add: at_pc_def)
  consider (left) "li_labels li = [WDial i False]" "ln_sent (li_link li) = []"
    | (ran) labs lft l' w t where "li_labels li = WDial i True # token_steps i labs @ (if lft then [] else [fin])"
        "ln_sent (li_link li) = ln_sent l'" "worker_tokens env mc i ins r w (link_new t) = Some (labs, lft, l')"
    using assms(1) by (auto simp: worker_life_def split: prod.splits option.splits)
  then show ?thesis
  proof cases
    case left
    then show ?thesis using assms(2) i by (simp add: at_pc_def move_def)
  next
    case ran
    define s0 where "s0 = move i W_idle s"
    have s0: "at_pc s0 i W_idle" "length ins \<le> chan s0" "n_sent s0 = n_sent s" "closed s0 = closed s"
      "cancelled s0 = cancelled s" "chan s0 = chan s"
      using assms(3) i by (simp_all add: s0_def at_pc_def move_def)
    obtain s1 where s1: "run_path cnt cap (token_steps i labs) s0 = Some s1" "at_pc s1 i (if lft then W_exit else W_idle)"
      "\<not> lft \<longrightarrow> chan s1 + length ins = chan s0" "n_sent s1 = n_sent s0 + length (ln_sent l')"
      "closed s1 = closed s0" "cancelled s1 = cancelled s0"
      using worker_tokens_run [OF ran(3) s0(1,2), of cnt cap] by auto
    have start: "run_path cnt cap (WDial i True # xs) s = run_path cnt cap xs s0" for xs
      using assms(2) by (simp add: s0_def)
    show ?thesis
    proof (cases lft)
      case True
      then show ?thesis using ran(1,2) s0 s1 start by (intro exI [of _ s1]) simp
    next
      case False
      then have "run_step cnt cap fin s1 = Some (move i W_exit s1)"
        using assms(4) s0 s1 by auto
      moreover have "i < length (wks s1)" using s1(2) by (simp add: at_pc_def)
      ultimately show ?thesis
        using False ran(1,2) s0(3) s1(1,4) start
        by (intro exI [of _ "move i W_exit s1"]) (simp add: run_path_append at_pc_def, simp add: move_def)
    qed
  qed
qed

theorem worker_refines_run_witness:
  "\<exists>li s'. worker_life fair_env fair_mc 0 (Some (replicate 32 0)) [(0, None, 0)] (WCtx 0) (fair_runner ModeUnicast) = Some li \<and>
     run_path 10 2 (li_labels li) (run_init 1\<lparr>issued := 1, chan := 1, cancelled := True\<rparr>) = Some s' \<and>
     n_sent s' = length (ln_sent (li_link li))"
proof -
  let ?s = "run_init 1\<lparr>issued := 1, chan := 1, cancelled := True\<rparr>"
  obtain li where li: "worker_life fair_env fair_mc 0 (Some (replicate 32 0)) [(0, None, 0)] (WCtx 0)
      (fair_runner ModeUnicast) = Some li" using fair_life by blast
  have s: "at_pc ?s 0 W_start" "length [(0 :: int, None :: byte option, 0 :: nat)] \<le> chan ?s"
    "WCtx 0 = WCtx 0 \<and> cancelled ?s \<or> WCtx 0 = WClosed 0 \<and> closed ?s \<and> chan ?s = length [(0 :: int, None :: byte option, 0 :: nat)]"
    "n_sent ?s = 0"
    by (simp_all add: run_init_def at_pc_def)
  from worker_refines_run [OF li s(1-3), of 10 2] s(4) li show ?thesis by auto
qed

end
