(* ===== verification/Seq_Conc.thy ===== *)
theory Seq_Conc
  imports Seq
begin

text \<open>
  The allocator of \<open>internal/seq\<close> shared by many workers. \<open>Next\<close> is broken into its atomic
  operations: the fetch-and-add of \<open>next\<close>, the add of \<open>counter\<close> with its divisibility test, one
  fetch-and-add per skipped number, and the mutex-protected append; \<open>DueRetransmits\<close> runs under the
  mutex and is one step. Workers interleave in any order. The invariant accounts for every number
  ever taken from the counter; uniqueness follows. A worker running alone performs exactly the
  sequential \<open>Next\<close>.
\<close>

section \<open>States and steps\<close>

datatype next_pc =
    Idle
  | Fetched u64
  | Skipping u64 "u64 list"

record next_sys =
  sh :: Allocator
  pcs :: "next_pc list"
  rets :: "(nat \<times> u64) list"
  resent :: "u64 list"
  dropped :: "u64 list"
  taken :: nat

definition next_init :: "Config \<Rightarrow> nat \<Rightarrow> next_sys" where
  "next_init cfg n =
     \<lparr>sh = seq_New cfg, pcs = replicate n Idle, rets = [], resent = [], dropped = [], taken = 0\<rparr>"

inductive next_step :: "next_sys \<Rightarrow> next_sys \<Rightarrow> bool" where
  fetch_plain: "w < length (pcs s) \<Longrightarrow> pcs s ! w = Idle \<Longrightarrow> \<not> GapEnabled (sh s) \<Longrightarrow>
     fetch_next (sh s) = (v, a) \<Longrightarrow>
     next_step s (s\<lparr>sh := a, rets := (w, v) # rets s, taken := Suc (taken s)\<rparr>)"
| fetch_gap: "w < length (pcs s) \<Longrightarrow> pcs s ! w = Idle \<Longrightarrow> GapEnabled (sh s) \<Longrightarrow>
     fetch_next (sh s) = (v, a) \<Longrightarrow>
     next_step s (s\<lparr>sh := a, pcs := (pcs s)[w := Fetched v], taken := Suc (taken s)\<rparr>)"
| count_pass: "w < length (pcs s) \<Longrightarrow> pcs s ! w = Fetched v \<Longrightarrow>
     n = counter (sh s) + 1 \<Longrightarrow> n mod gapEvery (sh s) \<noteq> 0 \<Longrightarrow>
     next_step s (s\<lparr>sh := (sh s)\<lparr>counter := n\<rparr>, pcs := (pcs s)[w := Idle],
                    rets := (w, v) # rets s\<rparr>)"
| count_gap: "w < length (pcs s) \<Longrightarrow> pcs s ! w = Fetched v \<Longrightarrow>
     n = counter (sh s) + 1 \<Longrightarrow> n mod gapEvery (sh s) = 0 \<Longrightarrow>
     next_step s (s\<lparr>sh := (sh s)\<lparr>counter := n\<rparr>, pcs := (pcs s)[w := Skipping v []]\<rparr>)"
| skip_one: "w < length (pcs s) \<Longrightarrow> pcs s ! w = Skipping v g \<Longrightarrow>
     length g < unat (gapSize (sh s)) \<Longrightarrow> fetch_next (sh s) = (x, a) \<Longrightarrow>
     next_step s (s\<lparr>sh := a, pcs := (pcs s)[w := Skipping v (g @ [x])], taken := Suc (taken s)\<rparr>)"
| queue_gap: "w < length (pcs s) \<Longrightarrow> pcs s ! w = Skipping v g \<Longrightarrow>
     \<not> length g < unat (gapSize (sh s)) \<Longrightarrow> 0 < gapDelay (sh s) \<Longrightarrow>
     next_step s (s\<lparr>sh := (sh s)\<lparr>pending := pending (sh s) @
                             [\<lparr>seqs = g, dueAt = now + gapDelay (sh s)\<rparr>]\<rparr>,
                    pcs := (pcs s)[w := Idle], rets := (w, v) # rets s\<rparr>)"
| drop_gap: "w < length (pcs s) \<Longrightarrow> pcs s ! w = Skipping v g \<Longrightarrow>
     \<not> length g < unat (gapSize (sh s)) \<Longrightarrow> \<not> 0 < gapDelay (sh s) \<Longrightarrow>
     next_step s (s\<lparr>pcs := (pcs s)[w := Idle], rets := (w, v) # rets s, dropped := g @ dropped s\<rparr>)"
| resend: "DueRetransmits now (sh s) = (due, a) \<Longrightarrow>
     next_step s (s\<lparr>sh := a, resent := resent s @ due\<rparr>)"

inductive next_reach :: "Config \<Rightarrow> nat \<Rightarrow> next_sys \<Rightarrow> bool" for cfg n where
  next_start: "next_reach cfg n (next_init cfg n)"
| next_more: "next_reach cfg n s \<Longrightarrow> next_step s t \<Longrightarrow> next_reach cfg n t"

section \<open>Every number is accounted for\<close>

primrec held :: "next_pc \<Rightarrow> u64 list" where
  "held Idle = []"
| "held (Fetched v) = [v]"
| "held (Skipping v g) = v # g"

definition all_numbers :: "next_sys \<Rightarrow> u64 list" where
  "all_numbers s =
     map snd (rets s) @ concat (map held (pcs s)) @ queued (sh s) @ resent s @ dropped s"

definition next_inv :: "u64 \<Rightarrow> next_sys \<Rightarrow> bool" where
  "next_inv start s \<longleftrightarrow>
     a_next (sh s) = start + word_of_nat (taken s) \<and>
     mset (all_numbers s) = mset (map (\<lambda>i. start + word_of_nat i) [0..<taken s])"

lemma mset_held_update:
  assumes "w < length ps"
  shows "mset (concat (map held (ps[w := p]))) + mset (held (ps ! w)) =
         mset (concat (map held ps)) + mset (held p)"
  using assms
proof (induction ps arbitrary: w)
  case Nil
  then show ?case by simp
next
  case (Cons q ps)
  then show ?case by (cases w) (auto simp: ac_simps)
qed

text \<open>Moving worker \<open>w\<close> from \<open>ps ! w\<close> to \<open>p\<close> adds the numbers of \<open>p\<close> and removes those it held.\<close>

lemma mset_held_moves:
  assumes "w < length ps"
  shows "ps ! w = Idle \<Longrightarrow> mset (concat (map held (ps[w := p]))) = mset (held p) + mset (concat (map held ps))"
    and "ps ! w = Fetched v \<Longrightarrow>
       add_mset v (mset (concat (map held (ps[w := Idle])))) = mset (concat (map held ps))"
    and "ps ! w = Fetched v \<Longrightarrow>
       mset (concat (map held (ps[w := Skipping v []]))) = mset (concat (map held ps))"
    and "ps ! w = Skipping v g \<Longrightarrow>
       mset (concat (map held (ps[w := Skipping v (g @ [x])]))) = add_mset x (mset (concat (map held ps)))"
    and "ps ! w = Skipping v g \<Longrightarrow>
       add_mset v (mset (concat (map held (ps[w := Idle])))) + mset g = mset (concat (map held ps))"
  using mset_held_update [OF assms, of p] mset_held_update [OF assms, of Idle]
    mset_held_update [OF assms, of "Skipping v []"]
    mset_held_update [OF assms, of "Skipping v (g @ [x])"]
  by (auto simp: ac_simps)

lemma next_inv_init: "next_inv (a_next (seq_New cfg)) (next_init cfg n)"
  by (simp add: next_inv_def next_init_def all_numbers_def queued_def seq_New_def)

lemma next_inv_step:
  assumes "next_step s t" and "next_inv start s"
  shows "next_inv start t"
  using assms
proof (induction rule: next_step.induct)
  case (fetch_plain w s v a)
  then show ?case
    by (auto simp: next_inv_def all_numbers_def fetch_next_eq queued_def ac_simps)
next
  case (fetch_gap w s v a)
  then show ?case
    using mset_held_moves(1) [OF fetch_gap(1,2), of "Fetched v"]
    by (auto simp: next_inv_def all_numbers_def fetch_next_eq queued_def ac_simps)
next
  case (count_pass w s v n)
  then show ?case
    using mset_held_moves(2) [OF count_pass(1,2), symmetric]
    by (auto simp: next_inv_def all_numbers_def queued_def ac_simps)
next
  case (count_gap w s v n)
  then show ?case
    using mset_held_moves(3) [OF count_gap(1,2)]
    by (auto simp: next_inv_def all_numbers_def queued_def ac_simps)
next
  case (skip_one w s v g x a)
  then show ?case
    using mset_held_moves(4) [OF skip_one(1,2), of x]
    by (auto simp: next_inv_def all_numbers_def fetch_next_eq queued_def ac_simps)
next
  case (queue_gap w s v g now)
  then show ?case
    using mset_held_moves(5) [OF queue_gap(1,2), symmetric]
    by (auto simp: next_inv_def all_numbers_def queued_def ac_simps)
next
  case (drop_gap w s v g)
  then show ?case
    using mset_held_moves(5) [OF drop_gap(1,2), symmetric]
    by (auto simp: next_inv_def all_numbers_def queued_def ac_simps)
next
  case (resend now s due a)
  then show ?case
    using mset_due_split [of seqs now "pending (sh s)"]
    by (auto simp: next_inv_def all_numbers_def queued_def DueRetransmits_filter ac_simps)
qed

lemma next_reach_inv: "next_reach cfg n s \<Longrightarrow> next_inv (a_next (seq_New cfg)) s"
  by (induction rule: next_reach.induct) (auto intro: next_inv_init next_inv_step)

lemma distinct_block:
  assumes "m \<le> 2 ^ 64"
  shows "distinct (map (\<lambda>i. start + word_of_nat i :: u64) [0..<m])"
proof -
  have "inj_on (\<lambda>i. start + word_of_nat i :: u64) {0..<m}"
  proof (rule inj_onI)
    fix i j assume "i \<in> {0..<m}" "j \<in> {0..<m}"
      and "start + word_of_nat i = start + (word_of_nat j :: u64)"
    then show "i = j" using assms by (simp add: word_of_nat_eq_iff take_bit_nat_eq_self)
  qed
  then show ?thesis by (simp add: distinct_map)
qed

section \<open>A worker alone performs the sequential call\<close>

lemma skip_loop:
  assumes "w < length (pcs s)" "pcs s ! w = Skipping v g"
    and "length g + k = unat (gapSize (sh s))"
  shows "next_step\<^sup>*\<^sup>* s (s\<lparr>sh := snd (reserve k (sh s)),
            pcs := (pcs s)[w := Skipping v (g @ fst (reserve k (sh s)))], taken := taken s + k\<rparr>)"
  using assms
proof (induction k arbitrary: s g)
  case 0
  then have "(pcs s)[w := Skipping v g] = pcs s" by (metis list_update_id)
  then show ?case by simp
next
  case (Suc k)
  let ?x = "a_next (sh s)" and ?a = "(sh s)\<lparr>a_next := a_next (sh s) + 1\<rparr>"
  let ?t = "s\<lparr>sh := ?a, pcs := (pcs s)[w := Skipping v (g @ [?x])], taken := Suc (taken s)\<rparr>"
  have "next_step s ?t"
    by (rule next_step.skip_one) (use Suc.prems in \<open>simp_all add: fetch_next_eq\<close>)
  moreover have "next_step\<^sup>*\<^sup>* ?t (?t\<lparr>sh := snd (reserve k (sh ?t)),
      pcs := (pcs ?t)[w := Skipping v ((g @ [?x]) @ fst (reserve k (sh ?t)))], taken := taken ?t + k\<rparr>)"
    by (rule Suc.IH) (use Suc.prems in simp_all)
  ultimately show ?case
    by (simp add: fetch_next_eq case_prod_beta converse_rtranclp_into_rtranclp)
qed


definition after_Next :: "int \<Rightarrow> nat \<Rightarrow> next_sys \<Rightarrow> next_sys" where
  "after_Next now w s =
     s\<lparr>sh := snd (Allocator_Next now (sh s)),
       rets := (w, fst (Allocator_Next now (sh s))) # rets s,
       dropped := (if 0 < gapDelay (sh s) then dropped s else gap_numbers (sh s) @ dropped s),
       taken := taken s + 1 + length (gap_numbers (sh s))\<rparr>"

lemma Next_atomic_steps:
  assumes w: "w < length (pcs s)" "pcs s ! w = Idle"
  shows "next_step\<^sup>*\<^sup>* s (after_Next now w s)"
proof (cases "GapEnabled (sh s)")
  case False
  have "next_step s (s\<lparr>sh := (sh s)\<lparr>a_next := a_next (sh s) + 1\<rparr>,
      rets := (w, a_next (sh s)) # rets s, taken := Suc (taken s)\<rparr>)"
    by (rule next_step.fetch_plain) (use w False in \<open>simp_all add: fetch_next_eq\<close>)
  then show ?thesis
    using False by (simp add: after_Next_def Allocator_Next_closed gap_numbers_def gap_now_def)
next
  case True
  let ?v = "a_next (sh s)" and ?c = "counter (sh s) + 1"
  define s1 where "s1 = s\<lparr>sh := (sh s)\<lparr>a_next := ?v + 1\<rparr>, pcs := (pcs s)[w := Fetched ?v],
      taken := Suc (taken s)\<rparr>"
  have st1: "next_step s s1"
    unfolding s1_def by (rule next_step.fetch_gap) (use w True in \<open>simp_all add: fetch_next_eq\<close>)
  have w1: "w < length (pcs s1)" "pcs s1 ! w = Fetched ?v" using w by (simp_all add: s1_def)
  have same: "(pcs s)[w := Idle] = pcs s" using w by (metis list_update_id)
  show ?thesis
  proof (cases "gap_now (sh s)")
    case False
    have "next_step s1 (s1\<lparr>sh := (sh s1)\<lparr>counter := ?c\<rparr>, pcs := (pcs s1)[w := Idle],
        rets := (w, ?v) # rets s1\<rparr>)"
      by (rule next_step.count_pass) (use w1 False True in \<open>simp_all add: s1_def gap_now_def\<close>)
    with st1 have "next_step\<^sup>*\<^sup>* s (s1\<lparr>sh := (sh s1)\<lparr>counter := ?c\<rparr>, pcs := (pcs s1)[w := Idle],
        rets := (w, ?v) # rets s1\<rparr>)" by simp
    moreover have "s1\<lparr>sh := (sh s1)\<lparr>counter := ?c\<rparr>, pcs := (pcs s1)[w := Idle],
        rets := (w, ?v) # rets s1\<rparr> = after_Next now w s"
      using False True same
      by (simp add: after_Next_def Allocator_Next_closed gap_numbers_def s1_def)
    ultimately show ?thesis by (simp only:)
  next
    case gap: True
    define s2 where "s2 = s1\<lparr>sh := (sh s1)\<lparr>counter := ?c\<rparr>, pcs := (pcs s1)[w := Skipping ?v []]\<rparr>"
    have st2: "next_step s1 s2"
      unfolding s2_def
      by (rule next_step.count_gap) (use w1 gap in \<open>simp_all add: s1_def gap_now_def\<close>)
    let ?k = "unat (gapSize (sh s))"
    define s3 where "s3 = s2\<lparr>sh := snd (reserve ?k (sh s2)),
        pcs := (pcs s2)[w := Skipping ?v ([] @ fst (reserve ?k (sh s2)))], taken := taken s2 + ?k\<rparr>"
    have st3: "next_step\<^sup>*\<^sup>* s2 s3"
      unfolding s3_def by (rule skip_loop) (use w in \<open>simp_all add: s2_def s1_def\<close>)
    have g: "fst (reserve ?k (sh s2)) = gap_numbers (sh s)"
      using gap by (simp add: s2_def s1_def reserve_closed gap_numbers_def)
    have w3: "w < length (pcs s3)" "pcs s3 ! w = Skipping ?v (gap_numbers (sh s))"
      "length (gap_numbers (sh s)) = ?k"
      using w gap by (simp_all add: s3_def s2_def s1_def g [unfolded s2_def s1_def, simplified] gap_numbers_def reserve_closed)
    have st4: "next_step s3 (after_Next now w s)"
    proof (cases "0 < gapDelay (sh s)")
      case True
      have "next_step s3 (s3\<lparr>sh := (sh s3)\<lparr>pending := pending (sh s3) @
                [\<lparr>seqs = gap_numbers (sh s), dueAt = now + gapDelay (sh s3)\<rparr>]\<rparr>,
              pcs := (pcs s3)[w := Idle], rets := (w, ?v) # rets s3\<rparr>)"
        by (rule next_step.queue_gap)
          (use w3 True in \<open>simp_all add: s3_def s2_def s1_def reserve_closed\<close>)
      moreover have "s3\<lparr>sh := (sh s3)\<lparr>pending := pending (sh s3) @
                [\<lparr>seqs = gap_numbers (sh s), dueAt = now + gapDelay (sh s3)\<rparr>]\<rparr>,
              pcs := (pcs s3)[w := Idle], rets := (w, ?v) # rets s3\<rparr> = after_Next now w s"
        using True gap w3(3) same
        by (simp add: after_Next_def Allocator_Next_closed s3_def s2_def s1_def reserve_closed gap_now_def)
      ultimately show ?thesis by (simp only:)
    next
      case False
      have "next_step s3 (s3\<lparr>pcs := (pcs s3)[w := Idle], rets := (w, ?v) # rets s3,
              dropped := gap_numbers (sh s) @ dropped s3\<rparr>)"
        by (rule next_step.drop_gap)
          (use w3 False in \<open>simp_all add: s3_def s2_def s1_def reserve_closed\<close>)
      moreover have "s3\<lparr>pcs := (pcs s3)[w := Idle], rets := (w, ?v) # rets s3,
              dropped := gap_numbers (sh s) @ dropped s3\<rparr> = after_Next now w s"
        using False gap w3(3) same
        by (simp add: after_Next_def Allocator_Next_closed s3_def s2_def s1_def reserve_closed gap_now_def)
      ultimately show ?thesis by (simp only:)
    qed
    show ?thesis
      using st1 st2 st3 st4 by (meson converse_rtranclp_into_rtranclp rtranclp.rtrancl_into_rtrancl)
  qed
qed

section \<open>Properties\<close>

text \<open>C4: No number is ever handed out twice, under any interleaving of any number of workers calling
  \<open>Next\<close> while \<open>DueRetransmits\<close> drains the queue: before the 64-bit counter wraps, the numbers
  returned, those held by calls in progress, those queued, those resent and those dropped for a
  permanent gap are pairwise different and are together exactly the contiguous range the counter
  has passed.\<close>

theorem concurrent_numbers_unique:
  assumes "next_reach cfg n s" and "taken s \<le> 2 ^ 64"
  shows "distinct (all_numbers s) \<and>
         set (all_numbers s) = (\<lambda>i. a_next (seq_New cfg) + word_of_nat i) ` {0..<taken s}"
proof -
  have m: "mset (all_numbers s) = mset (map (\<lambda>i. a_next (seq_New cfg) + word_of_nat i) [0..<taken s])"
    using next_reach_inv [OF assms(1)] by (simp add: next_inv_def)
  then have "distinct (all_numbers s)"
    using distinct_block [OF assms(2)] mset_eq_imp_distinct_iff by blast
  moreover have "set (all_numbers s) = set (map (\<lambda>i. a_next (seq_New cfg) + word_of_nat i) [0..<taken s])"
    using m by (rule mset_eq_setD)
  ultimately show ?thesis by simp
qed

theorem concurrent_numbers_unique_witness:
  "\<exists>s. next_reach \<lparr>Start = 5, GapEvery = 1, GapSize = 2, GapDelay = 9\<rparr> 2 s \<and> taken s = 2 \<and>
       distinct (all_numbers s)"
proof -
  let ?cfg = "\<lparr>Start = 5, GapEvery = 1, GapSize = 2, GapDelay = 9\<rparr> :: Config"
  let ?s0 = "next_init ?cfg 2"
  let ?s1 = "?s0\<lparr>sh := (sh ?s0)\<lparr>a_next := 6\<rparr>, pcs := (pcs ?s0)[0 := Fetched 5], taken := Suc (taken ?s0)\<rparr>"
  let ?s2 = "?s1\<lparr>sh := (sh ?s1)\<lparr>a_next := 7\<rparr>, pcs := (pcs ?s1)[1 := Fetched 6], taken := Suc (taken ?s1)\<rparr>"
  have 1: "next_reach ?cfg 2 ?s1"
    by (rule next_more [OF next_start], rule next_step.fetch_gap)
      (simp_all add: next_init_def seq_New_def GapEnabled_def fetch_next_eq)
  have 2: "next_reach ?cfg 2 ?s2"
    by (rule next_more [OF 1], rule next_step.fetch_gap)
      (simp_all add: next_init_def seq_New_def GapEnabled_def fetch_next_eq nth_Cons')
  have "taken ?s2 = 2" by (simp add: next_init_def)
  with 2 concurrent_numbers_unique [OF 2] show ?thesis by auto
qed

text \<open>C5: The atomic model refines to the sequential method: an idle worker whose operations are not
  interleaved with others reaches exactly the state in which the sequential \<open>Next\<close> has run once,
  having returned its result, queued its gap (delayed gaps) or dropped it (permanent gaps).\<close>

theorem Next_refines_sequential:
  assumes "w < length (pcs s)" and "pcs s ! w = Idle"
  shows "\<exists>t. next_step\<^sup>*\<^sup>* s t \<and> sh t = snd (Allocator_Next now (sh s)) \<and> pcs t = pcs s \<and>
           rets t = (w, fst (Allocator_Next now (sh s))) # rets s \<and>
           dropped t = (if 0 < gapDelay (sh s) then [] else gap_numbers (sh s)) @ dropped s"
  using Next_atomic_steps [OF assms, of now]
  by (intro exI [of _ "after_Next now w s"]) (simp add: after_Next_def)

theorem Next_refines_sequential_witness:
  "\<exists>t. next_step\<^sup>*\<^sup>* (next_init \<lparr>Start = 5, GapEvery = 1, GapSize = 2, GapDelay = 0\<rparr> 3) t \<and>
       rets t = [(1, 5)] \<and> dropped t = [6, 7]"
proof -
  have two: "[0..<2] = [0, 1 :: nat]" by (simp add: upt_rec)
  show ?thesis
    using Next_refines_sequential [of 1 "next_init \<lparr>Start = 5, GapEvery = 1, GapSize = 2, GapDelay = 0\<rparr> 3" 0]
    by (simp add: next_init_def seq_New_def gap_numbers_def gap_now_def GapEnabled_def two) blast
qed

end
