(* ===== verification/Sender_Fleet.thy ===== *)
theory Sender_Fleet
  imports Sender_Worker Seq_Conc
begin

text \<open>
  \<open>internal/sender\<close>, fifth part: all workers of a run together. They share the token channel and the counters
  (the protocol of \<open>Sender_Run\<close>), the pointer \<open>r.pfa\<close>, the per-flow allocators behind it and the plain
  allocator; everything else is their own. A step is one access to what is shared. \<open>r.pfa\<close> is read without a
  lock, so in direct mode several workers can each install an allocator; \<open>PerFlowAllocator.Next\<close> holds its
  mutex only to look the flow up, so the calls of one flow interleave as in \<open>Seq_Conc\<close>. An allocator
  object is a number; the flows of an object it has not met yet are fresh.
\<close>

section \<open>State\<close>

text \<open>
  How far a worker is with its token: it holds the TxID it will send and is about to look at \<open>r.pfa\<close>, to look
  again (the lazy branch), to install an allocator, to read the pointer, to draw from the plain allocator, or
  is inside \<open>Next\<close> of an object; or the frame is made (or has failed) and waits to be written, with the
  number it was stamped with.
\<close>

type_synonym stamp = "nat \<times> FlowKey \<times> u64"

datatype phase =
  Ph_none | Ph_look bytes | Ph_check bytes | Ph_store bytes | Ph_read bytes | Ph_plain bytes | Ph_next nat bytes
  | Ph_out frame_result "stamp option"

record fworker =
  fw_w :: Worker
  fw_l :: link
  fw_ph :: phase

text \<open>
  \<open>fl_wire\<close> lists the frames counted as sent, for the proofs: by whom, stamped from where, and the datagram or
  the bytes written. A frame is counted when its write was accepted; on a TCP connection its bytes may then still
  be in the buffer, and are lost when the connection fails before they are flushed.
\<close>

record fleet =
  fl_run :: run_sys
  fl_pfa :: "nat option"
  fl_made :: nat
  fl_alloc :: "nat \<Rightarrow> FlowKey \<Rightarrow> next_sys"
  fl_plain :: Allocator
  fl_ws :: "fworker list"
  fl_wire :: "(nat \<times> stamp option \<times> string option \<times> bytes) list"

definition fleet_size :: "Runner \<Rightarrow> nat" where
  "fleet_size r = nat (c_Workers (r_cfg r))"

text \<open>The configuration of the per-flow allocator of the run, given or to be made.\<close>

definition flow_cfg :: "Runner \<Rightarrow> Config" where
  "flow_cfg r = (case r_pfa r of Some p \<Rightarrow> pf_cfg p | None \<Rightarrow> \<lparr>Start = 1, GapEvery = 0, GapSize = 0, GapDelay = 0\<rparr>)"

text \<open>The slot of a worker that has not started; nothing is read from it before its dial fills it.\<close>

definition empty_slot :: "frame_pkg \<Rightarrow> Runner \<Rightarrow> nat \<Rightarrow> fworker" where
  "empty_slot P r i =
     \<lparr>fw_w = worker_start P (r_cfg r) i (replicate 32 0),
      fw_l = link_new (if c_Mode (r_cfg r) = ModeDirectMulticast then Mcast else Udp), fw_ph = Ph_none\<rparr>"

definition fleet_init :: "(nat \<Rightarrow> worker_env) \<Rightarrow> Runner \<Rightarrow> fleet" where
  "fleet_init E r =
     \<lparr>fl_run = run_init (c_Workers (r_cfg r)),
      fl_pfa = (case r_pfa r of None \<Rightarrow> None | Some _ \<Rightarrow> Some 0),
      fl_made = (case r_pfa r of None \<Rightarrow> 0 | Some _ \<Rightarrow> 1),
      fl_alloc = (\<lambda>p k. next_init (flow_cfg r) (fleet_size r)),
      fl_plain = the (r_alloc r),
      fl_ws = map (\<lambda>i. empty_slot (we_frame (E i)) r i) [0..<fleet_size r],
      fl_wire = []\<rparr>"

section \<open>Steps\<close>

text \<open>A step of the allocator made by worker \<open>i\<close>: only its own call moves or returns.\<close>

definition own_step :: "nat \<Rightarrow> next_sys \<Rightarrow> next_sys \<Rightarrow> bool" where
  "own_step i a b \<longleftrightarrow> next_step a b \<and> (\<forall>j. j \<noteq> i \<longrightarrow> pcs b ! j = pcs a ! j) \<and>
     (pcs b ! i \<noteq> pcs a ! i \<and> rets b = rets a \<or> (\<exists>v. rets b = (i, v) # rets a))"

definition put_w :: "nat \<Rightarrow> fworker \<Rightarrow> fleet \<Rightarrow> fleet" where
  "put_w i fw s = s\<lparr>fl_ws := (fl_ws s)[i := fw]\<rparr>"

definition to_phase :: "nat \<Rightarrow> phase \<Rightarrow> fleet \<Rightarrow> fleet" where
  "to_phase i ph s = put_w i ((fl_ws s ! i)\<lparr>fw_ph := ph\<rparr>) s"

definition in_phase :: "nat \<Rightarrow> phase \<Rightarrow> fleet \<Rightarrow> bool" where
  "in_phase i ph s \<longleftrightarrow> i < length (fl_ws s) \<and> fw_ph (fl_ws s ! i) = ph"

text \<open>A step of the token protocol; the capacity is that of the channel \<open>Run\<close> makes.\<close>

definition protocol :: "Runner \<Rightarrow> run_label \<Rightarrow> fleet \<Rightarrow> run_sys \<Rightarrow> bool" where
  "protocol r l s t \<longleftrightarrow> run_step (c_Count (r_cfg r)) (nat (c_Workers (r_cfg r) * 2)) l (fl_run s) = Some t"

definition emit :: "worker_env \<Rightarrow> mcast \<Rightarrow> Runner \<Rightarrow> u64 option \<Rightarrow> bytes \<Rightarrow> Worker \<Rightarrow> frame_result \<times> Worker" where
  "emit env mc r sq txid w =
     emit_frame (we_frame env) (we_hash env) (srcIPv6 (r_cfg r) mc) (r_cfg r) (flow_of (r_cfg r) (r_pool r) txid) sq txid w"

definition write_out ::
  "worker_env \<Rightarrow> mcast \<Rightarrow> Runner \<Rightarrow> nat \<Rightarrow> frame_result \<Rightarrow> fworker \<Rightarrow> write_result \<times> link" where
  "write_out env mc r qd f fw =
     (case f of
        Built bs \<Rightarrow>
          worker_write env (r_cfg r) mc (groupIdx (c_ShardBits (r_cfg r)) (f_TxID (w_frame (fw_w fw)))) qd bs (fw_l fw)
      | _ \<Rightarrow> (W_ok, fw_l fw))"

inductive fleet_step :: "(nat \<Rightarrow> worker_env) \<Rightarrow> mcast \<Rightarrow> Runner \<Rightarrow> fleet \<Rightarrow> fleet \<Rightarrow> bool"
  for E mc r where
  dispatch: "l \<in> {Cancel, DCheck, DPace, DSend, DCtx, DAdd} \<Longrightarrow> protocol r l s t \<Longrightarrow>
     fleet_step E mc r s (s\<lparr>fl_run := t\<rparr>)"
| no_start: "protocol r (WDial i False) s t \<Longrightarrow> fleet_step E mc r s (s\<lparr>fl_run := t\<rparr>)"
| start: "protocol r (WDial i True) s t \<Longrightarrow> worker_open (E i) (r_cfg r) mc = (Some tr, evs) \<Longrightarrow>
     fleet_step E mc r s (put_w i \<lparr>fw_w = worker_start (we_frame (E i)) (r_cfg r) i seed, fw_l = link_new tr,
        fw_ph = Ph_none\<rparr> (s\<lparr>fl_run := t\<rparr>))"
| receive: "protocol r (WRecv i) s t \<Longrightarrow> in_phase i Ph_none s \<Longrightarrow>
     take_payload (we_obj (E i)) (r_cfg r) rnd (fw_w (fl_ws s ! i)) = (res, w) \<Longrightarrow>
     ph = (case res of Inl f \<Rightarrow> Ph_out f None | Inr txid \<Rightarrow> Ph_look txid) \<Longrightarrow>
     fleet_step E mc r s (put_w i ((fl_ws s ! i)\<lparr>fw_w := w, fw_ph := ph\<rparr>) (s\<lparr>fl_run := t\<rparr>))"
| look: "in_phase i (Ph_look txid) s \<Longrightarrow>
     ph = (if fl_pfa s \<noteq> None then Ph_read txid
           else if c_Mode (r_cfg r) = ModeDirectMulticast then Ph_check txid else Ph_plain txid) \<Longrightarrow>
     fleet_step E mc r s (to_phase i ph s)"
| check: "in_phase i (Ph_check txid) s \<Longrightarrow> ph = (if fl_pfa s = None then Ph_store txid else Ph_read txid) \<Longrightarrow>
     fleet_step E mc r s (to_phase i ph s)"
| store: "in_phase i (Ph_store txid) s \<Longrightarrow>
     fleet_step E mc r s (to_phase i (Ph_read txid) (s\<lparr>fl_pfa := Some (fl_made s), fl_made := Suc (fl_made s)\<rparr>))"
| read: "in_phase i (Ph_read txid) s \<Longrightarrow> fl_pfa s = Some p \<Longrightarrow> fleet_step E mc r s (to_phase i (Ph_next p txid) s)"
| inside: "in_phase i (Ph_next p txid) s \<Longrightarrow> k = flow_of (r_cfg r) (r_pool r) txid \<Longrightarrow>
     own_step i (fl_alloc s p k) a \<Longrightarrow> rets a = rets (fl_alloc s p k) \<Longrightarrow>
     fleet_step E mc r s (s\<lparr>fl_alloc := (fl_alloc s)(p := (fl_alloc s p)(k := a))\<rparr>)"
| drawn: "in_phase i (Ph_next p txid) s \<Longrightarrow> k = flow_of (r_cfg r) (r_pool r) txid \<Longrightarrow>
     own_step i (fl_alloc s p k) a \<Longrightarrow> rets a = (i, v) # rets (fl_alloc s p k) \<Longrightarrow>
     emit (E i) mc r (Some v) txid (fw_w (fl_ws s ! i)) = (f, w) \<Longrightarrow>
     fleet_step E mc r s (put_w i ((fl_ws s ! i)\<lparr>fw_w := w, fw_ph := Ph_out f (Some (p, k, v))\<rparr>)
        (s\<lparr>fl_alloc := (fl_alloc s)(p := (fl_alloc s p)(k := a))\<rparr>))"
| plain: "in_phase i (Ph_plain txid) s \<Longrightarrow> fetch_next (fl_plain s) = (v, a) \<Longrightarrow>
     emit (E i) mc r None txid (fw_w (fl_ws s ! i)) = (f, w) \<Longrightarrow>
     fleet_step E mc r s (put_w i ((fl_ws s ! i)\<lparr>fw_w := w, fw_ph := Ph_out f None\<rparr>) (s\<lparr>fl_plain := a\<rparr>))"
| finish: "in_phase i (Ph_out f num) s \<Longrightarrow> write_out (E i) mc r qd f (fl_ws s ! i) = (res, l) \<Longrightarrow>
     token_label i f res = Some lab \<Longrightarrow> protocol r lab s t \<Longrightarrow>
     l' = (if leaves lab then worker_release (E i) l else l) \<Longrightarrow>
     fleet_step E mc r s (put_w i ((fl_ws s ! i)\<lparr>fw_l := l', fw_ph := Ph_none\<rparr>)
        (s\<lparr>fl_run := t, fl_wire := (if lab = WSent i then fl_wire s @ [(i, num, last (ln_sent l))] else fl_wire s)\<rparr>))"
| leave_loop: "lab \<in> {WCtx i, WClosed i} \<Longrightarrow> protocol r lab s t \<Longrightarrow> i < length (fl_ws s) \<Longrightarrow>
     fleet_step E mc r s (put_w i ((fl_ws s ! i)\<lparr>fw_l := worker_release (E i) (fw_l (fl_ws s ! i))\<rparr>) (s\<lparr>fl_run := t\<rparr>))"

inductive fleet_reach :: "(nat \<Rightarrow> worker_env) \<Rightarrow> mcast \<Rightarrow> Runner \<Rightarrow> fleet \<Rightarrow> bool" for E mc r where
  fleet_start: "fleet_reach E mc r (fleet_init E r)"
| fleet_more: "fleet_reach E mc r s \<Longrightarrow> fleet_step E mc r s t \<Longrightarrow> fleet_reach E mc r t"

section \<open>Projection to the token protocol\<close>

lemma put_w_simps [simp]:
  "fl_run (put_w i fw s) = fl_run s" "fl_pfa (put_w i fw s) = fl_pfa s" "fl_made (put_w i fw s) = fl_made s"
  "fl_alloc (put_w i fw s) = fl_alloc s" "fl_plain (put_w i fw s) = fl_plain s"
  "fl_ws (put_w i fw s) = (fl_ws s)[i := fw]" "fl_wire (put_w i fw s) = fl_wire s"
  by (simp_all add: put_w_def)

lemma run_step_sent:
  "run_step cnt cap l s = Some t \<Longrightarrow> n_sent t = n_sent s + (if \<exists>i. l = WSent i then 1 else 0)"
  by (cases l) (auto simp: leave_def move_def release_def split: if_splits)

text \<open>Every step of the fleet is one step of the protocol or none.\<close>

lemma fleet_step_run:
  assumes "fleet_step E mc r s t"
  shows "fl_run t = fl_run s \<and> length (fl_wire t) = length (fl_wire s) \<or>
     (\<exists>l. protocol r l s (fl_run t) \<and>
        length (fl_wire t) = length (fl_wire s) + (if \<exists>i. l = WSent i then 1 else 0))"
  using assms
proof (cases rule: fleet_step.cases)
  case (dispatch l u)
  then show ?thesis by (intro disjI2 exI [of _ l]) auto
next
  case (no_start i u)
  then show ?thesis by (intro disjI2 exI [of _ "WDial i False"]) simp
next
  case (start i u)
  then show ?thesis by (intro disjI2 exI [of _ "WDial i True"]) simp
next
  case (receive i u)
  then show ?thesis by (intro disjI2 exI [of _ "WRecv i"]) simp
next
  case (finish i f num qd res l lab u l')
  have "lab = WSent i \<longleftrightarrow> (\<exists>j. lab = WSent j)"
    using finish(4) by (auto simp: token_label_def split: frame_result.splits write_result.splits)
  with finish(1,5) show ?thesis by (intro disjI2 exI [of _ lab]) simp
next
  case (leave_loop lab i u)
  then show ?thesis by (intro disjI2 exI [of _ lab]) auto
qed (simp_all add: to_phase_def)

lemma fleet_run:
  "fleet_reach E mc r s \<Longrightarrow>
   (\<exists>ls. sender_run (c_Count (r_cfg r)) (c_Workers (r_cfg r)) ls = Some (fl_run s)) \<and>
   n_sent (fl_run s) = length (fl_wire s)"
proof (induction rule: fleet_reach.induct)
  case fleet_start
  have "sender_run (c_Count (r_cfg r)) (c_Workers (r_cfg r)) [] = Some (fl_run (fleet_init E r))"
    by (simp add: sender_run_def fleet_init_def)
  then show ?case by (auto simp: fleet_init_def run_init_def)
next
  case (fleet_more s t)
  from fleet_more.IH obtain ls where
    ls: "sender_run (c_Count (r_cfg r)) (c_Workers (r_cfg r)) ls = Some (fl_run s)" by blast
  from fleet_step_run [OF fleet_more.hyps(2)] show ?case
  proof
    assume "fl_run t = fl_run s \<and> length (fl_wire t) = length (fl_wire s)"
    with fleet_more.IH show ?thesis by auto
  next
    assume "\<exists>l. protocol r l s (fl_run t) \<and>
        length (fl_wire t) = length (fl_wire s) + (if \<exists>i. l = WSent i then 1 else 0)"
    then obtain l where l: "protocol r l s (fl_run t)"
      "length (fl_wire t) = length (fl_wire s) + (if \<exists>i. l = WSent i then 1 else 0)" by blast
    have "sender_run (c_Count (r_cfg r)) (c_Workers (r_cfg r)) (ls @ [l]) = Some (fl_run t)"
      using ls l(1) by (simp add: sender_run_def run_path_append protocol_def)
    with run_step_sent [OF l(1) [unfolded protocol_def]] l(2) fleet_more.IH show ?thesis by auto
  qed
qed

section \<open>What the workers hold and have sent\<close>

text \<open>A run that stamps no frame: unicast without gap injection.\<close>

definition plain_run :: "Runner \<Rightarrow> bool" where
  "plain_run r \<longleftrightarrow> r_pfa r = None \<and> c_Mode (r_cfg r) \<noteq> ModeDirectMulticast"

definition good_num ::
  "worker_env \<Rightarrow> mcast \<Rightarrow> Runner \<Rightarrow> bytes \<Rightarrow> stamp option \<Rightarrow> frame_result \<Rightarrow> bool" where
  "good_num env mc r txid num f \<longleftrightarrow>
     (\<exists>n rnd sn. good_frame_num (we_obj env) (we_hash env) (srcIPv6 (r_cfg r) mc) (r_cfg r) (r_pool r) n rnd txid sn f \<and>
        (plain_run r \<longrightarrow> sn = 0) \<and>
        (case num of None \<Rightarrow> plain_run r | Some (p, k, v) \<Rightarrow> k = flow_of (r_cfg r) (r_pool r) txid \<and> sn = v))"

text \<open>A frame on the wire: good, with the number it was stamped with in its header, and sent to its own group.\<close>

definition wire_good :: "worker_env \<Rightarrow> mcast \<Rightarrow> Runner \<Rightarrow> stamp option \<times> string option \<times> bytes \<Rightarrow> bool" where
  "wire_good env mc r e \<longleftrightarrow>
     (\<exists>txid. good_num env mc r txid (fst e) (Built (snd (snd e))) \<and>
        fst (snd e) = (if c_Mode (r_cfg r) = ModeDirectMulticast
                       then Some (we_addr env (mc_prefix mc) (mc_group mc) (c_ShardBits (r_cfg r))
                                    (groupIdx (c_ShardBits (r_cfg r)) txid) (mc_port mc))
                       else None))"

definition holds_payload :: "worker_env \<Rightarrow> Runner \<Rightarrow> bytes \<Rightarrow> Worker \<Rightarrow> bool" where
  "holds_payload env r txid w \<longleftrightarrow> (\<exists>n rnd. payload_taken (we_obj env) (r_cfg r) n rnd txid (f_Payload (w_frame w)))"

fun phase_ok :: "worker_env \<Rightarrow> mcast \<Rightarrow> Runner \<Rightarrow> phase \<Rightarrow> Worker \<Rightarrow> bool" where
  "phase_ok env mc r Ph_none w \<longleftrightarrow> True"
| "phase_ok env mc r (Ph_look txid) w \<longleftrightarrow> holds_payload env r txid w"
| "phase_ok env mc r (Ph_check txid) w \<longleftrightarrow> holds_payload env r txid w \<and> \<not> plain_run r"
| "phase_ok env mc r (Ph_store txid) w \<longleftrightarrow> holds_payload env r txid w \<and> \<not> plain_run r"
| "phase_ok env mc r (Ph_read txid) w \<longleftrightarrow> holds_payload env r txid w \<and> \<not> plain_run r"
| "phase_ok env mc r (Ph_plain txid) w \<longleftrightarrow> holds_payload env r txid w \<and> plain_run r"
| "phase_ok env mc r (Ph_next p txid) w \<longleftrightarrow> holds_payload env r txid w \<and> \<not> plain_run r"
| "phase_ok env mc r (Ph_out f num) w \<longleftrightarrow> good_num env mc r (f_TxID (w_frame w)) num f"

definition slot_ok :: "worker_env \<Rightarrow> mcast \<Rightarrow> Runner \<Rightarrow> fworker \<Rightarrow> bool" where
  "slot_ok env mc r fw \<longleftrightarrow>
     (\<exists>m. worker_ok (we_frame env) (r_cfg r) (plain_run r) m (fw_w fw)) \<and>
     link_inv env mc (r_cfg r) (r_pool r) (plain_run r) (fw_l fw) \<and> phase_ok env mc r (fw_ph fw) (fw_w fw)"

text \<open>The part of the invariant about frames.\<close>

definition frames_inv :: "(nat \<Rightarrow> worker_env) \<Rightarrow> mcast \<Rightarrow> Runner \<Rightarrow> fleet \<Rightarrow> bool" where
  "frames_inv E mc r s \<longleftrightarrow>
     (plain_run r \<longrightarrow> fl_pfa s = None) \<and> (r_pfa r \<noteq> None \<longrightarrow> fl_pfa s \<noteq> None) \<and>
     (\<forall>i < length (fl_ws s). slot_ok (E i) mc r (fl_ws s ! i)) \<and>
     (\<forall>(i, e) \<in> set (fl_wire s). wire_good (E i) mc r e)"

definition fleet_docs :: "(nat \<Rightarrow> worker_env) \<Rightarrow> Runner \<Rightarrow> bool" where
  "fleet_docs E r \<longleftrightarrow>
     (\<forall>i. frame_doc (we_frame (E i)) \<and> encode_doc (we_frame (E i)) \<and> txid_doc (we_obj (E i)) tx_obj) \<and>
     send_ok (r_cfg r) (r_pool r)"

lemma frames_invI:
  assumes "plain_run r \<longrightarrow> fl_pfa s = None" and "r_pfa r \<noteq> None \<longrightarrow> fl_pfa s \<noteq> None"
    and "\<And>i. i < length (fl_ws s) \<Longrightarrow> slot_ok (E i) mc r (fl_ws s ! i)"
    and "\<And>i e. (i, e) \<in> set (fl_wire s) \<Longrightarrow> wire_good (E i) mc r e"
  shows "frames_inv E mc r s"
  using assms by (auto simp: frames_inv_def)

text \<open>A step that changes one slot keeps the invariant when the new slot is good.\<close>

lemma frames_inv_put:
  assumes "frames_inv E mc r s" and "slot_ok (E i) mc r fw" and "fl_ws t = fl_ws s"
    and "fl_pfa t = fl_pfa s \<or> \<not> plain_run r \<and> fl_pfa t \<noteq> None"
    and "\<And>j e. (j, e) \<in> set (fl_wire t) - set (fl_wire s) \<Longrightarrow> wire_good (E j) mc r e"
  shows "frames_inv E mc r (put_w i fw t)"
proof (rule frames_invI)
  show "plain_run r \<longrightarrow> fl_pfa (put_w i fw t) = None" "r_pfa r \<noteq> None \<longrightarrow> fl_pfa (put_w i fw t) \<noteq> None"
    using assms(1,4) by (auto simp: frames_inv_def)
  show "slot_ok (E j) mc r (fl_ws (put_w i fw t) ! j)" if "j < length (fl_ws (put_w i fw t))" for j
    using that assms(1,2) by (cases "j = i") (simp_all add: assms(3) frames_inv_def)
  show "wire_good (E j) mc r e" if "(j, e) \<in> set (fl_wire (put_w i fw t))" for j e
  proof (cases "(j, e) \<in> set (fl_wire s)")
    case True
    then show ?thesis using assms(1) unfolding frames_inv_def by blast
  next
    case False
    then show ?thesis using that by (intro assms(5)) simp
  qed
qed

lemma start_ok: "worker_ok P (r_cfg r) plain 0 (worker_start P (r_cfg r) i sd)"
  by (simp add: worker_ok_def worker_start_def)

lemma frames_inv_init: "frames_inv E mc r (fleet_init E r)"
proof (rule frames_invI)
  show "plain_run r \<longrightarrow> fl_pfa (fleet_init E r) = None" by (simp add: fleet_init_def plain_run_def)
  show "r_pfa r \<noteq> None \<longrightarrow> fl_pfa (fleet_init E r) \<noteq> None" by (auto simp: fleet_init_def)
  show "slot_ok (E i) mc r (fl_ws (fleet_init E r) ! i)" if "i < length (fl_ws (fleet_init E r))" for i
    using that start_ok link_new_inv
    by (force simp: fleet_init_def slot_ok_def empty_slot_def)
  show "wire_good (E i) mc r e" if "(i, e) \<in> set (fl_wire (fleet_init E r))" for i e
    using that by (simp add: fleet_init_def)
qed

lemma emit_good:
  assumes "fleet_docs E r" and "worker_ok (we_frame (E i)) (r_cfg r) (plain_run r) m w" and "holds_payload (E i) r txid w"
    and "emit (E i) mc r sq txid w = (f, w')" and "plain_run r \<longleftrightarrow> sq = None"
    and "case num of None \<Rightarrow> sq = None | Some (p, k, v) \<Rightarrow> sq = Some v \<and> k = flow_of (r_cfg r) (r_pool r) txid"
  shows "worker_ok (we_frame (E i)) (r_cfg r) (plain_run r) m w' \<and> phase_ok (E i) mc r (Ph_out f num) w'"
proof -
  obtain n rnd where p: "payload_taken (we_obj (E i)) (r_cfg r) n rnd txid (f_Payload (w_frame w))"
    using assms(3) by (auto simp: holds_payload_def)
  have d: "frame_doc (we_frame (E i))" "encode_doc (we_frame (E i))" "send_ok (r_cfg r) (r_pool r)"
    using assms(1) by (simp_all add: fleet_docs_def)
  have "plain_run r \<longrightarrow> sq = None" using assms(5) by blast
  note e = emit_frame_good [OF d assms(2) p this, of "we_hash (E i)" "srcIPv6 (r_cfg r) mc"]
  have g: "good_frame_num (we_obj (E i)) (we_hash (E i)) (srcIPv6 (r_cfg r) mc) (r_cfg r) (r_pool r) n rnd txid
      (case sq of None \<Rightarrow> f_SeqNum (w_frame w) | Some v \<Rightarrow> v) f" "f_TxID (w_frame w') = txid"
    "worker_ok (we_frame (E i)) (r_cfg r) (plain_run r) m w'"
    using e assms(4) by (auto simp: emit_def)
  have "plain_run r \<longrightarrow> (case sq of None \<Rightarrow> f_SeqNum (w_frame w) | Some v \<Rightarrow> v) = 0"
    using assms(2,5) by (auto simp: worker_ok_def)
  moreover have "case num of None \<Rightarrow> plain_run r
      | Some (p, k, v) \<Rightarrow> k = flow_of (r_cfg r) (r_pool r) txid \<and> (case sq of None \<Rightarrow> f_SeqNum (w_frame w) | Some v \<Rightarrow> v) = v"
    using assms(5,6) by (cases num) auto
  ultimately have "good_num (E i) mc r txid num f" unfolding good_num_def using g(1) by blast
  then show ?thesis using g(2,3) by simp
qed

lemma link_release: "link_inv env mc cfg pool pl l \<Longrightarrow> link_inv env mc cfg pool pl (worker_release env l)"
proof -
  assume l: "link_inv env mc cfg pool pl l"
  obtain ok b where f: "bw_Flush (we_net env) (ln_buf l) = (ok, b)" by (metis surj_pair)
  show ?thesis
    using l f bw_Flush_holds [of "concat (map snd (ln_sent l))" "ln_buf l" "we_net env" ok b]
      bw_Flush_ok [of "we_net env" "ln_buf l"]
    by (auto simp: worker_release_def link_inv_def)
qed

lemma write_sent:
  assumes "worker_write env cfg mc g qd bs l = (res, l')"
  shows "ln_sent l' = (if res = W_ok then ln_sent l @
     [(if ln_tr l = Mcast then Some (we_addr env (mc_prefix mc) (mc_group mc) (c_ShardBits cfg) g (mc_port mc)) else None, bs)]
     else ln_sent l)"
  using assms by (auto simp: worker_write_def Let_def case_prod_beta split: transport.splits if_splits)

text \<open>Writing out a good frame keeps the link good, and what it counts as sent is a good wire entry.\<close>

lemma write_out_good:
  assumes "link_inv env mc (r_cfg r) (r_pool r) (plain_run r) (fw_l fw)"
    and "good_num env mc r (f_TxID (w_frame (fw_w fw))) num f"
    and "write_out env mc r qd f fw = (res, l)" and "token_label i f res = Some lab"
  shows "link_inv env mc (r_cfg r) (r_pool r) (plain_run r) l \<and>
     (lab = WSent i \<longrightarrow> wire_good env mc r (num, last (ln_sent l)))"
proof -
  let ?txid = "f_TxID (w_frame (fw_w fw))"
  let ?g = "groupIdx (c_ShardBits (r_cfg r)) ?txid"
  obtain bs where bs: "f = Built bs"
    using assms(2) by (auto simp: good_num_def good_frame_num_def)
  have w: "worker_write env (r_cfg r) mc ?g qd bs (fw_l fw) = (res, l)"
    using assms(3) bs by (simp add: write_out_def)
  obtain n rnd where "good_frame_as (we_obj env) (we_hash env) (srcIPv6 (r_cfg r) mc) (r_cfg r) (r_pool r) (plain_run r)
      n rnd ?txid (Built bs)"
    using assms(2) bs unfolding good_num_def good_frame_as_def by blast
  from link_write [OF assms(1) this, of qd] w have "link_inv env mc (r_cfg r) (r_pool r) (plain_run r) l" by simp
  moreover have "wire_good env mc r (num, last (ln_sent l))" if "lab = WSent i"
  proof -
    have "res = W_ok" using that assms(4) bs by (auto simp: token_label_def split: write_result.splits)
    then have "last (ln_sent l) = (if c_Mode (r_cfg r) = ModeDirectMulticast
        then Some (we_addr env (mc_prefix mc) (mc_group mc) (c_ShardBits (r_cfg r)) ?g (mc_port mc)) else None, bs)"
      using write_sent [OF w] assms(1) by (simp add: link_inv_def)
    then show ?thesis using assms(2) bs unfolding wire_good_def by auto
  qed
  ultimately show ?thesis by blast
qed

lemma slot_of: "frames_inv E mc r s \<Longrightarrow> in_phase i ph s \<Longrightarrow> slot_ok (E i) mc r (fl_ws s ! i) \<and> fw_ph (fl_ws s ! i) = ph"
  by (simp add: frames_inv_def in_phase_def)

lemma to_phase_inv:
  assumes "frames_inv E mc r s" and "in_phase i ph s" and "phase_ok (E i) mc r ph' (fw_w (fl_ws s ! i))"
    and "fl_ws t = fl_ws s" "fl_wire t = fl_wire s" and "fl_pfa t = fl_pfa s \<or> \<not> plain_run r \<and> fl_pfa t \<noteq> None"
  shows "frames_inv E mc r (to_phase i ph' t)"
  unfolding to_phase_def using assms slot_of [OF assms(1,2)]
  by (intro frames_inv_put [OF assms(1)]) (auto simp: slot_ok_def)

lemma frames_inv_step:
  assumes "fleet_step E mc r s t" and inv: "frames_inv E mc r s" and docs: "fleet_docs E r"
  shows "frames_inv E mc r t"
  using assms(1)
proof (cases rule: fleet_step.cases)
  case (dispatch l u)
  then show ?thesis using inv by (simp add: frames_inv_def)
next
  case (no_start i u)
  then show ?thesis using inv by (simp add: frames_inv_def)
next
  case (start i u tr evs seed)
  have "slot_ok (E i) mc r \<lparr>fw_w = worker_start (we_frame (E i)) (r_cfg r) i seed, fw_l = link_new tr, fw_ph = Ph_none\<rparr>"
    using open_done [OF start(3)] link_new_inv start_ok by (force simp: slot_ok_def)
  then show ?thesis unfolding start(1) by (intro frames_inv_put [OF inv]) simp_all
next
  case (receive i u rnd res w ph)
  note sl = slot_of [OF inv receive(3)]
  then obtain m where m: "worker_ok (we_frame (E i)) (r_cfg r) (plain_run r) m (fw_w (fl_ws s ! i))"
    by (auto simp: slot_ok_def)
  have d: "txid_doc (we_obj (E i)) tx_obj" "send_ok (r_cfg r) (r_pool r)" using docs by (simp_all add: fleet_docs_def)
  obtain txid where "res = Inr txid" "holds_payload (E i) r txid w"
    "worker_ok (we_frame (E i)) (r_cfg r) (plain_run r) (Suc m) w"
    using take_payload_good [OF d m, of rnd] receive(4) by (auto simp: holds_payload_def)
  with sl receive(5) have "slot_ok (E i) mc r ((fl_ws s ! i)\<lparr>fw_w := w, fw_ph := ph\<rparr>)"
    by (auto simp: slot_ok_def)
  then show ?thesis unfolding receive(1) by (intro frames_inv_put [OF inv]) simp_all
next
  case (look i txid ph)
  then show ?thesis
    using to_phase_inv [OF inv look(2), of ph s] slot_of [OF inv look(2)] inv
    by (auto simp: slot_ok_def plain_run_def frames_inv_def split: if_splits)
next
  case (check i txid ph)
  then show ?thesis
    using to_phase_inv [OF inv check(2), of ph s] slot_of [OF inv check(2)] by (auto simp: slot_ok_def split: if_splits)
next
  case (store i txid)
  then show ?thesis
    using to_phase_inv [OF inv store(2), of "Ph_read txid" "s\<lparr>fl_pfa := Some (fl_made s), fl_made := Suc (fl_made s)\<rparr>"]
      slot_of [OF inv store(2)] by (auto simp: slot_ok_def)
next
  case (read i txid p)
  then show ?thesis
    using to_phase_inv [OF inv read(2), of "Ph_next p txid" s] slot_of [OF inv read(2)] by (auto simp: slot_ok_def)
next
  case (inside i p txid k a)
  then show ?thesis using inv by (simp add: frames_inv_def)
next
  case (drawn i p txid k a v f w)
  note sl = slot_of [OF inv drawn(2)]
  then obtain m where m: "worker_ok (we_frame (E i)) (r_cfg r) (plain_run r) m (fw_w (fl_ws s ! i))"
    "holds_payload (E i) r txid (fw_w (fl_ws s ! i))" "\<not> plain_run r"
    by (auto simp: slot_ok_def)
  from emit_good [OF docs m(1,2) drawn(6), of "Some (p, k, v)"] m(3) drawn(3)
  have "worker_ok (we_frame (E i)) (r_cfg r) (plain_run r) m w \<and> phase_ok (E i) mc r (Ph_out f (Some (p, k, v))) w" by simp
  with sl have "slot_ok (E i) mc r ((fl_ws s ! i)\<lparr>fw_w := w, fw_ph := Ph_out f (Some (p, k, v))\<rparr>)"
    by (auto simp: slot_ok_def)
  then show ?thesis unfolding drawn(1) by (intro frames_inv_put [OF inv]) simp_all
next
  case (plain i txid v a f w)
  note sl = slot_of [OF inv plain(2)]
  then obtain m where m: "worker_ok (we_frame (E i)) (r_cfg r) (plain_run r) m (fw_w (fl_ws s ! i))"
    "holds_payload (E i) r txid (fw_w (fl_ws s ! i))" "plain_run r"
    by (auto simp: slot_ok_def)
  from emit_good [OF docs m(1,2) plain(4), of None] m(3)
  have "worker_ok (we_frame (E i)) (r_cfg r) (plain_run r) m w \<and> phase_ok (E i) mc r (Ph_out f None) w" by simp
  with sl have "slot_ok (E i) mc r ((fl_ws s ! i)\<lparr>fw_w := w, fw_ph := Ph_out f None\<rparr>)"
    by (auto simp: slot_ok_def)
  then show ?thesis unfolding plain(1) by (intro frames_inv_put [OF inv]) simp_all
next
  case (finish i f num qd res l lab u l')
  note sl = slot_of [OF inv finish(2)]
  then have s: "link_inv (E i) mc (r_cfg r) (r_pool r) (plain_run r) (fw_l (fl_ws s ! i))"
    "good_num (E i) mc r (f_TxID (w_frame (fw_w (fl_ws s ! i)))) num f"
    by (auto simp: slot_ok_def)
  note w = write_out_good [OF s finish(3,4)]
  have "slot_ok (E i) mc r ((fl_ws s ! i)\<lparr>fw_l := l', fw_ph := Ph_none\<rparr>)"
    using sl w link_release finish(6) by (auto simp: slot_ok_def)
  then show ?thesis unfolding finish(1) using w by (intro frames_inv_put [OF inv]) (auto split: if_splits)
next
  case (leave_loop lab i u)
  have "slot_ok (E i) mc r (fl_ws s ! i)" using inv leave_loop(4) by (simp add: frames_inv_def)
  then have "slot_ok (E i) mc r ((fl_ws s ! i)\<lparr>fw_l := worker_release (E i) (fw_l (fl_ws s ! i))\<rparr>)"
    using link_release by (auto simp: slot_ok_def)
  then show ?thesis unfolding leave_loop(1) by (intro frames_inv_put [OF inv]) simp_all
qed

lemma fleet_frames_inv: "fleet_reach E mc r s \<Longrightarrow> fleet_docs E r \<Longrightarrow> frames_inv E mc r s"
  by (induction rule: fleet_reach.induct) (auto intro: frames_inv_init frames_inv_step)

section \<open>Each connection carries its worker's frames\<close>

definition sent_by :: "nat \<Rightarrow> fleet \<Rightarrow> (string option \<times> bytes) list" where
  "sent_by i s = map (\<lambda>e. snd (snd e)) (filter (\<lambda>e. fst e = i) (fl_wire s))"

definition links_inv :: "fleet \<Rightarrow> bool" where
  "links_inv s \<longleftrightarrow> length (fl_ws s) = length (wks (fl_run s)) \<and>
     (\<forall>i < length (fl_ws s). sent_by i s = ln_sent (fw_l (fl_ws s ! i)) \<and>
        (wks (fl_run s) ! i = W_start \<longrightarrow> sent_by i s = [])) \<and>
     (\<forall>e \<in> set (fl_wire s). fst e < length (fl_ws s))"

lemma run_step_wks:
  "run_step cnt cap l s = Some t \<Longrightarrow> length (wks t) = length (wks s) \<and> (\<forall>i < length (wks s). wks t ! i = W_start \<longrightarrow> wks s ! i = W_start)"
  by (cases l) (auto simp: leave_def move_def release_def at_pc_def nth_list_update split: if_splits)

lemma token_label_busy:
  "token_label i f res = Some lab \<Longrightarrow> run_step cnt cap lab s = Some t \<Longrightarrow> at_pc s i W_busy \<and> \<not> at_pc t i W_start"
  by (auto simp: token_label_def move_def release_def at_pc_def split: frame_result.splits write_result.splits if_splits)

lemma write_out_sent:
  assumes "write_out env mc r qd f fw = (res, l)" and "token_label i f res = Some lab"
  shows "ln_sent l = (if lab = WSent i then ln_sent (fw_l fw) @ [last (ln_sent l)] else ln_sent (fw_l fw))"
proof (cases f)
  case (Built bs)
  with assms(1) have "worker_write env (r_cfg r) mc (groupIdx (c_ShardBits (r_cfg r)) (f_TxID (w_frame (fw_w fw)))) qd bs
      (fw_l fw) = (res, l)" by (simp add: write_out_def)
  from write_sent [OF this] assms(2) Built show ?thesis
    by (auto simp: token_label_def split: write_result.splits)
qed (use assms in \<open>auto simp: write_out_def token_label_def\<close>)

lemma links_invI:
  assumes "links_inv s" and "length (fl_ws t) = length (fl_ws s)" and "length (wks (fl_run t)) = length (wks (fl_run s))"
    and "\<And>i. i < length (fl_ws s) \<Longrightarrow> wks (fl_run t) ! i = W_start \<Longrightarrow> wks (fl_run s) ! i = W_start"
    and "\<And>i. i < length (fl_ws s) \<Longrightarrow> ln_sent (fw_l (fl_ws t ! i)) = ln_sent (fw_l (fl_ws s ! i))"
    and "fl_wire t = fl_wire s"
  shows "links_inv t"
  using assms by (auto simp: links_inv_def sent_by_def)

lemma links_inv_init: "links_inv (fleet_init E r)"
  by (simp add: links_inv_def fleet_init_def run_init_def sent_by_def empty_slot_def fleet_size_def)

lemma links_inv_step:
  assumes "fleet_step E mc r s t" and inv: "links_inv s"
  shows "links_inv t"
  using assms(1)
proof (cases rule: fleet_step.cases)
  case (dispatch l u)
  show ?thesis
    using run_step_wks [OF dispatch(3) [unfolded protocol_def]] dispatch(1) inv
    by (intro links_invI [OF inv]) (auto simp: links_inv_def)
next
  case (no_start i u)
  show ?thesis
    using run_step_wks [OF no_start(2) [unfolded protocol_def]] no_start(1) inv
    by (intro links_invI [OF inv]) (auto simp: links_inv_def)
next
  case (start i u tr evs seed)
  have i: "at_pc (fl_run s) i W_start" using start(2) by (auto simp: protocol_def split: if_splits)
  then have "ln_sent (fw_l (fl_ws s ! i)) = []" "i < length (fl_ws s)" using inv by (auto simp: links_inv_def at_pc_def)
  then show ?thesis
    using run_step_wks [OF start(2) [unfolded protocol_def]] start(1) inv
    by (intro links_invI [OF inv]) (auto simp: links_inv_def nth_list_update)
next
  case (receive i u rnd res w ph)
  show ?thesis
    using run_step_wks [OF receive(2) [unfolded protocol_def]] receive(1,3) inv
    by (intro links_invI [OF inv]) (auto simp: links_inv_def in_phase_def nth_list_update)
next
  case (finish i f num qd res l lab u l')
  note b = token_label_busy [OF finish(4) finish(5) [unfolded protocol_def]]
  note w = run_step_wks [OF finish(5) [unfolded protocol_def]]
  note sent = write_out_sent [OF finish(3,4)]
  have i: "i < length (fl_ws s)" using finish(2) by (simp add: in_phase_def)
  have snt: "sent_by j t = (if j = i \<and> lab = WSent i then sent_by i s @ [last (ln_sent l)] else sent_by j s)" for j
    unfolding finish(1) by (simp add: sent_by_def)
  have "ln_sent l' = sent_by i t"
    using sent snt finish(6) inv i by (auto simp: links_inv_def)
  moreover have "wks (fl_run t) ! i \<noteq> W_start"
    using b w i inv finish(1) by (auto simp: at_pc_def links_inv_def)
  ultimately show ?thesis
    using inv i w unfolding links_inv_def
    by (auto simp: finish(1) snt [unfolded finish(1)] nth_list_update)
next
  case (leave_loop lab i u)
  show ?thesis
    using run_step_wks [OF leave_loop(3) [unfolded protocol_def]] leave_loop(1,4) inv
    by (intro links_invI [OF inv]) (auto simp: links_inv_def nth_list_update)
qed (intro links_invI [OF inv]; auto simp: to_phase_def in_phase_def nth_list_update)+

lemma fleet_links: "fleet_reach E mc r s \<Longrightarrow> links_inv s"
  by (induction rule: fleet_reach.induct) (auto intro: links_inv_init links_inv_step)

text \<open>Every frame counted was counted by one worker, and a datagram link counts the datagrams that went out.\<close>

lemma length_split:
  "\<forall>x \<in> set xs. fst x < n \<Longrightarrow> (\<Sum>i\<leftarrow>[0..<n]. length (filter (\<lambda>x. fst x = i) xs)) = length xs"
proof (induction xs)
  case (Cons x xs)
  have "(\<Sum>i\<leftarrow>[0..<n]. length (filter (\<lambda>x. fst x = i) (x # xs))) =
      (\<Sum>i\<leftarrow>[0..<n]. length (filter (\<lambda>x. fst x = i) xs) + (if i = fst x then 1 else 0))"
    by (intro arg_cong [where f = sum_list] map_cong) auto
  also have "\<dots> = (\<Sum>i\<leftarrow>[0..<n]. length (filter (\<lambda>x. fst x = i) xs)) + (\<Sum>i\<leftarrow>[0..<n]. if i = fst x then 1 else 0)"
    by (rule sum_list_addf)
  also have "(\<Sum>i\<leftarrow>[0..<n]. if i = fst x then 1 else 0) = (1 :: nat)"
    using Cons.prems by (simp add: sum_list_distinct_conv_sum_set)
  finally show ?case using Cons by simp
qed simp

lemma sent_total:
  assumes "fleet_reach E mc r s"
  shows "(\<Sum>fw\<leftarrow>fl_ws s. length (ln_sent (fw_l fw))) = length (fl_wire s)"
proof -
  have inv: "\<forall>x \<in> set (fl_wire s). fst x < length (fl_ws s)"
    "\<And>i. i < length (fl_ws s) \<Longrightarrow> sent_by i s = ln_sent (fw_l (fl_ws s ! i))"
    using fleet_links [OF assms] unfolding links_inv_def by blast+
  have "map (\<lambda>fw. length (ln_sent (fw_l fw))) (fl_ws s) = map (\<lambda>i. length (ln_sent (fw_l (fl_ws s ! i)))) [0..<length (fl_ws s)]"
    by (rule nth_equalityI) simp_all
  also have "\<dots> = map (\<lambda>i. length (filter (\<lambda>x. fst x = i) (fl_wire s))) [0..<length (fl_ws s)]"
    using inv(2) [symmetric] by (simp add: sent_by_def)
  finally show ?thesis using length_split [OF inv(1)] by simp
qed

definition tries_ok :: "worker_env \<Rightarrow> link \<Rightarrow> bool" where
  "tries_ok env l \<longleftrightarrow>
     (ln_tr l \<noteq> Tcp \<longrightarrow> length (ln_sent l) = length (filter (\<lambda>k. we_dgram env k = W_ok) [0..<ln_tries l]))"

lemma tries_ok_new [simp]: "tries_ok env (link_new tr)"
  by (simp add: tries_ok_def link_new_def)

lemma tries_ok_release [simp]: "tries_ok env (worker_release env l) \<longleftrightarrow> tries_ok env l"
  by (simp add: tries_ok_def worker_release_def)

lemma tries_ok_write: "tries_ok env (fw_l fw) \<Longrightarrow> write_out env mc r qd f fw = (res, l) \<Longrightarrow> tries_ok env l"
  by (auto simp: tries_ok_def write_out_def worker_write_def Let_def split: frame_result.splits transport.splits prod.splits)

lemma nth_put: "i < length xs \<Longrightarrow> xs[j := y] ! i = (if i = j then y else xs ! i)"
  by (cases "i = j") simp_all

lemma fleet_tries:
  "fleet_reach E mc r s \<Longrightarrow> i < length (fl_ws s) \<Longrightarrow> tries_ok (E i) (fw_l (fl_ws s ! i))"
proof (induction arbitrary: i rule: fleet_reach.induct)
  case fleet_start
  then show ?case by (simp add: fleet_init_def empty_slot_def)
next
  case (fleet_more s t)
  from fleet_more.hyps(2) show ?case
  proof (cases rule: fleet_step.cases)
    case (finish j f num qd res l lab u l')
    have j: "j < length (fl_ws s)" using finish(2) by (simp add: in_phase_def)
    then have "tries_ok (E j) l'" using tries_ok_write [OF fleet_more.IH finish(3)] finish(6) by simp
    then show ?thesis using fleet_more.IH [of i] fleet_more.prems j by (cases "i = j") (simp_all add: finish(1))
  qed (use fleet_more in \<open>simp_all add: to_phase_def nth_put in_phase_def\<close>)
qed

section \<open>Which frames are stamped\<close>

text \<open>No phase, and no frame on its way out, mixes the numbered with the plain run.\<close>

fun phase_fits :: "bool \<Rightarrow> phase \<Rightarrow> bool" where
  "phase_fits pl (Ph_check txid) \<longleftrightarrow> \<not> pl"
| "phase_fits pl (Ph_store txid) \<longleftrightarrow> \<not> pl"
| "phase_fits pl (Ph_read txid) \<longleftrightarrow> \<not> pl"
| "phase_fits pl (Ph_next p txid) \<longleftrightarrow> \<not> pl"
| "phase_fits pl (Ph_plain txid) \<longleftrightarrow> pl"
| "phase_fits pl (Ph_out f num) \<longleftrightarrow> (\<forall>bs. f = Built bs \<longrightarrow> (num = None \<longleftrightarrow> pl))"
| "phase_fits pl _ \<longleftrightarrow> True"

definition stamps_inv :: "Runner \<Rightarrow> fleet \<Rightarrow> bool" where
  "stamps_inv r s \<longleftrightarrow>
     (plain_run r \<longrightarrow> fl_pfa s = None) \<and> (r_pfa r \<noteq> None \<longrightarrow> fl_pfa s \<noteq> None) \<and>
     list_all (\<lambda>fw. phase_fits (plain_run r) (fw_ph fw)) (fl_ws s) \<and>
     list_all (\<lambda>e. fst (snd e) = None \<longleftrightarrow> plain_run r) (fl_wire s)"

lemma stamps_inv_put:
  assumes "stamps_inv r s" and "phase_fits (plain_run r) (fw_ph fw)" and "fl_ws t = fl_ws s"
    and "fl_pfa t = fl_pfa s \<or> \<not> plain_run r \<and> fl_pfa t \<noteq> None"
    and "fl_wire t = fl_wire s \<or> (\<exists>e. fl_wire t = fl_wire s @ [e] \<and> (fst (snd e) = None \<longleftrightarrow> plain_run r))"
  shows "stamps_inv r (put_w i fw t)"
proof -
  have "list_all (\<lambda>fw. phase_fits (plain_run r) (fw_ph fw)) ((fl_ws s)[i := fw])"
    using assms(1,2) set_update_subset_insert [of "fl_ws s" i fw] unfolding stamps_inv_def list_all_iff by blast
  moreover have "list_all (\<lambda>e. fst (snd e) = None \<longleftrightarrow> plain_run r) (fl_wire t)"
    using assms(1,5) by (elim disjE exE conjE) (simp_all add: stamps_inv_def)
  ultimately show ?thesis using assms(1,3,4) by (auto simp: stamps_inv_def)
qed

lemma phase_of: "stamps_inv r s \<Longrightarrow> in_phase i ph s \<Longrightarrow> phase_fits (plain_run r) ph"
  by (auto simp: stamps_inv_def in_phase_def list_all_length)

lemma take_payload_not_built: "take_payload ob cfg rnd w = (Inl f, w') \<Longrightarrow> f \<noteq> Built bs"
  by (auto simp: take_payload_def Let_def split: prod.splits sum.splits option.splits if_splits)

lemma stamps_inv_step:
  assumes "fleet_step E mc r s t" and inv: "stamps_inv r s"
  shows "stamps_inv r t"
  using assms(1)
proof (cases rule: fleet_step.cases)
  case (start i u tr evs seed)
  show ?thesis unfolding start(1) by (intro stamps_inv_put [OF inv]) simp_all
next
  case (receive i u rnd res w ph)
  have "phase_fits (plain_run r) ph"
    using receive(4,5) take_payload_not_built [of "we_obj (E i)" "r_cfg r" rnd "fw_w (fl_ws s ! i)" _ w]
    by (auto split: sum.splits)
  then show ?thesis unfolding receive(1) by (intro stamps_inv_put [OF inv]) simp_all
next
  case (look i txid ph)
  have "phase_fits (plain_run r) ph" using look(3) inv by (auto simp: stamps_inv_def plain_run_def)
  then show ?thesis unfolding look(1) to_phase_def by (intro stamps_inv_put [OF inv]) simp_all
next
  case (check i txid ph)
  have "phase_fits (plain_run r) ph" using check(3) phase_of [OF inv check(2)] by simp
  then show ?thesis unfolding check(1) to_phase_def by (intro stamps_inv_put [OF inv]) simp_all
next
  case (store i txid)
  show ?thesis unfolding store(1) to_phase_def
    using phase_of [OF inv store(2)] by (intro stamps_inv_put [OF inv]) simp_all
next
  case (read i txid p)
  show ?thesis unfolding read(1) to_phase_def
    using phase_of [OF inv read(2)] by (intro stamps_inv_put [OF inv]) simp_all
next
  case (drawn i p txid k a v f w)
  show ?thesis unfolding drawn(1)
    using phase_of [OF inv drawn(2)] by (intro stamps_inv_put [OF inv]) simp_all
next
  case (plain i txid v a f w)
  show ?thesis unfolding plain(1)
    using phase_of [OF inv plain(2)] by (intro stamps_inv_put [OF inv]) simp_all
next
  case (finish i f num qd res l lab u l')
  have "fst (snd (i, num, last (ln_sent l))) = None \<longleftrightarrow> plain_run r" if "lab = WSent i"
    using that finish(4) phase_of [OF inv finish(2)] by (auto simp: token_label_def split: frame_result.splits)
  then show ?thesis unfolding finish(1) by (intro stamps_inv_put [OF inv]) auto
next
  case (leave_loop lab i u)
  have "phase_fits (plain_run r) (fw_ph (fl_ws s ! i))" using inv leave_loop(4) by (simp add: stamps_inv_def list_all_length)
  then show ?thesis unfolding leave_loop(1) by (intro stamps_inv_put [OF inv]) simp_all
qed (use inv in \<open>simp_all add: stamps_inv_def\<close>)

lemma fleet_stamps: "fleet_reach E mc r s \<Longrightarrow> stamps_inv r s"
proof (induction rule: fleet_reach.induct)
  case fleet_start
  show ?case
    by (auto simp: stamps_inv_def fleet_init_def empty_slot_def plain_run_def list_all_iff split: option.split)
next
  case (fleet_more s t)
  then show ?case using stamps_inv_step by blast
qed

section \<open>Numbers\<close>

definition ph_num :: "phase \<Rightarrow> stamp option" where
  "ph_num ph = (case ph of Ph_out f num \<Rightarrow> num | _ \<Rightarrow> None)"

lemma ph_num_simps [simp]:
  "ph_num Ph_none = None" "ph_num (Ph_look txid) = None" "ph_num (Ph_check txid) = None" "ph_num (Ph_store txid) = None"
  "ph_num (Ph_read txid) = None" "ph_num (Ph_plain txid) = None" "ph_num (Ph_next p txid) = None" "ph_num (Ph_out f num) = num"
  by (simp_all add: ph_num_def)

lemma length_filter_update:
  "i < length xs \<Longrightarrow> length (filter Q (xs[i := y])) + (if Q (xs ! i) then 1 else 0) = length (filter Q xs) + (if Q y then 1 else 0)"
proof (induction xs arbitrary: i)
  case (Cons x xs)
  show ?case
  proof (cases i)
    case 0
    then show ?thesis by simp
  next
    case (Suc j)
    with Cons.IH [of j] Cons.prems show ?thesis by auto
  qed
qed simp

text \<open>How often a stamp is on the wire or held by a worker about to write.\<close>

definition on_wire :: "stamp \<Rightarrow> fleet \<Rightarrow> nat" where
  "on_wire z s = length (filter (\<lambda>e. fst (snd e) = Some z) (fl_wire s))"

definition in_hand :: "stamp \<Rightarrow> fleet \<Rightarrow> nat" where
  "in_hand z s = length (filter (\<lambda>fw. ph_num (fw_ph fw) = Some z) (fl_ws s))"

definition numbers_inv :: "Runner \<Rightarrow> fleet \<Rightarrow> bool" where
  "numbers_inv r s \<longleftrightarrow>
     (\<forall>p k. next_reach (flow_cfg r) (fleet_size r) (fl_alloc s p k) \<and>
        (\<forall>v. on_wire (p, k, v) s + in_hand (p, k, v) s \<le> count (mset (map snd (rets (fl_alloc s p k)))) v))"

lemma in_hand_put:
  "i < length (fl_ws s) \<Longrightarrow> in_hand z (put_w i fw s) + (if ph_num (fw_ph (fl_ws s ! i)) = Some z then 1 else 0) =
     in_hand z s + (if ph_num (fw_ph fw) = Some z then 1 else 0)"
  using length_filter_update [of i "fl_ws s" "\<lambda>fw. ph_num (fw_ph fw) = Some z" fw] by (simp add: in_hand_def)

lemma in_hand_same:
  "i < length (fl_ws s) \<Longrightarrow> ph_num (fw_ph fw) = ph_num (fw_ph (fl_ws s ! i)) \<Longrightarrow> in_hand z (put_w i fw s) = in_hand z s"
  using in_hand_put [of i s z fw] by simp

lemma in_hand_le:
  assumes "ph_num (fw_ph fw) = None"
  shows "in_hand z (put_w i fw s) \<le> in_hand z s"
proof (cases "i < length (fl_ws s)")
  case True
  with in_hand_put [OF True, of z fw] assms show ?thesis by simp
qed (simp add: in_hand_def list_update_beyond)

lemma in_hand_cong [simp]:
  "in_hand z (s\<lparr>fl_run := t\<rparr>) = in_hand z s" "in_hand z (s\<lparr>fl_plain := a\<rparr>) = in_hand z s"
  "in_hand z (s\<lparr>fl_alloc := al\<rparr>) = in_hand z s" "in_hand z (s\<lparr>fl_run := t, fl_wire := w\<rparr>) = in_hand z s"
  "in_hand z (s\<lparr>fl_pfa := x, fl_made := m\<rparr>) = in_hand z s"
  by (simp_all add: in_hand_def)

text \<open>A step that keeps the allocators and does not raise the stamps in use keeps the invariant.\<close>

lemma numbers_inv_le:
  assumes "numbers_inv r s" and "fl_alloc t = fl_alloc s"
    and "\<And>z. on_wire z t + in_hand z t \<le> on_wire z s + in_hand z s"
  shows "numbers_inv r t"
proof -
  have "on_wire z t + in_hand z t \<le> c" if "on_wire z s + in_hand z s \<le> c" for z c
    using assms(3) [of z] that by simp
  then show ?thesis using assms(1,2) unfolding numbers_inv_def by auto
qed

lemma own_step_reach: "next_reach cfg n a \<Longrightarrow> own_step i a b \<Longrightarrow> next_reach cfg n b"
  by (auto simp: own_step_def intro: next_more)

lemma numbers_inv_init: "numbers_inv r (fleet_init E r)"
  by (auto simp: numbers_inv_def on_wire_def in_hand_def fleet_init_def empty_slot_def intro: next_start)

lemma numbers_inv_step:
  assumes "fleet_step E mc r s t" and inv: "numbers_inv r s"
  shows "numbers_inv r t"
  using assms(1)
proof (cases rule: fleet_step.cases)
  case (start i u tr evs seed)
  show ?thesis unfolding start(1)
    by (intro numbers_inv_le [OF inv]) (auto simp: on_wire_def intro!: in_hand_le [THEN order_trans])
next
  case (receive i u rnd res w ph)
  have i: "i < length (fl_ws s)" "fw_ph (fl_ws s ! i) = Ph_none" using receive(3) by (simp_all add: in_phase_def)
  have "ph_num ph = None" using receive(5) by (auto split: sum.splits)
  then show ?thesis unfolding receive(1)
    using in_hand_put [of i "s\<lparr>fl_run := u\<rparr>"] i by (intro numbers_inv_le [OF inv]) (simp_all add: on_wire_def)
next
  case (inside i p txid k a)
  have "next_reach (flow_cfg r) (fleet_size r) (fl_alloc s p k)" using inv by (simp add: numbers_inv_def)
  from own_step_reach [OF this inside(4)] show ?thesis unfolding inside(1) using inv inside(5)
    by (auto simp: numbers_inv_def on_wire_def)
next
  case (drawn i p txid k a v f w)
  have i: "i < length (fl_ws s)" "fw_ph (fl_ws s ! i) = Ph_next p txid" using drawn(2) by (simp_all add: in_phase_def)
  let ?s = "s\<lparr>fl_alloc := (fl_alloc s)(p := (fl_alloc s p)(k := a))\<rparr>"
  have h: "in_hand z t = in_hand z s + (if z = (p, k, v) then 1 else 0)" for z
    using in_hand_put [of i ?s z] i unfolding drawn(1) by auto
  have w: "on_wire z t = on_wire z s" for z unfolding drawn(1) by (simp add: on_wire_def)
  have al: "fl_alloc t = (fl_alloc s)(p := (fl_alloc s p)(k := a))" unfolding drawn(1) by simp
  have "next_reach (flow_cfg r) (fleet_size r) (fl_alloc s p k)" using inv by (simp add: numbers_inv_def)
  note a = own_step_reach [OF this drawn(4)]
  have le: "on_wire (q, j, x) s + in_hand (q, j, x) s \<le> count (mset (map snd (rets (fl_alloc s q j)))) x"
    and reach: "next_reach (flow_cfg r) (fleet_size r) (fl_alloc s q j)" for q j x
    using inv by (simp_all add: numbers_inv_def)
  show ?thesis
    unfolding numbers_inv_def h w al
  proof (intro allI conjI)
    fix q j x
    show "next_reach (flow_cfg r) (fleet_size r) (((fl_alloc s)(p := (fl_alloc s p)(k := a))) q j)"
      using a reach by simp
    show "on_wire (q, j, x) s + (in_hand (q, j, x) s + (if (q, j, x) = (p, k, v) then 1 else 0))
        \<le> count (mset (map snd (rets (((fl_alloc s)(p := (fl_alloc s p)(k := a))) q j)))) x"
      using le [of q j x] drawn(5) by auto
  qed
next
  case (plain i txid v a f w)
  have i: "i < length (fl_ws s)" "fw_ph (fl_ws s ! i) = Ph_plain txid" using plain(2) by (simp_all add: in_phase_def)
  then show ?thesis unfolding plain(1)
    using in_hand_put [of i "s\<lparr>fl_plain := a\<rparr>"] by (intro numbers_inv_le [OF inv]) (simp_all add: on_wire_def)
next
  case (finish i f num qd res l lab u l')
  have i: "i < length (fl_ws s)" "fw_ph (fl_ws s ! i) = Ph_out f num" using finish(2) by (simp_all add: in_phase_def)
  let ?w = "if lab = WSent i then fl_wire s @ [(i, num, last (ln_sent l))] else fl_wire s"
  have h: "in_hand z t + (if num = Some z then 1 else 0) = in_hand z s" for z
    using in_hand_put [of i "s\<lparr>fl_run := u, fl_wire := ?w\<rparr>" z] i unfolding finish(1) by simp
  have w: "on_wire z t \<le> on_wire z s + (if num = Some z then 1 else 0)" for z
    unfolding finish(1) by (simp add: on_wire_def)
  have "on_wire z t + in_hand z t \<le> on_wire z s + in_hand z s" for z using h [of z] w [of z] by linarith
  then show ?thesis by (intro numbers_inv_le [OF inv]) (simp_all add: finish(1))
next
  case (leave_loop lab i u)
  then show ?thesis unfolding leave_loop(1)
    by (intro numbers_inv_le [OF inv]) (simp_all add: on_wire_def in_hand_same)
next
  case (look i txid ph)
  have i: "i < length (fl_ws s)" "fw_ph (fl_ws s ! i) = Ph_look txid" using look(2) by (simp_all add: in_phase_def)
  have "ph_num ph = None" using look(3) by simp
  then show ?thesis unfolding look(1) to_phase_def
    using in_hand_put [of i s] i by (intro numbers_inv_le [OF inv]) (simp_all add: on_wire_def)
next
  case (check i txid ph)
  have i: "i < length (fl_ws s)" "fw_ph (fl_ws s ! i) = Ph_check txid" using check(2) by (simp_all add: in_phase_def)
  have "ph_num ph = None" using check(3) by simp
  then show ?thesis unfolding check(1) to_phase_def
    using in_hand_put [of i s] i by (intro numbers_inv_le [OF inv]) (simp_all add: on_wire_def)
next
  case (store i txid)
  have i: "i < length (fl_ws s)" "fw_ph (fl_ws s ! i) = Ph_store txid" using store(2) by (simp_all add: in_phase_def)
  show ?thesis unfolding store(1) to_phase_def
    using in_hand_put [of i "s\<lparr>fl_pfa := Some (fl_made s), fl_made := Suc (fl_made s)\<rparr>"] i
    by (intro numbers_inv_le [OF inv]) (simp_all add: on_wire_def)
next
  case (read i txid p)
  have i: "i < length (fl_ws s)" "fw_ph (fl_ws s ! i) = Ph_read txid" using read(2) by (simp_all add: in_phase_def)
  show ?thesis unfolding read(1) to_phase_def
    using in_hand_put [of i s] i by (intro numbers_inv_le [OF inv]) (simp_all add: on_wire_def)
qed (use inv in \<open>auto simp: numbers_inv_def on_wire_def\<close>)

lemma fleet_numbers_inv: "fleet_reach E mc r s \<Longrightarrow> numbers_inv r s"
  by (induction rule: fleet_reach.induct) (auto intro: numbers_inv_init numbers_inv_step)

section \<open>How many allocators the lazy branch can make\<close>

fun about_to_make :: "phase \<Rightarrow> bool" where
  "about_to_make (Ph_check txid) = True"
| "about_to_make (Ph_store txid) = True"
| "about_to_make _ = False"

definition makers :: "fleet \<Rightarrow> nat" where
  "makers s = length (filter (\<lambda>fw. about_to_make (fw_ph fw)) (fl_ws s))"

lemma makers_put:
  "i < length (fl_ws s) \<Longrightarrow> makers (put_w i fw s) + (if about_to_make (fw_ph (fl_ws s ! i)) then 1 else 0) =
     makers s + (if about_to_make (fw_ph fw) then 1 else 0)"
  using length_filter_update [of i "fl_ws s" "\<lambda>fw. about_to_make (fw_ph fw)" fw] by (simp add: makers_def)

lemma makers_le: "\<not> about_to_make (fw_ph fw) \<Longrightarrow> makers (put_w i fw s) \<le> makers s"
proof (cases "i < length (fl_ws s)")
  case True
  assume "\<not> about_to_make (fw_ph fw)"
  with makers_put [OF True, of fw] show ?thesis by simp
qed (simp add: makers_def list_update_beyond)

lemma makers_size: "makers s \<le> length (fl_ws s)"
  by (simp add: makers_def)

lemma makers_cong [simp]:
  "makers (s\<lparr>fl_run := t\<rparr>) = makers s" "makers (s\<lparr>fl_plain := a\<rparr>) = makers s"
  "makers (s\<lparr>fl_alloc := al\<rparr>) = makers s" "makers (s\<lparr>fl_run := t, fl_wire := w\<rparr>) = makers s"
  "makers (s\<lparr>fl_pfa := x, fl_made := m\<rparr>) = makers s"
  by (simp_all add: makers_def)

text \<open>The objects a phase or a stamp refers to exist.\<close>

fun stamp_lt :: "nat \<Rightarrow> stamp option \<Rightarrow> bool" where
  "stamp_lt m None = True"
| "stamp_lt m (Some (p, k, v)) = (p < m)"

fun phase_lt :: "nat \<Rightarrow> phase \<Rightarrow> bool" where
  "phase_lt m (Ph_next p txid) = (p < m)"
| "phase_lt m (Ph_out f num) = stamp_lt m num"
| "phase_lt m _ = True"

lemma stamp_lt_mono: "stamp_lt m num \<Longrightarrow> m \<le> n \<Longrightarrow> stamp_lt n num"
  by (cases "(m, num)" rule: stamp_lt.cases) auto

lemma phase_lt_mono: "phase_lt m ph \<Longrightarrow> m \<le> n \<Longrightarrow> phase_lt n ph"
  by (cases "(m, ph)" rule: phase_lt.cases) (auto intro: stamp_lt_mono)

definition objects_inv :: "Runner \<Rightarrow> fleet \<Rightarrow> bool" where
  "objects_inv r s \<longleftrightarrow> length (fl_ws s) = fleet_size r \<and>
     (case fl_pfa s of None \<Rightarrow> fl_made s = 0 \<and> r_pfa r = None
      | Some p \<Rightarrow> p < fl_made s \<and>
          (if r_pfa r = None then fl_made s + makers s \<le> fleet_size r else fl_made s = 1 \<and> makers s = 0)) \<and>
     (\<forall>fw \<in> set (fl_ws s). phase_lt (fl_made s) (fw_ph fw)) \<and>
     (\<forall>e \<in> set (fl_wire s). stamp_lt (fl_made s) (fst (snd e)))"

lemma objects_inv_init: "objects_inv r (fleet_init E r)"
  by (auto simp: objects_inv_def fleet_init_def empty_slot_def makers_def split: option.split)

text \<open>A step that makes no object, and puts no worker on its way to make one unless there is none yet.\<close>

lemma objects_inv_put:
  assumes "objects_inv r s" and "fl_ws t = fl_ws s" "fl_pfa t = fl_pfa s" "fl_made t = fl_made s" "makers t = makers s"
    and "phase_lt (fl_made s) (fw_ph fw)"
    and "about_to_make (fw_ph fw) \<longrightarrow> fl_pfa s = None"
    and "\<And>e. e \<in> set (fl_wire t) - set (fl_wire s) \<Longrightarrow> stamp_lt (fl_made s) (fst (snd e))"
  shows "objects_inv r (put_w i fw t)"
proof -
  have "phase_lt (fl_made s) (fw_ph x)" if "x \<in> set ((fl_ws s)[i := fw])" for x
    using that assms(1,6) set_update_subset_insert [of "fl_ws s" i fw] by (auto simp: objects_inv_def)
  moreover have "stamp_lt (fl_made s) (fst (snd e))" if "e \<in> set (fl_wire t)" for e
    using that assms(1,8) by (cases "e \<in> set (fl_wire s)") (auto simp: objects_inv_def)
  moreover have "makers (put_w i fw t) \<le> makers s" if "fl_pfa s \<noteq> None"
    using makers_le [of fw i t] that assms(5,7) by auto
  ultimately show ?thesis
    using assms(1-5) by (fastforce simp: objects_inv_def split: option.splits if_splits)
qed

lemma objects_inv_step:
  assumes "fleet_step E mc r s t" and inv: "objects_inv r s"
  shows "objects_inv r t"
  using assms(1)
proof (cases rule: fleet_step.cases)
  case (start i u tr evs seed)
  show ?thesis unfolding start(1) by (intro objects_inv_put [OF inv]) simp_all
next
  case (receive i u rnd res w ph)
  show ?thesis unfolding receive(1)
    using receive(5) by (intro objects_inv_put [OF inv]) (simp_all split: sum.splits)
next
  case (look i txid ph)
  show ?thesis unfolding look(1) to_phase_def
    using look(3) by (intro objects_inv_put [OF inv]) simp_all
next
  case (check i txid ph)
  show ?thesis unfolding check(1) to_phase_def
    using check(3) by (intro objects_inv_put [OF inv]) simp_all
next
  case (store i txid)
  have i: "i < length (fl_ws s)" "fw_ph (fl_ws s ! i) = Ph_store txid" using store(2) by (simp_all add: in_phase_def)
  have m: "makers t + 1 = makers s"
    using makers_put [of i "s\<lparr>fl_pfa := Some (fl_made s), fl_made := Suc (fl_made s)\<rparr>"] i
    unfolding store(1) to_phase_def by simp
  have size: "makers s \<le> fleet_size r" using makers_size [of s] inv by (simp add: objects_inv_def)
  have "phase_lt (Suc (fl_made s)) (fw_ph x)" if "x \<in> set (fl_ws t)" for x
    using that inv set_update_subset_insert [of "fl_ws s" i] phase_lt_mono [of "fl_made s" _ "Suc (fl_made s)"]
    unfolding store(1) to_phase_def by (force simp: objects_inv_def)
  moreover have "stamp_lt (Suc (fl_made s)) (fst (snd e))" if "e \<in> set (fl_wire t)" for e
    using that inv stamp_lt_mono [of "fl_made s" _ "Suc (fl_made s)"]
    unfolding store(1) to_phase_def by (auto simp: objects_inv_def)
  moreover have "r_pfa r = None" using inv m by (auto simp: objects_inv_def split: option.splits if_splits)
  moreover have "fl_pfa t = Some (fl_made s)" "fl_made t = Suc (fl_made s)" "length (fl_ws t) = fleet_size r"
    using inv unfolding store(1) to_phase_def by (simp_all add: objects_inv_def)
  moreover have "Suc (fl_made s) + makers t \<le> fleet_size r"
    using inv m size \<open>r_pfa r = None\<close> by (auto simp: objects_inv_def split: option.splits)
  ultimately show ?thesis unfolding objects_inv_def by simp
next
  case (read i txid p)
  have "p < fl_made s" using inv read(3) by (auto simp: objects_inv_def)
  then show ?thesis unfolding read(1) to_phase_def by (intro objects_inv_put [OF inv]) simp_all
next
  case (drawn i p txid k a v f w)
  have "fl_ws s ! i \<in> set (fl_ws s)" "fw_ph (fl_ws s ! i) = Ph_next p txid" using drawn(2) by (simp_all add: in_phase_def)
  then have "p < fl_made s" using inv unfolding objects_inv_def by (metis phase_lt.simps(1))
  then show ?thesis unfolding drawn(1) by (intro objects_inv_put [OF inv]) simp_all
next
  case (plain i txid v a f w)
  show ?thesis unfolding plain(1) by (intro objects_inv_put [OF inv]) simp_all
next
  case (finish i f num qd res l lab u l')
  have "fl_ws s ! i \<in> set (fl_ws s)" "fw_ph (fl_ws s ! i) = Ph_out f num" using finish(2) by (simp_all add: in_phase_def)
  then have "stamp_lt (fl_made s) num" using inv unfolding objects_inv_def by (metis phase_lt.simps(2))
  then show ?thesis unfolding finish(1) by (intro objects_inv_put [OF inv]) (auto split: if_splits)
next
  case (leave_loop lab i u)
  have "fl_ws s ! i \<in> set (fl_ws s)" using leave_loop(4) by simp
  then have "phase_lt (fl_made s) (fw_ph (fl_ws s ! i))" using inv by (simp add: objects_inv_def)
  moreover have "makers (put_w i ((fl_ws s ! i)\<lparr>fw_l := worker_release (E i) (fw_l (fl_ws s ! i))\<rparr>) (s\<lparr>fl_run := u\<rparr>)) = makers s"
    using makers_put [of i "s\<lparr>fl_run := u\<rparr>" "(fl_ws s ! i)\<lparr>fw_l := worker_release (E i) (fw_l (fl_ws s ! i))\<rparr>"]
      leave_loop(4) by simp
  moreover have "\<forall>x \<in> set ((fl_ws s)[i := (fl_ws s ! i)\<lparr>fw_l := worker_release (E i) (fw_l (fl_ws s ! i))\<rparr>]).
      phase_lt (fl_made s) (fw_ph x)"
    using calculation(1) inv set_update_subset_insert [of "fl_ws s" i] by (force simp: objects_inv_def)
  ultimately show ?thesis unfolding leave_loop(1) using inv by (simp add: objects_inv_def split: option.splits if_splits)
qed (use inv in \<open>auto simp: objects_inv_def makers_def split: option.splits if_splits\<close>)

lemma fleet_objects: "fleet_reach E mc r s \<Longrightarrow> objects_inv r s"
  by (induction rule: fleet_reach.induct) (auto intro: objects_inv_init objects_inv_step)

section \<open>Properties\<close>

lemma rets_distinct:
  assumes "next_reach cfg n a" and "taken a \<le> 2 ^ 64"
  shows "count (mset (map snd (rets a))) v \<le> 1"
proof -
  have "mset (all_numbers a) = mset (map (\<lambda>i. a_next (seq_New cfg) + word_of_nat i) [0..<taken a])"
    using next_reach_inv [OF assms(1)] by (simp add: next_inv_def)
  then have "distinct (all_numbers a)"
    using distinct_block [OF assms(2)] mset_eq_imp_distinct_iff by blast
  then have "distinct (map snd (rets a))" by (simp add: all_numbers_def)
  then show ?thesis by (metis distinct_count_atmost_1 le_numeral_extra(3) less_one linorder_not_le nle_le zero_le)
qed

text \<open>The frames on the wire whose number came from flow \<open>k\<close> and is \<open>v\<close>.\<close>

definition stamped :: "FlowKey \<Rightarrow> u64 \<Rightarrow> fleet \<Rightarrow> nat" where
  "stamped k v s = length (filter (\<lambda>e. \<exists>p. fst (snd e) = Some (p, k, v)) (fl_wire s))"

lemma length_filter_Ex:
  fixes m :: nat
  assumes "\<forall>e \<in> set xs. \<forall>p. f e = Some (p, k, v) \<longrightarrow> p < m"
  shows "length (filter (\<lambda>e. \<exists>p. f e = Some (p, k, v)) xs) = (\<Sum>p<m. length (filter (\<lambda>e. f e = Some (p, k, v)) xs))"
  using assms
proof (induction xs)
  case Nil
  then show ?case by simp
next
  case (Cons x xs)
  have "(\<Sum>p<m. if f x = Some (p, k, v) then 1 else 0 :: nat) = (if \<exists>p. f x = Some (p, k, v) then 1 else 0)"
  proof (cases "\<exists>p. f x = Some (p, k, v)")
    case True
    then obtain q where q: "f x = Some (q, k, v)" "q < m" using Cons.prems by auto
    then have "(\<Sum>p<m. if f x = Some (p, k, v) then 1 else 0 :: nat) = (\<Sum>p<m. if p = q then 1 else 0)"
      by (intro sum.cong) auto
    also have "\<dots> = 1" using q(2) by (subst sum.delta) simp_all
    finally show ?thesis using True by simp
  qed simp
  moreover have "(\<Sum>p<m. length (filter (\<lambda>e. f e = Some (p, k, v)) (x # xs))) =
      (\<Sum>p<m. if f x = Some (p, k, v) then 1 else 0) + (\<Sum>p<m. length (filter (\<lambda>e. f e = Some (p, k, v)) xs))"
    unfolding sum.distrib [symmetric] by (intro sum.cong) auto
  ultimately show ?case using Cons by auto
qed

lemma stamped_le:
  assumes "fleet_reach E mc r s" and "\<forall>p k. taken (fl_alloc s p k) \<le> 2 ^ 64"
  shows "stamped k v s \<le> fl_made s"
proof -
  have lt: "\<forall>e \<in> set (fl_wire s). \<forall>p. fst (snd e) = Some (p, k, v) \<longrightarrow> p < fl_made s"
    using fleet_objects [OF assms(1)] by (auto simp: objects_inv_def)
  have "on_wire (p, k, v) s \<le> 1" for p
    using fleet_numbers_inv [OF assms(1)] rets_distinct [of "flow_cfg r" "fleet_size r" "fl_alloc s p k" v] assms(2)
    unfolding numbers_inv_def by (meson add_leD1 le_trans)
  then have "(\<Sum>p<fl_made s. on_wire (p, k, v) s) \<le> (\<Sum>p<fl_made s. 1)" by (intro sum_mono) simp
  then show ?thesis
    unfolding stamped_def length_filter_Ex [OF lt] by (simp add: on_wire_def)
qed

section \<open>A frame in direct mode, from token to wire\<close>

lemma to_phase_simps [simp]:
  "fl_run (to_phase i ph s) = fl_run s" "fl_pfa (to_phase i ph s) = fl_pfa s" "fl_made (to_phase i ph s) = fl_made s"
  "fl_alloc (to_phase i ph s) = fl_alloc s" "fl_wire (to_phase i ph s) = fl_wire s"
  "length (fl_ws (to_phase i ph s)) = length (fl_ws s)"
  by (simp_all add: to_phase_def)

lemma to_phase_same:
  "i < length (fl_ws s) \<Longrightarrow> in_phase i ph (to_phase i ph s)"
  "i < length (fl_ws s) \<Longrightarrow> fw_w (fl_ws (to_phase i ph s) ! i) = fw_w (fl_ws s ! i)"
  "i < length (fl_ws s) \<Longrightarrow> fw_l (fl_ws (to_phase i ph s) ! i) = fw_l (fl_ws s ! i)"
  by (simp_all add: to_phase_def in_phase_def)

text \<open>The first stamping of a direct-mode run installs the allocator on the way; from the TxID to the call of \<open>Next\<close>.\<close>

lemma first_lookup:
  assumes "fleet_reach E mc r s" and "in_phase i (Ph_look txid) s" and "fl_pfa s = None"
    and "c_Mode (r_cfg r) = ModeDirectMulticast"
  shows "\<exists>t. fleet_reach E mc r t \<and> in_phase i (Ph_next (fl_made s) txid) t \<and> fl_alloc t = fl_alloc s \<and>
     fl_run t = fl_run s \<and> fl_wire t = fl_wire s \<and> fw_w (fl_ws t ! i) = fw_w (fl_ws s ! i) \<and>
     fw_l (fl_ws t ! i) = fw_l (fl_ws s ! i)"
proof -
  define a where "a = to_phase i (Ph_check txid) s"
  define b where "b = to_phase i (Ph_store txid) a"
  define c where "c = to_phase i (Ph_read txid) (b\<lparr>fl_pfa := Some (fl_made b), fl_made := Suc (fl_made b)\<rparr>)"
  define d where "d = to_phase i (Ph_next (fl_made s) txid) c"
  have i: "i < length (fl_ws s)" using assms(2) by (simp add: in_phase_def)
  have li: "i < length (fl_ws a)" "i < length (fl_ws b)" "i < length (fl_ws c)" "i < length (fl_ws d)"
    using i by (simp_all add: a_def b_def c_def d_def)
  have "fleet_step E mc r s a"
    unfolding a_def by (rule fleet_step.look [OF assms(2)]) (simp add: assms(3,4))
  moreover have "fleet_step E mc r a b"
    unfolding b_def by (rule fleet_step.check [of i txid]) (simp_all add: a_def to_phase_same i assms(3))
  moreover have "fleet_step E mc r b c"
    unfolding c_def by (rule fleet_step.store) (simp add: b_def to_phase_same li)
  moreover have "fleet_step E mc r c d"
    unfolding d_def by (rule fleet_step.read [of i txid]) (simp_all add: c_def b_def a_def to_phase_same i)
  ultimately have "fleet_reach E mc r d" using assms(1) by (blast intro: fleet_more)
  moreover have "in_phase i (Ph_next (fl_made s) txid) d" unfolding d_def by (rule to_phase_same(1) [OF li(3)])
  moreover have "fw_w (fl_ws d ! i) = fw_w (fl_ws s ! i)" "fw_l (fl_ws d ! i) = fw_l (fl_ws s ! i)"
    using i by (simp_all add: d_def c_def b_def a_def to_phase_same)
  ultimately show ?thesis by (intro exI [of _ d]) (simp add: d_def c_def b_def a_def)
qed

text \<open>And from a fresh flow of that allocator to the wire, when the datagram goes out.\<close>

lemma fresh_draw:
  assumes "fleet_reach E mc r s" and "fleet_docs E r" and "in_phase i (Ph_next p txid) s"
    and al: "fl_alloc s p (flow_of (r_cfg r) (r_pool r) txid) = next_init (flow_cfg r) (fleet_size r)"
    and "r_pfa r = None" and "i < fleet_size r" and "at_pc (fl_run s) i W_busy"
    and "ln_tr (fw_l (fl_ws s ! i)) = Mcast" and "\<forall>k. we_dgram (E i) k = W_ok"
  shows "\<exists>t. fleet_reach E mc r t \<and> stamped (flow_of (r_cfg r) (r_pool r) txid) 1 t = Suc (stamped (flow_of (r_cfg r) (r_pool r) txid) 1 s) \<and>
     length (fl_wire t) = Suc (length (fl_wire s)) \<and> (\<forall>q j. taken (fl_alloc t q j) \<le> max 1 (taken (fl_alloc s q j)))"
proof -
  let ?k = "flow_of (r_cfg r) (r_pool r) txid"
  let ?a = "next_init (flow_cfg r) (fleet_size r)"
  have cfg: "flow_cfg r = \<lparr>Start = 1, GapEvery = 0, GapSize = 0, GapDelay = 0\<rparr>" using assms(5) by (simp add: flow_cfg_def)
  have v: "fetch_next (sh ?a) = (1, (sh ?a)\<lparr>a_next := 2\<rparr>)" "\<not> GapEnabled (sh ?a)"
    by (simp_all add: next_init_def seq_New_def cfg fetch_next_eq GapEnabled_def)
  define b where "b = ?a\<lparr>sh := (sh ?a)\<lparr>a_next := 2\<rparr>, rets := (i, 1) # rets ?a, taken := Suc (taken ?a)\<rparr>"
  have own: "own_step i ?a b" "rets b = (i, 1) # rets ?a"
    unfolding own_step_def b_def using next_step.fetch_plain [of i ?a 1 "(sh ?a)\<lparr>a_next := 2\<rparr>"] v assms(6)
    by (simp_all add: next_init_def)
  obtain f w where e: "emit (E i) mc r (Some 1) txid (fw_w (fl_ws s ! i)) = (f, w)" by (metis surj_pair)
  define s1 where "s1 = put_w i ((fl_ws s ! i)\<lparr>fw_w := w, fw_ph := Ph_out f (Some (p, ?k, 1))\<rparr>)
      (s\<lparr>fl_alloc := (fl_alloc s)(p := (fl_alloc s p)(?k := b))\<rparr>)"
  have step1: "fleet_step E mc r s s1"
    unfolding s1_def by (rule fleet_step.drawn [where E = E and txid = txid]) (use assms(3) own al e in simp_all)
  have i: "i < length (fl_ws s)" using assms(3) by (simp add: in_phase_def)
  have r1: "fleet_reach E mc r s1" using assms(1) step1 by (rule fleet_more)
  have ph: "in_phase i (Ph_out f (Some (p, ?k, 1))) s1" using i by (simp add: s1_def in_phase_def)
  have "slot_ok (E i) mc r (fl_ws s1 ! i)" using slot_of [OF fleet_frames_inv [OF r1 assms(2)] ph] by blast
  then obtain bs where bs: "f = Built bs" using i by (auto simp: slot_ok_def s1_def good_num_def good_frame_num_def)
  obtain res l where w: "write_out (E i) mc r 0 f (fl_ws s1 ! i) = (res, l)" by (metis surj_pair)
  have res: "res = W_ok" using w bs i assms(8,9) by (simp add: write_out_def worker_write_def s1_def Let_def)
  define u where "u = move i W_idle ((fl_run s)\<lparr>n_sent := Suc (n_sent (fl_run s))\<rparr>)"
  define t where "t = put_w i ((fl_ws s1 ! i)\<lparr>fw_l := l, fw_ph := Ph_none\<rparr>)
      (s1\<lparr>fl_run := u, fl_wire := fl_wire s1 @ [(i, Some (p, ?k, 1), last (ln_sent l))]\<rparr>)"
  have "fleet_step E mc r s1 t"
    unfolding t_def using fleet_step.finish [where E = E and lab = "WSent i" and t = u and l' = l, OF ph w] bs res assms(7)
    by (simp add: token_label_def protocol_def s1_def u_def)
  with r1 have "fleet_reach E mc r t" by (rule fleet_more)
  moreover have "taken (fl_alloc t q j) \<le> max 1 (taken (fl_alloc s q j))" for q j
    by (simp add: t_def s1_def b_def next_init_def)
  ultimately show ?thesis by (intro exI [of _ t]) (simp add: t_def s1_def stamped_def)
qed

text \<open>The counters of a run and the frames counted.\<close>

lemma fleet_counts:
  assumes "fleet_reach E mc r s"
  shows "(\<exists>ls. sender_run (c_Count (r_cfg r)) (c_Workers (r_cfg r)) ls = Some (fl_run s)) \<and>
     n_sent (fl_run s) = length (fl_wire s) \<and>
     n_sent (fl_run s) = (\<Sum>fw\<leftarrow>fl_ws s. length (ln_sent (fw_l fw))) \<and>
     (\<forall>i < length (fl_ws s). let l = fw_l (fl_ws s ! i) in
        ln_tr l \<noteq> Tcp \<longrightarrow> length (ln_sent l) = length (filter (\<lambda>k. we_dgram (E i) k = W_ok) [0..<ln_tries l])) \<and>
     (0 < c_Count (r_cfg r) \<longrightarrow> length (fl_wire s) \<le> unat (c_Count (r_cfg r)) \<and>
        (by_count (fl_run s) \<and> returned (fl_run s) \<longrightarrow>
           length (fl_wire s) + run_sys.dropped (fl_run s) + late (fl_run s) + chan (fl_run s) = unat (c_Count (r_cfg r))))"
proof -
  note run = fleet_run [OF assms]
  then have inv: "run_inv (c_Count (r_cfg r)) (fl_run s)" using sender_run_inv by blast
  have "busy (fl_run s) = 0" if "returned (fl_run s)"
    using that by (auto simp: returned_def busy_def count_list_0_iff)
  then have "0 < c_Count (r_cfg r) \<longrightarrow> length (fl_wire s) \<le> unat (c_Count (r_cfg r)) \<and>
        (by_count (fl_run s) \<and> returned (fl_run s) \<longrightarrow>
           length (fl_wire s) + run_sys.dropped (fl_run s) + late (fl_run s) + chan (fl_run s) = unat (c_Count (r_cfg r)))"
    using inv run by (auto simp: run_inv_def live_def)
  moreover have "\<forall>i < length (fl_ws s). let l = fw_l (fl_ws s ! i) in
        ln_tr l \<noteq> Tcp \<longrightarrow> length (ln_sent l) = length (filter (\<lambda>k. we_dgram (E i) k = W_ok) [0..<ln_tries l])"
    using fleet_tries [OF assms] by (simp add: tries_ok_def Let_def)
  ultimately show ?thesis using run sent_total [OF assms] by simp
qed

text \<open>The dispatcher alone, and a fleet whose first worker has taken the first token.\<close>

lemma dispatch_path:
  "fleet_reach E mc r s \<Longrightarrow> set ls \<subseteq> {Cancel, DCheck, DPace, DSend, DCtx, DAdd} \<Longrightarrow>
   run_path (c_Count (r_cfg r)) (nat (c_Workers (r_cfg r) * 2)) ls (fl_run s) = Some u \<Longrightarrow>
   fleet_reach E mc r (s\<lparr>fl_run := u\<rparr>)"
proof (induction ls arbitrary: s)
  case Nil
  then have "s\<lparr>fl_run := u\<rparr> = s" by (cases s) simp
  then show ?case using Nil.prems(1) by simp
next
  case (Cons l ls)
  obtain t where t: "protocol r l s t" "run_path (c_Count (r_cfg r)) (nat (c_Workers (r_cfg r) * 2)) ls t = Some u"
    using Cons.prems(3) by (auto simp: protocol_def split: option.splits)
  have "fleet_reach E mc r (s\<lparr>fl_run := t\<rparr>)"
    using Cons.prems(1,2) t(1) by (intro fleet_more [OF Cons.prems(1)] fleet_step.dispatch [of l]) auto
  from Cons.IH [OF this] Cons.prems(2) t(2) show ?case by simp
qed

lemma fair_fleet_docs: "fleet_docs (\<lambda>_. fair_env) (fair_runner m)"
proof -
  have "r_pool (fair_runner m) = \<lparr>ids = [replicate 32 5]\<rparr>" by (simp add: fair_runner_def sender_New_def Let_def)
  then show ?thesis using fair_docs fair_ok by (simp add: fleet_docs_def)
qed

lemma fair_fleet_taken:
  assumes "m \<noteq> ModeUnknown"
  shows "\<exists>s txid. fleet_reach (\<lambda>_. fair_env) fair_mc (fair_runner m) s \<and> in_phase 0 (Ph_look txid) s \<and>
     fl_pfa s = None \<and> fl_made s = 0 \<and> fl_wire s = [] \<and>
     fl_run s = \<lparr>issued = 1, n_sent = 0, n_errs = 0, chan = 0, closed = False, cancelled = False, disp = D_top,
       wks = [W_busy, W_start], dropped = 0, late = 0, by_count = False\<rparr> \<and>
     ln_tr (fw_l (fl_ws s ! 0)) = (if m = ModeDirectMulticast then Mcast else Tcp) \<and>
     (\<forall>p k. fl_alloc s p k = next_init (flow_cfg (fair_runner m)) 2)"
proof -
  let ?tr = "if m = ModeDirectMulticast then Mcast else Tcp"
  let ?r = "fair_runner m" and ?E = "\<lambda>_ :: nat. fair_env"
  have r: "c_Workers (r_cfg ?r) = 2" "c_Count (r_cfg ?r) = 10" "c_Mode (r_cfg ?r) = m" "r_pfa ?r = None"
    by (simp_all add: fair_runner_def sender_New_def demo_cfg_def demo_alloc_def seq_New_def GapEnabled_def Let_def)
  define slot where "slot = \<lparr>fw_w = worker_start ref_frame (r_cfg ?r) 0 (replicate 32 0), fw_l = link_new ?tr, fw_ph = Ph_none\<rparr>"
  define s1 where "s1 = put_w 0 slot ((fleet_init ?E ?r)\<lparr>fl_run := move 0 W_idle (run_init 2)\<rparr>)"
  have "c_TCP (r_cfg ?r)" by (simp add: fair_runner_def sender_New_def demo_cfg_def Let_def)
  then obtain evs where op: "worker_open fair_env (r_cfg ?r) fair_mc = (Some ?tr, evs)"
    using assms r(3) by (cases m) (simp_all add: worker_open_def openMulticastEgress_def fair_env_def fair_mc_def)
  have "fleet_step ?E fair_mc ?r (fleet_init ?E ?r) s1"
    unfolding s1_def slot_def
    using fleet_step.start [where E = ?E and i = 0 and seed = "replicate 32 0" and t = "move 0 W_idle (run_init 2)" and r = ?r
        and s = "fleet_init ?E ?r", OF _ op]
    by (simp add: fair_env_def protocol_def fleet_init_def r at_pc_def run_init_def)
  then have s1: "fleet_reach ?E fair_mc ?r s1" using fleet_start fleet_more by blast
  have run: "fl_run s1 = move 0 W_idle (run_init 2)" by (simp add: s1_def)
  define u where "u = the (run_path 10 4 [DCheck, DPace, DSend, DAdd] (fl_run s1))"
  have u: "run_path 10 4 [DCheck, DPace, DSend, DAdd] (fl_run s1) = Some u" "chan u = 1" "at_pc u 0 W_idle"
    "move 0 W_busy (u\<lparr>chan := 0\<rparr>) = \<lparr>issued = 1, n_sent = 0, n_errs = 0, chan = 0, closed = False, cancelled = False,
       disp = D_top, wks = [W_busy, W_start], dropped = 0, late = 0, by_count = False\<rparr>"
    by (simp_all add: u_def run run_init_def move_def at_pc_def numeral_2_eq_2)
  have s2: "fleet_reach ?E fair_mc ?r (s1\<lparr>fl_run := u\<rparr>)"
  proof (rule dispatch_path [OF s1])
    have "nat (2 * 2) = (4 :: nat)" by simp
    then show "run_path (c_Count (r_cfg ?r)) (nat (c_Workers (r_cfg ?r) * 2)) [DCheck, DPace, DSend, DAdd] (fl_run s1) = Some u"
      using u(1) by (simp only: r)
  qed simp
  have d: "txid_doc (we_obj fair_env) tx_obj" "send_ok (r_cfg ?r) (r_pool ?r)" "worker_ok ref_frame (r_cfg ?r) False 0 (fw_w slot)"
    using fair_fleet_docs [of m] start_ok by (simp_all add: fleet_docs_def slot_def)
  obtain txid w where t: "take_payload (we_obj fair_env) (r_cfg ?r) None (fw_w slot) = (Inr txid, w)"
    using take_payload_good [OF d] by blast
  define s3 where "s3 = put_w 0 (slot\<lparr>fw_w := w, fw_ph := Ph_look txid\<rparr>) (s1\<lparr>fl_run := move 0 W_busy (u\<lparr>chan := 0\<rparr>)\<rparr>)"
  have len: "length (fl_ws s1) = 2" "fl_ws s1 ! 0 = slot" by (simp_all add: s1_def fleet_init_def fleet_size_def r)
  have "fleet_step ?E fair_mc ?r (s1\<lparr>fl_run := u\<rparr>) s3"
    using fleet_step.receive [where E = ?E and i = 0 and s = "s1\<lparr>fl_run := u\<rparr>" and t = "move 0 W_busy (u\<lparr>chan := 0\<rparr>)"
        and mc = fair_mc and r = ?r and rnd = None and res = "Inr txid" and w = w and ph = "Ph_look txid"]
      u(2,3) t len by (simp add: protocol_def in_phase_def s3_def slot_def)
  then have "fleet_reach ?E fair_mc ?r s3" using s2 fleet_more by blast
  moreover have "fl_run s3 = \<lparr>issued = 1, n_sent = 0, n_errs = 0, chan = 0, closed = False, cancelled = False,
       disp = D_top, wks = [W_busy, W_start], dropped = 0, late = 0, by_count = False\<rparr>" using u(4) by (simp add: s3_def)
  moreover have "in_phase 0 (Ph_look txid) s3" "fl_pfa s3 = None" "fl_made s3 = 0" "fl_wire s3 = []"
    "ln_tr (fw_l (fl_ws s3 ! 0)) = ?tr" "\<forall>p k. fl_alloc s3 p k = next_init (flow_cfg ?r) 2"
    using len by (simp_all add: s3_def in_phase_def s1_def fleet_init_def fleet_size_def r slot_def link_new_def)
  ultimately show ?thesis by blast
qed

lemma fair_fleet_sent:
  "\<exists>s k. fleet_reach (\<lambda>_. fair_env) fair_mc (fair_runner ModeDirectMulticast) s \<and> length (fl_wire s) = 1 \<and>
     stamped k 1 s = 1 \<and> (\<forall>q j. taken (fl_alloc s q j) \<le> 1)"
proof -
  let ?r = "fair_runner ModeDirectMulticast" and ?E = "\<lambda>_ :: nat. fair_env"
  obtain s txid where s: "fleet_reach ?E fair_mc ?r s" "in_phase 0 (Ph_look txid) s" "fl_pfa s = None" "fl_made s = 0"
    "fl_wire s = []" "at_pc (fl_run s) 0 W_busy" "ln_tr (fw_l (fl_ws s ! 0)) = Mcast"
    "\<forall>p k. fl_alloc s p k = next_init (flow_cfg ?r) 2"
    using fair_fleet_taken [of ModeDirectMulticast] by (auto simp: at_pc_def)
  have r: "c_Mode (r_cfg ?r) = ModeDirectMulticast" "r_pfa ?r = None" "fleet_size ?r = 2"
    by (simp_all add: fair_runner_def sender_New_def demo_cfg_def demo_alloc_def seq_New_def GapEnabled_def fleet_size_def Let_def)
  obtain t where t: "fleet_reach ?E fair_mc ?r t" "in_phase 0 (Ph_next 0 txid) t" "fl_alloc t = fl_alloc s" "fl_run t = fl_run s"
    "fl_wire t = []" "fw_l (fl_ws t ! 0) = fw_l (fl_ws s ! 0)"
    using first_lookup [OF s(1-3) r(1)] s(4,5) by auto
  have "\<forall>k. we_dgram fair_env k = W_ok" by (simp add: fair_env_def)
  with fresh_draw [OF t(1) fair_fleet_docs t(2) _ r(2)] s(6-8) t(3,4,6) r(3) obtain u where
    u: "fleet_reach ?E fair_mc ?r u"
      "stamped (flow_of (r_cfg ?r) (r_pool ?r) txid) 1 u = Suc (stamped (flow_of (r_cfg ?r) (r_pool ?r) txid) 1 t)"
      "length (fl_wire u) = Suc (length (fl_wire t))" "\<forall>q j. taken (fl_alloc u q j) \<le> max 1 (taken (fl_alloc t q j))"
    by auto
  have "taken (fl_alloc t q j) = 0" for q j using s(8) t(3) by (simp add: next_init_def)
  then have "\<forall>q j. taken (fl_alloc u q j) \<le> 1" using u(4) by (metis max.absorb1 zero_le)
  with u(1-3) t(5) show ?thesis by (intro exI conjI) (assumption | simp add: stamped_def)+
qed

text \<open>C11: The run of all workers refines the token protocol. Whatever the interleaving of the dispatcher and the
  workers, and whatever the network does, the shared counters evolve as in some run of the protocol, and the
  sent counter is exactly the number of frames whose write a worker's connection accepted, over all workers; on
  a datagram connection these are the datagram writes that succeeded, so a failed write is never counted (on
  TCP an accepted frame may still be in the buffer). So with a count never more than \<open>Count\<close> frames are accepted,
  and when \<open>Run\<close> returns after reaching it, the frames accepted and the tokens lost add up to exactly \<open>Count\<close>.\<close>

theorem fleet_refines_run:
  assumes "fleet_reach E mc r s"
  shows "(\<exists>ls. sender_run (c_Count (r_cfg r)) (c_Workers (r_cfg r)) ls = Some (fl_run s)) \<and>
     n_sent (fl_run s) = length (fl_wire s) \<and>
     n_sent (fl_run s) = (\<Sum>fw\<leftarrow>fl_ws s. length (ln_sent (fw_l fw))) \<and>
     (\<forall>i < length (fl_ws s). let l = fw_l (fl_ws s ! i) in
        ln_tr l \<noteq> Tcp \<longrightarrow> length (ln_sent l) = length (filter (\<lambda>k. we_dgram (E i) k = W_ok) [0..<ln_tries l])) \<and>
     (0 < c_Count (r_cfg r) \<longrightarrow> length (fl_wire s) \<le> unat (c_Count (r_cfg r)) \<and>
        (by_count (fl_run s) \<and> returned (fl_run s) \<longrightarrow>
           length (fl_wire s) + run_sys.dropped (fl_run s) + late (fl_run s) + chan (fl_run s) = unat (c_Count (r_cfg r))))"
  by (rule fleet_counts [OF assms])

theorem fleet_refines_run_witness:
  "\<exists>s. fleet_reach (\<lambda>_. fair_env) fair_mc (fair_runner ModeDirectMulticast) s \<and> length (fl_wire s) = 1 \<and>
     n_sent (fl_run s) = 1"
proof -
  obtain s where "fleet_reach (\<lambda>_. fair_env) fair_mc (fair_runner ModeDirectMulticast) s" "length (fl_wire s) = 1"
    using fair_fleet_sent by blast
  with fleet_refines_run [OF this(1)] show ?thesis by auto
qed

text \<open>C12: Every frame counted is right, in every interleaving: it is a good frame of the configuration, it went
  to the group its own TxID selects in direct mode, its header carries the number drawn for the flow of that
  TxID, or zero exactly when the run stamps nothing; and each worker's connection carries exactly the frames
  counted for that worker, in order, as a stream without gaps when it is a TCP connection that does not
  fail.\<close>

theorem fleet_frames:
  assumes "fleet_reach E mc r s" and "fleet_docs E r"
  shows "list_all (\<lambda>(i, e). wire_good (E i) mc r e) (fl_wire s) \<and>
     (\<forall>i < length (fl_ws s). sent_by i s = ln_sent (fw_l (fl_ws s ! i)) \<and>
        (ln_tr (fw_l (fl_ws s ! i)) = Tcp \<and> quiet (we_net (E i)) \<longrightarrow>
           bw_out (ln_buf (fw_l (fl_ws s ! i))) @ bw_buf (ln_buf (fw_l (fl_ws s ! i))) = concat (map snd (sent_by i s))))"
proof -
  note inv = fleet_frames_inv [OF assms] and links = fleet_links [OF assms(1)]
  have "link_inv (E i) mc (r_cfg r) (r_pool r) (plain_run r) (fw_l (fl_ws s ! i))" if "i < length (fl_ws s)" for i
    using inv that by (auto simp: frames_inv_def slot_ok_def)
  then show ?thesis
    using inv links by (auto simp: frames_inv_def links_inv_def list_all_iff link_inv_def holds_def)
qed

theorem fleet_frames_witness:
  "\<exists>s e. fleet_reach (\<lambda>_. fair_env) fair_mc (fair_runner ModeDirectMulticast) s \<and> fl_wire s = [e] \<and>
     wire_good fair_env fair_mc (fair_runner ModeDirectMulticast) (snd e)"
proof -
  obtain s where s: "fleet_reach (\<lambda>_. fair_env) fair_mc (fair_runner ModeDirectMulticast) s" "length (fl_wire s) = 1"
    using fair_fleet_sent by blast
  then obtain e where "fl_wire s = [e]" by (auto simp: length_Suc_conv)
  moreover from this fleet_frames [OF s(1) fair_fleet_docs]
  have "wire_good fair_env fair_mc (fair_runner ModeDirectMulticast) (snd e)" by (auto simp: case_prod_beta)
  ultimately show ?thesis using s(1) by blast
qed

text \<open>C13: Sequence numbers across workers. With gap injection no number of a flow is on two frames counted, however
  the calls of the workers interleave; in direct mode without it, where the allocator is installed without
  synchronisation, a number of a flow is on at most one frame per allocator installed, and no more are
  installed than there are workers, so with a single worker numbers are unique. This holds as long as no allocator has
  taken more than \<open>2 ^ 64\<close> numbers for a flow, where the 64-bit counter wraps. Without gap injection and outside direct
  mode no frame is stamped and no allocator installed; otherwise every frame is stamped.\<close>

theorem fleet_numbers:
  assumes "fleet_reach E mc r s" and "\<forall>p k. taken (fl_alloc s p k) \<le> 2 ^ 64"
  shows "stamped k v s \<le> fl_made s \<and>
     fl_made s \<le> (if r_pfa r \<noteq> None then 1 else fleet_size r) \<and>
     (if r_pfa r = None \<and> c_Mode (r_cfg r) \<noteq> ModeDirectMulticast
      then list_all (\<lambda>(i, num, d). num = None) (fl_wire s) \<and> fl_made s = 0
      else list_all (\<lambda>(i, num, d). num \<noteq> None) (fl_wire s))"
proof -
  have "fl_made s \<le> (if r_pfa r \<noteq> None then 1 else fleet_size r)" "fl_pfa s = None \<longrightarrow> fl_made s = 0"
    using fleet_objects [OF assms(1)] by (auto simp: objects_inv_def split: option.splits if_splits)
  then show ?thesis
    using stamped_le [OF assms] fleet_stamps [OF assms(1)]
    by (auto simp: stamps_inv_def plain_run_def list_all_iff)
qed

theorem fleet_numbers_witness:
  "\<exists>s k. fleet_reach (\<lambda>_. fair_env) fair_mc (fair_runner ModeDirectMulticast) s \<and> stamped k 1 s = 1 \<and>
     stamped k 1 s \<le> fl_made s \<and> fl_made s \<le> 2"
proof -
  let ?r = "fair_runner ModeDirectMulticast"
  obtain s k where s: "fleet_reach (\<lambda>_. fair_env) fair_mc ?r s" "stamped k 1 s = 1" "\<forall>q j. taken (fl_alloc s q j) \<le> 1"
    using fair_fleet_sent by blast
  have t: "\<forall>p k. taken (fl_alloc s p k) \<le> 2 ^ 64"
  proof (intro allI)
    fix q j
    have "taken (fl_alloc s q j) \<le> 1" using s(3) by blast
    also have "(1 :: nat) \<le> 2 ^ 64" by simp
    finally show "taken (fl_alloc s q j) \<le> 2 ^ 64" .
  qed
  have "r_pfa ?r = None" "fleet_size ?r = 2"
    by (simp_all add: fair_runner_def sender_New_def demo_cfg_def demo_alloc_def seq_New_def GapEnabled_def fleet_size_def Let_def)
  then have "stamped k 1 s \<le> fl_made s \<and> fl_made s \<le> 2" using fleet_numbers [OF s(1) t, of k 1] by simp
  then show ?thesis using s(1,2) by blast
qed

end
