(* ===== verification/Sender_Log.thy ===== *)
theory Sender_Log
  imports Sender_Fleet
begin

text \<open>
  \<open>internal/sender\<close>, last part: the byte counter and the periodic logger. A worker adds to \<open>sent\<close> and then to
  \<open>bytes\<close>, two atomic operations; the logger loads \<open>sent\<close>, then \<open>bytes\<close>, computes the interval since its last
  report, loads \<open>errors\<close> and prints. All of it interleaves with the fleet. A report holds the totals and the
  differences printed; the rates are the differences over the interval, in \<open>float64\<close>, and are left to the reader.
\<close>

section \<open>State and steps\<close>

record report =
  rp_sent :: u64
  rp_frames :: u64
  rp_bytes :: u64
  rp_ns :: int
  rp_errs :: u64

text \<open>Where the logger is; between its loads it holds the tick and what it has loaded.\<close>

datatype log_pc = Lg_wait | Lg_sent int | Lg_bytes int u64 | Lg_show int u64 u64 | Lg_done

text \<open>\<open>lr_late i\<close> is the size of a frame worker \<open>i\<close> has counted in \<open>sent\<close> and not yet in \<open>bytes\<close>.\<close>

record logged_run =
  lr_fleet :: fleet
  lr_bytes :: u64
  lr_late :: "nat \<Rightarrow> nat option"
  lr_pc :: log_pc
  lr_lastSent :: u64
  lr_lastBytes :: u64
  lr_lastTime :: int
  lr_out :: "report list"

definition log_init :: "(nat \<Rightarrow> worker_env) \<Rightarrow> Runner \<Rightarrow> int \<Rightarrow> logged_run" where
  "log_init E r t0 =
     \<lparr>lr_fleet = fleet_init E r, lr_bytes = 0, lr_late = (\<lambda>_. None), lr_pc = Lg_wait, lr_lastSent = 0, lr_lastBytes = 0,
      lr_lastTime = t0, lr_out = []\<rparr>"

definition Sent :: "logged_run \<Rightarrow> u64" where
  "Sent s = word_of_nat (n_sent (fl_run (lr_fleet s)))"

definition Errors :: "logged_run \<Rightarrow> u64" where
  "Errors s = word_of_nat (n_errs (fl_run (lr_fleet s)))"

text \<open>A worker between its two additions does nothing else.\<close>

definition frozen :: "logged_run \<Rightarrow> fleet \<Rightarrow> bool" where
  "frozen s t \<longleftrightarrow> (\<forall>i < length (fl_ws t). lr_late s i \<noteq> None \<longrightarrow>
     fl_ws t ! i = fl_ws (lr_fleet s) ! i \<and> wks (fl_run t) ! i = wks (fl_run (lr_fleet s)) ! i)"

definition show_report :: "int \<Rightarrow> u64 \<Rightarrow> u64 \<Rightarrow> logged_run \<Rightarrow> logged_run" where
  "show_report now sn b s =
     (let dt = now - lr_lastTime s in
      if dt \<le> 0 then s\<lparr>lr_pc := Lg_wait\<rparr>
      else s\<lparr>lr_pc := Lg_wait,
             lr_out := lr_out s @ [\<lparr>rp_sent = sn, rp_frames = sn - lr_lastSent s, rp_bytes = b - lr_lastBytes s,
                                   rp_ns = dt, rp_errs = Errors s\<rparr>],
             lr_lastSent := sn, lr_lastBytes := b, lr_lastTime := now\<rparr>)"

inductive log_step :: "(nat \<Rightarrow> worker_env) \<Rightarrow> mcast \<Rightarrow> Runner \<Rightarrow> logged_run \<Rightarrow> logged_run \<Rightarrow> bool" for E mc r where
  work: "fleet_step E mc r (lr_fleet s) t \<Longrightarrow> frozen s t \<Longrightarrow> fl_wire t = fl_wire (lr_fleet s) \<Longrightarrow>
     log_step E mc r s (s\<lparr>lr_fleet := t\<rparr>)"
| count_frame: "fleet_step E mc r (lr_fleet s) t \<Longrightarrow> frozen s t \<Longrightarrow> lr_late s i = None \<Longrightarrow>
     fl_wire t = fl_wire (lr_fleet s) @ [(i, num, dst, bs)] \<Longrightarrow>
     log_step E mc r s (s\<lparr>lr_fleet := t, lr_late := (lr_late s)(i \<mapsto> length bs)\<rparr>)"
| count_bytes: "lr_late s i = Some n \<Longrightarrow>
     log_step E mc r s (s\<lparr>lr_bytes := lr_bytes s + word_of_nat n, lr_late := (lr_late s)(i := None)\<rparr>)"
| tick: "lr_pc s = Lg_wait \<Longrightarrow> log_step E mc r s (s\<lparr>lr_pc := Lg_sent now\<rparr>)"
| load_sent: "lr_pc s = Lg_sent now \<Longrightarrow> log_step E mc r s (s\<lparr>lr_pc := Lg_bytes now (Sent s)\<rparr>)"
| load_bytes: "lr_pc s = Lg_bytes now sn \<Longrightarrow> log_step E mc r s (s\<lparr>lr_pc := Lg_show now sn (lr_bytes s)\<rparr>)"
| shown: "lr_pc s = Lg_show now sn b \<Longrightarrow> log_step E mc r s (show_report now sn b s)"
| stop: "lr_pc s = Lg_wait \<Longrightarrow> cancelled (fl_run (lr_fleet s)) \<or> returned (fl_run (lr_fleet s)) \<Longrightarrow>
     log_step E mc r s (s\<lparr>lr_pc := Lg_done\<rparr>)"

inductive log_reach :: "(nat \<Rightarrow> worker_env) \<Rightarrow> mcast \<Rightarrow> Runner \<Rightarrow> int \<Rightarrow> logged_run \<Rightarrow> bool" for E mc r t0 where
  log_start: "log_reach E mc r t0 (log_init E r t0)"
| log_more: "log_reach E mc r t0 s \<Longrightarrow> log_step E mc r s t \<Longrightarrow> log_reach E mc r t0 t"

lemma log_fleet: "log_reach E mc r t0 s \<Longrightarrow> fleet_reach E mc r (lr_fleet s)"
proof (induction rule: log_reach.induct)
  case log_start
  then show ?case by (simp add: log_init_def fleet_start)
next
  case (log_more s t)
  from log_more.hyps(2) log_more.IH show ?case
    by (cases rule: log_step.cases) (auto intro: fleet_more simp: show_report_def Let_def)
qed

section \<open>Frames all have one size\<close>

definition frame_size :: "SendConfig \<Rightarrow> nat" where
  "frame_size cfg = (if c_FrameVersion cfg = V1 then 44 else 92) + nat (c_PayloadSize cfg)"

lemma good_size:
  assumes "txid_doc ob tx_obj" and "send_ok cfg pool" and "good_frame_num ob hash src cfg pool n rnd txid sn (Built f)"
  shows "length f = frame_size cfg"
proof -
  obtain t cid sub where t: "if useEF (c_PayloadFormat cfg) n then ef_obj t else raw_obj t"
    "int (length t) = c_PayloadSize cfg" "obj_TxID ob t = Some cid" "txid = corrupt_txid (c_CorruptTxIDRate cfg) rnd cid"
    "sub = Pool_Pick pool (word_of_nat (un_be (take 8 txid)))"
    "frame_result.Built f = frame_result.Built (frame_of cfg txid
       (if c_Mode cfg = ModeDirectMulticast then hash src (groupIdx (c_ShardBits cfg) txid) sub else 0) sn sub t)"
    using assms(3) unfolding good_frame_num_def by blast
  have "tx_obj t" using t(1) by (auto simp: tx_obj_def split: if_splits)
  then have "length cid = 32" using assms(1) t(3) unfolding txid_doc_def by fastforce
  moreover have "length sub = 32" unfolding t(5) using assms(2) by (intro Pick_length) (auto simp: send_ok_def)
  moreover have "nat (c_PayloadSize cfg) = length t" using t(2) by (metis nat_int)
  ultimately show ?thesis using t(4,6) by (auto simp: frame_of_def frame_size_def header44_def length_header92)
qed

definition wire_bytes :: "fleet \<Rightarrow> nat" where
  "wire_bytes s = sum_list (map (\<lambda>(i, num, dst, bs). length bs) (fl_wire s))"

lemma wire_sizes:
  assumes "fleet_docs E r" and "fleet_reach E mc r s"
  shows "\<forall>(i, num, dst, bs) \<in> set (fl_wire s). length bs = frame_size (r_cfg r)"
proof -
  have "length bs = frame_size (r_cfg r)" if "wire_good (E i) mc r (num, dst, bs)" for i num dst bs
  proof -
    have d: "txid_doc (we_obj (E i)) tx_obj" "send_ok (r_cfg r) (r_pool r)" using assms(1) by (simp_all add: fleet_docs_def)
    show ?thesis using that good_size [OF d] unfolding wire_good_def good_num_def by auto
  qed
  then show ?thesis using fleet_frames_inv [OF assms(2,1)] unfolding frames_inv_def by fast
qed

lemma wire_total:
  assumes "fleet_docs E r" and "fleet_reach E mc r s"
  shows "wire_bytes s = n_sent (fl_run s) * frame_size (r_cfg r)"
proof -
  have "sum_list (map (\<lambda>(i, num, dst, bs). length bs) xs) = length xs * sz"
    if "\<forall>(i, num, dst, bs) \<in> set xs. length bs = sz" for xs :: "(nat \<times> stamp option \<times> string option \<times> bytes) list" and sz
    using that by (induction xs) auto
  from this [OF wire_sizes [OF assms]] fleet_run [OF assms(2)] show ?thesis by (simp add: wire_bytes_def)
qed

section \<open>One step of the fleet\<close>

text \<open>A worker that has just been counted in \<open>sent\<close> is idle.\<close>

lemma counted_idle:
  assumes "fleet_step E mc r s t" and "fl_wire t = fl_wire s @ [(i, e)]"
  shows "i < length (fl_ws t) \<and> wks (fl_run t) ! i = W_idle \<and> i < length (wks (fl_run t))"
  using assms(1)
proof (cases rule: fleet_step.cases)
  case (finish j f num qd res l lab u l')
  then have "j = i" "lab = WSent i" using assms(2) by (auto split: if_splits)
  with finish show ?thesis by (auto simp: protocol_def in_phase_def move_def at_pc_def split: if_splits)
qed (use assms(2) in \<open>auto simp: to_phase_def\<close>)

lemma fleet_step_length: "fleet_step E mc r s t \<Longrightarrow> length (fl_ws t) = length (fl_ws s)"
  by (cases rule: fleet_step.cases) (auto simp: to_phase_def)

lemma fleet_length: "fleet_reach E mc r s \<Longrightarrow> length (fl_ws s) = fleet_size r"
proof (induction rule: fleet_reach.induct)
  case fleet_start
  show ?case by (simp add: fleet_init_def)
next
  case (fleet_more s t)
  then show ?case using fleet_step_length by metis
qed

section \<open>The byte counter\<close>

definition late_total :: "nat \<Rightarrow> (nat \<Rightarrow> nat option) \<Rightarrow> nat" where
  "late_total n f = (\<Sum>i<n. case f i of None \<Rightarrow> 0 | Some k \<Rightarrow> k)"

lemma late_total_put:
  assumes "i < n"
  shows "late_total n (f(i := v)) + (case f i of None \<Rightarrow> 0 | Some k \<Rightarrow> k) =
     late_total n f + (case v of None \<Rightarrow> 0 | Some k \<Rightarrow> k)"
proof -
  have split: "late_total n g = (case g i of None \<Rightarrow> 0 | Some k \<Rightarrow> k) + (\<Sum>j \<in> {..<n} - {i}. case g j of None \<Rightarrow> 0 | Some k \<Rightarrow> k)" for g
    unfolding late_total_def using assms by (intro sum.remove) auto
  have "(\<Sum>j \<in> {..<n} - {i}. case (f(i := v)) j of None \<Rightarrow> 0 | Some k \<Rightarrow> k) = (\<Sum>j \<in> {..<n} - {i}. case f j of None \<Rightarrow> 0 | Some k \<Rightarrow> k)"
    by (intro sum.cong) auto
  then show ?thesis by (simp add: split [of f] split [of "f(i := v)"])
qed

lemma late_total_le: "(\<And>i k. f i = Some k \<Longrightarrow> k \<le> m) \<Longrightarrow> late_total n f \<le> n * m"
  unfolding late_total_def using sum_bounded_above [of "{..<n}" "\<lambda>i. case f i of None \<Rightarrow> 0 | Some k \<Rightarrow> k" m]
  by (auto split: option.split)

text \<open>What is in \<open>bytes\<close>, and what the workers still have to add.\<close>

definition late_ok :: "Runner \<Rightarrow> logged_run \<Rightarrow> bool" where
  "late_ok r s \<longleftrightarrow> (\<forall>i n. lr_late s i = Some n \<longrightarrow>
     i < length (fl_ws (lr_fleet s)) \<and> wks (fl_run (lr_fleet s)) ! i = W_idle \<and> n = frame_size (r_cfg r))"

definition counters_inv :: "Runner \<Rightarrow> logged_run \<Rightarrow> bool" where
  "counters_inv r s \<longleftrightarrow> late_ok r s \<and>
     (\<exists>k. lr_bytes s = word_of_nat k \<and> k + late_total (length (fl_ws (lr_fleet s))) (lr_late s) = wire_bytes (lr_fleet s))"

lemma late_ok_frozen:
  assumes "late_ok r s" and "frozen s t" and "length (fl_ws t) = length (fl_ws (lr_fleet s))"
  shows "late_ok r (s\<lparr>lr_fleet := t\<rparr>)"
  using assms by (auto simp: late_ok_def frozen_def)

lemma counters_init: "counters_inv r (log_init E r t0)"
  by (simp add: counters_inv_def late_ok_def log_init_def late_total_def wire_bytes_def fleet_init_def)

lemma counters_step:
  assumes "log_step E mc r s t" and inv: "counters_inv r s" and "fleet_docs E r" and "fleet_reach E mc r (lr_fleet s)"
  shows "counters_inv r t"
  using assms(1)
proof (cases rule: log_step.cases)
  case (work u)
  have len: "length (fl_ws u) = length (fl_ws (lr_fleet s))" using fleet_step_length [OF work(2)] .
  have "late_ok r (s\<lparr>lr_fleet := u\<rparr>)" using inv late_ok_frozen [OF _ work(3) len] by (simp add: counters_inv_def)
  then show ?thesis using inv len work(4) by (simp add: work(1) counters_inv_def wire_bytes_def)
next
  case (count_frame u i num dst bs)
  have len: "length (fl_ws u) = length (fl_ws (lr_fleet s))" using fleet_step_length [OF count_frame(2)] .
  have i: "i < length (fl_ws u)" "wks (fl_run u) ! i = W_idle" using counted_idle [OF count_frame(2,5)] by blast+
  have "fleet_reach E mc r u" using assms(4) count_frame(2) by (rule fleet_more)
  then have sz: "length bs = frame_size (r_cfg r)" using wire_sizes [OF assms(3)] count_frame(5) by fastforce
  have "late_ok r (s\<lparr>lr_fleet := u\<rparr>)" using inv late_ok_frozen [OF _ count_frame(3) len] by (simp add: counters_inv_def)
  then have "late_ok r t" using i sz by (auto simp: count_frame(1) late_ok_def)
  moreover have "late_total (length (fl_ws u)) ((lr_late s)(i \<mapsto> length bs)) = late_total (length (fl_ws u)) (lr_late s) + length bs"
    using late_total_put [OF i(1), of "lr_late s" "Some (length bs)"] count_frame(4) by simp
  ultimately show ?thesis using inv len count_frame(5) by (auto simp: count_frame(1) counters_inv_def wire_bytes_def)
next
  case (count_bytes i n)
  have late: "late_ok r s" using inv by (simp add: counters_inv_def)
  then have "i < length (fl_ws (lr_fleet s))" using count_bytes(2) by (simp add: late_ok_def)
  from late_total_put [OF this, of "lr_late s" None] count_bytes(2)
  have total: "late_total (length (fl_ws (lr_fleet s))) ((lr_late s)(i := None)) + n = late_total (length (fl_ws (lr_fleet s))) (lr_late s)"
    by simp
  obtain k where k: "lr_bytes s = word_of_nat k" "k + late_total (length (fl_ws (lr_fleet s))) (lr_late s) = wire_bytes (lr_fleet s)"
    using inv by (auto simp: counters_inv_def)
  have "late_ok r t" using late by (auto simp: count_bytes(1) late_ok_def)
  moreover have "lr_bytes t = word_of_nat (k + n)" using k(1) by (simp add: count_bytes(1))
  moreover have "k + n + late_total (length (fl_ws (lr_fleet t))) (lr_late t) = wire_bytes (lr_fleet t)"
    using k(2) total by (simp add: count_bytes(1))
  ultimately show ?thesis unfolding counters_inv_def by blast
qed (use inv in \<open>auto simp: counters_inv_def late_ok_def show_report_def Let_def\<close>)

lemma log_counters:
  assumes "fleet_docs E r"
  shows "log_reach E mc r t0 s \<Longrightarrow> counters_inv r s"
proof (induction rule: log_reach.induct)
  case log_start
  show ?case by (rule counters_init)
next
  case (log_more s t)
  then show ?case using counters_step [OF _ _ assms log_fleet] by blast
qed

text \<open>Read as numbers: what is missing in \<open>bytes\<close> is at most one frame per worker, and nothing once \<open>Run\<close> has returned.\<close>

lemma bytes_lag:
  assumes "counters_inv r s" and "wire_bytes (lr_fleet s) < 2 ^ 64"
  shows "unat (lr_bytes s) \<le> wire_bytes (lr_fleet s)"
    "wire_bytes (lr_fleet s) \<le> unat (lr_bytes s) + length (fl_ws (lr_fleet s)) * frame_size (r_cfg r)"
proof -
  obtain k where k: "lr_bytes s = word_of_nat k" "k + late_total (length (fl_ws (lr_fleet s))) (lr_late s) = wire_bytes (lr_fleet s)"
    using assms(1) by (auto simp: counters_inv_def)
  have "late_total (length (fl_ws (lr_fleet s))) (lr_late s) \<le> length (fl_ws (lr_fleet s)) * frame_size (r_cfg r)"
    using assms(1) by (intro late_total_le) (auto simp: counters_inv_def late_ok_def)
  moreover have "unat (lr_bytes s) = k" using k assms(2) by (simp add: unat_of_nat)
  ultimately show "unat (lr_bytes s) \<le> wire_bytes (lr_fleet s)"
    "wire_bytes (lr_fleet s) \<le> unat (lr_bytes s) + length (fl_ws (lr_fleet s)) * frame_size (r_cfg r)"
    using k(2) by simp_all
qed

lemma bytes_rise:
  assumes "counters_inv r s" and "lr_late s i = Some n" and "wire_bytes (lr_fleet s) < 2 ^ 64"
  shows "unat (lr_bytes s) \<le> unat (lr_bytes s + word_of_nat n)"
proof -
  obtain k where k: "lr_bytes s = word_of_nat k" "k + late_total (length (fl_ws (lr_fleet s))) (lr_late s) = wire_bytes (lr_fleet s)"
    using assms(1) by (auto simp: counters_inv_def)
  have "i < length (fl_ws (lr_fleet s))" using assms(1,2) by (simp add: counters_inv_def late_ok_def)
  from late_total_put [OF this, of "lr_late s" None] assms(2) k(2) have "k + n \<le> wire_bytes (lr_fleet s)" by simp
  moreover have "lr_bytes s + word_of_nat n = word_of_nat (k + n)" using k(1) by simp
  moreover have "unat (word_of_nat m :: u64) = m" if "m < 2 ^ 64" for m using that by (simp add: unat_of_nat)
  ultimately show ?thesis using assms(3) unfolding k(1) by (metis le_add1 order.strict_trans1)
qed

lemma bytes_complete:
  assumes "counters_inv r s" and "returned (fl_run (lr_fleet s))" and "length (fl_ws (lr_fleet s)) = length (wks (fl_run (lr_fleet s)))"
  shows "lr_bytes s = word_of_nat (wire_bytes (lr_fleet s))" "lr_late s = (\<lambda>_. None)"
proof -
  have "lr_late s i = None" for i
  proof (rule ccontr)
    assume "lr_late s i \<noteq> None"
    then have "i < length (wks (fl_run (lr_fleet s)))" "wks (fl_run (lr_fleet s)) ! i = W_idle"
      using assms(1,3) by (auto simp: counters_inv_def late_ok_def)
    then have "W_idle \<in> set (wks (fl_run (lr_fleet s)))" by (metis nth_mem)
    with assms(2) show False by (auto simp: returned_def)
  qed
  then show late: "lr_late s = (\<lambda>_. None)" by blast
  show "lr_bytes s = word_of_nat (wire_bytes (lr_fleet s))" using assms(1) by (auto simp: counters_inv_def late late_total_def)
qed

section \<open>The reports\<close>

fun running_from :: "nat \<Rightarrow> nat list \<Rightarrow> nat list" where
  "running_from a [] = []"
| "running_from a (x # xs) = (a + x) # running_from (a + x) xs"

text \<open>The running totals of a list.\<close>

definition running :: "nat list \<Rightarrow> nat list" where
  "running = running_from 0"

lemma running_snoc: "running (xs @ [x]) = running xs @ [sum_list xs + x]"
proof -
  have "running_from a (xs @ [x]) = running_from a xs @ [a + sum_list xs + x]" for a
    by (induction xs arbitrary: a) (simp_all add: add.assoc)
  then show ?thesis by (simp add: running_def)
qed

text \<open>The totals last loaded, or else those of the last report.\<close>

definition loaded_sent :: "logged_run \<Rightarrow> nat" where
  "loaded_sent s = unat (case lr_pc s of Lg_bytes now x \<Rightarrow> x | Lg_show now x b \<Rightarrow> x | _ \<Rightarrow> lr_lastSent s)"

definition loaded_bytes :: "logged_run \<Rightarrow> nat" where
  "loaded_bytes s = unat (case lr_pc s of Lg_show now x b \<Rightarrow> b | _ \<Rightarrow> lr_lastBytes s)"

text \<open>A byte total belongs to a frame total, up to the frames the workers have not added yet.\<close>

definition lagged :: "Runner \<Rightarrow> nat \<Rightarrow> nat \<Rightarrow> bool" where
  "lagged r x b \<longleftrightarrow> x * frame_size (r_cfg r) \<le> b + fleet_size r * frame_size (r_cfg r)"

definition reports_ok :: "int \<Rightarrow> logged_run \<Rightarrow> bool" where
  "reports_ok t0 s \<longleftrightarrow>
     map (\<lambda>p. unat (rp_sent p)) (lr_out s) = running (map (\<lambda>p. unat (rp_frames p)) (lr_out s)) \<and>
     sum_list (map (\<lambda>p. unat (rp_frames p)) (lr_out s)) = unat (lr_lastSent s) \<and>
     sum_list (map (\<lambda>p. unat (rp_bytes p)) (lr_out s)) = unat (lr_lastBytes s) \<and>
     list_all (\<lambda>p. 0 < rp_ns p) (lr_out s) \<and> sum_list (map rp_ns (lr_out s)) = lr_lastTime s - t0"

definition meter_inv :: "Runner \<Rightarrow> int \<Rightarrow> logged_run \<Rightarrow> bool" where
  "meter_inv r t0 s \<longleftrightarrow>
     reports_ok t0 s \<and> unat (lr_lastSent s) \<le> loaded_sent s \<and> loaded_sent s \<le> n_sent (fl_run (lr_fleet s)) \<and>
     unat (lr_lastBytes s) \<le> loaded_bytes s \<and> loaded_bytes s \<le> unat (lr_bytes s) \<and>
     lagged r (unat (lr_lastSent s)) (unat (lr_lastBytes s)) \<and>
     (case lr_pc s of Lg_show now x b \<Rightarrow> lagged r (unat x) (unat b) | _ \<Rightarrow> True)"

lemma meter_init: "meter_inv r t0 (log_init E r t0)"
  by (simp add: meter_inv_def reports_ok_def log_init_def running_def loaded_sent_def loaded_bytes_def lagged_def)

text \<open>A step of the workers, which only raises the counters.\<close>

lemma meter_raise:
  assumes "meter_inv r t0 s" and "n_sent (fl_run (lr_fleet s)) \<le> n_sent (fl_run (lr_fleet t))" and "unat (lr_bytes s) \<le> unat (lr_bytes t)"
    and "lr_pc t = lr_pc s" "lr_lastSent t = lr_lastSent s" "lr_lastBytes t = lr_lastBytes s" "lr_lastTime t = lr_lastTime s" "lr_out t = lr_out s"
  shows "meter_inv r t0 t"
proof -
  have "loaded_sent t = loaded_sent s" "loaded_bytes t = loaded_bytes s" "reports_ok t0 t = reports_ok t0 s"
    by (simp_all add: loaded_sent_def loaded_bytes_def reports_ok_def assms(4-8) split: log_pc.split)
  then show ?thesis using assms(1-3) unfolding meter_inv_def assms(4-8) by (metis le_trans)
qed

lemma unat_diff: "unat (b :: u64) \<le> unat a \<Longrightarrow> unat (a - b) = unat a - unat b"
  by (simp add: unat_sub word_le_nat_alt)

lemma meter_shown:
  assumes "meter_inv r t0 s" and pc: "lr_pc s = Lg_show now x b"
  shows "meter_inv r t0 (show_report now x b s)"
proof (cases "now - lr_lastTime s \<le> 0")
  case True
  then show ?thesis
    using assms by (simp add: show_report_def meter_inv_def reports_ok_def loaded_sent_def loaded_bytes_def)
next
  case False
  have le: "unat (lr_lastSent s) \<le> unat x" "unat (lr_lastBytes s) \<le> unat b"
    using assms by (simp_all add: meter_inv_def loaded_sent_def loaded_bytes_def)
  have "reports_ok t0 (show_report now x b s)"
    using assms(1) False le
    by (simp add: show_report_def meter_inv_def reports_ok_def Let_def running_snoc unat_diff)
  then show ?thesis
    using assms False by (simp add: show_report_def meter_inv_def loaded_sent_def loaded_bytes_def Let_def)
qed

lemma meter_step:
  assumes "log_step E mc r s t" and "wire_bytes (lr_fleet t) < 2 ^ 64" and docs: "fleet_docs E r"
    and reach: "fleet_reach E mc r (lr_fleet s)" and count: "counters_inv r s" and inv: "wire_bytes (lr_fleet s) < 2 ^ 64 \<Longrightarrow> meter_inv r t0 s"
  shows "meter_inv r t0 t"
proof -
  have total: "wire_bytes (lr_fleet s) = n_sent (fl_run (lr_fleet s)) * frame_size (r_cfg r)" by (rule wire_total [OF docs reach])
  have size: "0 < frame_size (r_cfg r)" by (simp add: frame_size_def)
  have workers: "length (fl_ws (lr_fleet s)) = fleet_size r" by (rule fleet_length [OF reach])
  show ?thesis
    using assms(1)
  proof (cases rule: log_step.cases)
    case (work u)
    have w: "wire_bytes (lr_fleet s) < 2 ^ 64" using assms(2) work(1,4) by (simp add: wire_bytes_def)
    have "fleet_reach E mc r u" using reach work(2) by (rule fleet_more)
    then have n: "n_sent (fl_run u) = n_sent (fl_run (lr_fleet s))"
      using fleet_run [OF reach] fleet_run [of E mc r u] work(4) by simp
    show ?thesis by (rule meter_raise [OF inv [OF w]]) (simp_all add: work(1) n)
  next
    case (count_frame u i num dst bs)
    have w: "wire_bytes (lr_fleet s) < 2 ^ 64" using assms(2) count_frame(1,5) by (simp add: wire_bytes_def)
    have "fleet_reach E mc r u" using reach count_frame(2) by (rule fleet_more)
    then have n: "n_sent (fl_run (lr_fleet s)) \<le> n_sent (fl_run u)" 
      using fleet_run [OF reach] fleet_run [of E mc r u] count_frame(5) by simp
    show ?thesis by (rule meter_raise [OF inv [OF w]]) (simp_all add: count_frame(1) n)
  next
    case (count_bytes i n)
    have w: "wire_bytes (lr_fleet s) < 2 ^ 64" using assms(2) count_bytes(1) by simp
    show ?thesis
      by (rule meter_raise [OF inv [OF w]]) (simp_all add: count_bytes(1) bytes_rise [OF count count_bytes(2) w])
  next
    case (tick now)
    then show ?thesis using inv assms(2) by (simp add: meter_inv_def reports_ok_def loaded_sent_def loaded_bytes_def)
  next
    case (load_sent now)
    have w: "wire_bytes (lr_fleet s) < 2 ^ 64" using assms(2) load_sent(1) by simp
    have "n_sent (fl_run (lr_fleet s)) \<le> wire_bytes (lr_fleet s)" using total size by simp
    then have "unat (Sent s) = n_sent (fl_run (lr_fleet s))" using w by (simp add: Sent_def unat_of_nat)
    then show ?thesis using inv [OF w] load_sent
      by (simp add: meter_inv_def reports_ok_def loaded_sent_def loaded_bytes_def)
  next
    case (load_bytes now x)
    have w: "wire_bytes (lr_fleet s) < 2 ^ 64" using assms(2) load_bytes(1) by simp
    note m = inv [OF w]
    have "unat x \<le> n_sent (fl_run (lr_fleet s))" using m load_bytes(2) by (simp add: meter_inv_def loaded_sent_def)
    then have "unat x * frame_size (r_cfg r) \<le> n_sent (fl_run (lr_fleet s)) * frame_size (r_cfg r)" by (rule mult_le_mono1)
    also have "\<dots> \<le> unat (lr_bytes s) + fleet_size r * frame_size (r_cfg r)"
      using bytes_lag(2) [OF count w] unfolding workers total .
    finally have "lagged r (unat x) (unat (lr_bytes s))" by (simp only: lagged_def)
    then show ?thesis using m load_bytes
      by (simp add: meter_inv_def reports_ok_def loaded_sent_def loaded_bytes_def)
  next
    case (shown now x b)
    have "wire_bytes (lr_fleet s) < 2 ^ 64" using assms(2) shown(1) by (simp add: show_report_def Let_def split: if_splits)
    with inv shown show ?thesis by (simp add: meter_shown)
  next
    case stop
    then show ?thesis using inv assms(2) by (simp add: meter_inv_def reports_ok_def loaded_sent_def loaded_bytes_def)
  qed
qed

lemma log_meter:
  assumes "fleet_docs E r"
  shows "log_reach E mc r t0 s \<Longrightarrow> wire_bytes (lr_fleet s) < 2 ^ 64 \<Longrightarrow> meter_inv r t0 s"
proof (induction rule: log_reach.induct)
  case log_start
  show ?case by (rule meter_init)
next
  case (log_more s t)
  show ?case
    by (rule meter_step [OF log_more.hyps(2) log_more.prems assms log_fleet [OF log_more.hyps(1)] log_counters [OF assms log_more.hyps(1)]
          log_more.IH])
qed

section \<open>A run with one report\<close>

lemma wire_grows:
  assumes "fleet_step E mc r s t"
  shows "fl_wire t = fl_wire s \<or> (\<exists>i num dst bs. fl_wire t = fl_wire s @ [(i, num, dst, bs)])"
  using assms
proof (cases rule: fleet_step.cases)
  case (finish i f num qd res l lab u l')
  obtain dst bs where "last (ln_sent l) = (dst, bs)" by (cases "last (ln_sent l)")
  then show ?thesis by (simp add: finish(1))
qed (auto simp: to_phase_def)

text \<open>The workers' steps alone, each byte count added at once.\<close>

lemma follow_fleet:
  "fleet_reach E mc r s \<Longrightarrow>
   \<exists>l. log_reach E mc r t0 l \<and> lr_fleet l = s \<and> lr_late l = (\<lambda>_. None) \<and> lr_pc l = Lg_wait \<and> lr_out l = [] \<and>
     lr_lastSent l = 0 \<and> lr_lastTime l = t0"
proof (induction rule: fleet_reach.induct)
  case fleet_start
  show ?case using log_start [of E mc r t0] by (intro exI [of _ "log_init E r t0"]) (simp add: log_init_def)
next
  case (fleet_more s t)
  then obtain l where l: "log_reach E mc r t0 l" "lr_fleet l = s" "lr_late l = (\<lambda>_. None)" "lr_pc l = Lg_wait" "lr_out l = []"
    "lr_lastSent l = 0" "lr_lastTime l = t0" by blast
  have fr: "frozen l t" by (simp add: frozen_def l(3))
  have step: "fleet_step E mc r (lr_fleet l) t" using fleet_more.hyps(2) l(2) by simp
  from wire_grows [OF step] show ?case
  proof (elim disjE exE)
    assume "fl_wire t = fl_wire (lr_fleet l)"
    from log_more [OF l(1) log_step.work [OF step fr this]] show ?thesis
      using l by (intro exI [of _ "l\<lparr>lr_fleet := t\<rparr>"]) simp
  next
    fix i num dst bs
    assume w: "fl_wire t = fl_wire (lr_fleet l) @ [(i, num, dst, bs)]"
    let ?a = "l\<lparr>lr_fleet := t, lr_late := (lr_late l)(i \<mapsto> length bs)\<rparr>"
    have "lr_late l i = None" by (simp add: l(3))
    from log_more [OF l(1) log_step.count_frame [OF step fr this w]] have "log_reach E mc r t0 ?a" .
    from log_more [OF this log_step.count_bytes [of ?a i "length bs"]] show ?thesis
      using l by (intro exI [of _ "?a\<lparr>lr_bytes := lr_bytes ?a + word_of_nat (length bs), lr_late := (lr_late ?a)(i := None)\<rparr>"]) auto
  qed
qed

lemma one_report:
  assumes "log_reach E mc r t0 s" and "lr_pc s = Lg_wait" and "lr_lastTime s < now"
  shows "\<exists>t p. log_reach E mc r t0 t \<and> lr_out t = lr_out s @ [p] \<and> rp_frames p = Sent s - lr_lastSent s \<and> lr_fleet t = lr_fleet s"
proof -
  have a: "log_reach E mc r t0 (s\<lparr>lr_pc := Lg_sent now\<rparr>)" by (rule log_more [OF assms(1) log_step.tick [OF assms(2)]])
  have b: "log_reach E mc r t0 (s\<lparr>lr_pc := Lg_bytes now (Sent s)\<rparr>)"
    using log_more [OF a log_step.load_sent [of _ now]] by (simp add: Sent_def)
  have c: "log_reach E mc r t0 (s\<lparr>lr_pc := Lg_show now (Sent s) (lr_bytes s)\<rparr>)"
    using log_more [OF b log_step.load_bytes [of _ now "Sent s"]] by simp
  have "log_reach E mc r t0 (show_report now (Sent s) (lr_bytes s) (s\<lparr>lr_pc := Lg_show now (Sent s) (lr_bytes s)\<rparr>))"
    by (rule log_more [OF c log_step.shown]) simp
  then show ?thesis using assms(3)
    by (intro exI conjI) (assumption | simp add: show_report_def Let_def)+
qed

section \<open>Property\<close>

text \<open>C14: The periodic statistics are right. In any interleaving of the workers' two additions, the logger's loads and
  its ticks, as long as fewer than \<open>2 ^ 64\<close> bytes have been sent: the frame differences reported add up to
  the total each report shows and never exceed the frames sent; the intervals are positive and add up to the
  time since the start, so the reported rates average to the true one, ticks without elapsed time included; the byte
  differences add up to at most the bytes on the wire and fall behind the reported frames by at most one frame
  per worker; and once \<open>Run\<close> has returned nothing is missing in the byte counter.\<close>

theorem rate_log_exact:
  assumes "fleet_docs E r" and "log_reach E mc r t0 s" and "wire_bytes (lr_fleet s) < 2 ^ 64"
  shows "let frames = map (\<lambda>p. unat (rp_frames p)) (lr_out s); octets = map (\<lambda>p. unat (rp_bytes p)) (lr_out s) in
     map (\<lambda>p. unat (rp_sent p)) (lr_out s) = running frames \<and> sum_list frames \<le> n_sent (fl_run (lr_fleet s)) \<and>
     list_all (\<lambda>p. 0 < rp_ns p) (lr_out s) \<and> sum_list (map rp_ns (lr_out s)) = lr_lastTime s - t0 \<and>
     sum_list octets \<le> wire_bytes (lr_fleet s) \<and>
     sum_list frames * frame_size (r_cfg r) \<le> sum_list octets + fleet_size r * frame_size (r_cfg r) \<and>
     (returned (fl_run (lr_fleet s)) \<longrightarrow>
        unat (lr_bytes s) = n_sent (fl_run (lr_fleet s)) * frame_size (r_cfg r))"
proof -
  have m: "meter_inv r t0 s" by (rule log_meter [OF assms])
  have c: "counters_inv r s" by (rule log_counters [OF assms(1,2)])
  have reach: "fleet_reach E mc r (lr_fleet s)" by (rule log_fleet [OF assms(2)])
  have "length (fl_ws (lr_fleet s)) = length (wks (fl_run (lr_fleet s)))" using fleet_links [OF reach] by (simp add: links_inv_def)
  from bytes_complete(1) [OF c _ this] have "returned (fl_run (lr_fleet s)) \<longrightarrow> unat (lr_bytes s) = wire_bytes (lr_fleet s)"
    using assms(3) by (simp add: unat_of_nat)
  then show ?thesis
    using m bytes_lag(1) [OF c assms(3)] wire_total [OF assms(1) reach]
    by (auto simp: Let_def meter_inv_def reports_ok_def lagged_def)
qed

theorem rate_log_exact_witness:
  "\<exists>s p. log_reach (\<lambda>_. fair_env) fair_mc (fair_runner ModeDirectMulticast) 0 s \<and> lr_out s = [p] \<and> rp_frames p = 1 \<and>
     unat (rp_sent p) = 1 \<and> 0 < rp_ns p"
proof -
  let ?r = "fair_runner ModeDirectMulticast" and ?E = "\<lambda>_ :: nat. fair_env"
  obtain f where f: "fleet_reach ?E fair_mc ?r f" "length (fl_wire f) = 1" using fair_fleet_sent by blast
  then have n: "n_sent (fl_run f) = 1" using fleet_run by metis
  obtain l where l: "log_reach ?E fair_mc ?r 0 l" "lr_fleet l = f" "lr_pc l = Lg_wait" "lr_out l = []" "lr_lastSent l = 0"
    "lr_lastTime l = 0"
    using follow_fleet [OF f(1), of 0] by blast
  have "lr_lastTime l < 1000000000" using l(6) by simp
  from one_report [OF l(1,3) this] obtain s p where
    s: "log_reach ?E fair_mc ?r 0 s" "lr_out s = [p]" "rp_frames p = 1" "lr_fleet s = f"
    using l n by (auto simp: Sent_def)
  have "wire_bytes f = frame_size (r_cfg ?r)" using wire_total [OF fair_fleet_docs f(1)] n by simp
  also have "\<dots> = 604"
    by (simp add: frame_size_def fair_runner_def sender_New_def demo_cfg_def Let_def V1_def V2_def)
  finally have "wire_bytes (lr_fleet s) < 2 ^ 64" by (simp add: s(4))
  from rate_log_exact [OF fair_fleet_docs s(1) this] have "unat (rp_sent p) = 1" "0 < rp_ns p"
    by (simp_all add: s(2,3) running_def Let_def)
  with s show ?thesis by blast
qed

end
