(* ===== verification/Sink_Sniff.thy ===== *)
theory Sink_Sniff
  imports Objfmt_Ref "HOL-Library.Monad_Syntax"
begin

text \<open>
  \<open>cmd/tunnel-sink\<close>, class sniffing: which of the three bare lanes, or the framed stream, a connection
  carries. \<open>objfmt.Size\<close> is a parameter, so nothing in the code makes the walk over a buffer end: it is
  a partial function, and \<open>None\<close> everywhere is a walk that does not end or a slice out of range. A
  connection is the list of the results of its reads.
\<close>

definition sniffDecideAt :: nat where
  "sniffDecideAt = 64 * 1024"

definition sniffCap :: nat where
  "sniffCap = 1024 * 1024"

record candScore =
  viable :: bool
  complete :: nat

text \<open>The loop over whole objects; \<open>rest\<close> is \<open>buf[off:]\<close>.\<close>

partial_function (option) walk_loop :: "(bytes \<Rightarrow> size_result) \<Rightarrow> bytes \<Rightarrow> nat \<Rightarrow> candScore option" where
  "walk_loop sz rest k =
     (if rest = [] then Some \<lparr>viable = True, complete = k\<rparr>
      else case sz rest of
        Size_ok n \<Rightarrow> walk_loop sz (drop n rest) (Suc k)
      | Size_short \<Rightarrow> Some \<lparr>viable = True, complete = k\<rparr>
      | Size_bad \<Rightarrow> Some \<lparr>viable = False, complete = 0\<rparr>)"

text \<open>The plausibility checks, made once the fields they read are in the buffer.\<close>

definition plausible :: "objfmt_pkg \<Rightarrow> obj_class \<Rightarrow> bytes \<Rightarrow> bool option" where
  "plausible ob cls buf =
     (case cls of
        ClassTx \<Rightarrow>
          if 4 \<le> length buf
          then do { v \<leftarrow> slice buf 0 4; Some (un_le v = 1 \<or> un_le v = 2) } else Some True
      | ClassSubtree \<Rightarrow>
          if SubtreeHeaderSize ob \<le> length buf
          then do { n \<leftarrow> slice buf 32 40; Some (\<not> (un_be n = 0 \<or> 2 ^ 24 < un_be n)) } else Some True
      | ClassBlock \<Rightarrow>
          if BlockPrefixSize ob \<le> length buf
          then do {
            txCount \<leftarrow> slice buf 80 88;
            bsz \<leftarrow> slice buf 88 96;
            subtrees \<leftarrow> slice buf 96 104;
            Some (\<not> (un_be subtrees = 0 \<or> 2 ^ 20 < un_be subtrees \<or> 2 ^ 36 < un_be txCount \<or> 2 ^ 40 < un_be bsz)) }
          else Some True)"

definition walkCandidate :: "objfmt_pkg \<Rightarrow> obj_class \<Rightarrow> bytes \<Rightarrow> candScore option" where
  "walkCandidate ob cls buf = do {
     ok \<leftarrow> plausible ob cls buf;
     if \<not> ok then Some \<lparr>viable = False, complete = 0\<rparr> else walk_loop (obj_Size ob cls) buf 0
   }"

definition sniffOrder :: "obj_class list" where
  "sniffOrder = [ClassTx, ClassSubtree, ClassBlock]"

fun best_loop ::
  "objfmt_pkg \<Rightarrow> bytes \<Rightarrow> obj_class list \<Rightarrow> obj_class option \<times> int \<Rightarrow> (obj_class option \<times> int) option" where
  "best_loop ob buf [] acc = Some acc"
| "best_loop ob buf (c # cs) (best, score) = do {
     s \<leftarrow> walkCandidate ob c buf;
     best_loop ob buf cs
       (if viable s \<and> score < int (complete s) then (Some c, int (complete s)) else (best, score))
   }"

definition bestCandidate :: "objfmt_pkg \<Rightarrow> bytes \<Rightarrow> bool \<Rightarrow> obj_class option option" where
  "bestCandidate ob buf requireComplete = do {
     (best, score) \<leftarrow> best_loop ob buf sniffOrder (None, -1);
     Some (if best = None \<or> (requireComplete \<and> score < 1) then None else best)
   }"

fun score_loop ::
  "objfmt_pkg \<Rightarrow> bytes \<Rightarrow> obj_class list \<Rightarrow> obj_class list \<Rightarrow> obj_class list \<Rightarrow>
   (obj_class list \<times> obj_class list) option" where
  "score_loop ob buf [] v k = Some (v, k)"
| "score_loop ob buf (c # cs) v k = do {
     s \<leftarrow> walkCandidate ob c buf;
     if \<not> viable s then score_loop ob buf cs v k
     else score_loop ob buf cs (v @ [c]) (if 1 \<le> complete s then k @ [c] else k)
   }"

definition classifyBuffer :: "objfmt_pkg \<Rightarrow> bytes \<Rightarrow> bool \<Rightarrow> obj_class option option" where
  "classifyBuffer ob buf eof = do {
     (v, k) \<leftarrow> score_loop ob buf sniffOrder [] [];
     if \<not> (eof \<or> BlockPrefixSize ob \<le> length buf) then Some None
     else if length v = 1 then Some (Some (v ! 0))
     else if 1 < length v then
       (if length k = 1 then Some (Some (k ! 0))
        else if eof \<or> sniffDecideAt \<le> length buf then bestCandidate ob buf False
        else Some None)
     else Some None
   }"

text \<open>One read: the bytes it returned, and whether it timed out or failed (end of stream included).\<close>

datatype read_end = R_ok | R_timeout | R_fail

datatype sniff_result =
  SniffFramed bytes | SniffClass obj_class bytes | SniffErr bytes | SniffWait bytes

text \<open>The loop of \<open>sniffClass\<close>, with the reads it has left; \<open>SniffWait\<close> is a loop still reading.\<close>

fun sniff_loop ::
  "frame_pkg \<Rightarrow> objfmt_pkg \<Rightarrow> bytes \<Rightarrow> bool \<Rightarrow> (bytes \<times> read_end) list \<Rightarrow>
   (sniff_result \<times> (bytes \<times> read_end) list) option" where
  "sniff_loop P ob buf eof reads =
     (if 4 \<le> length buf \<and> un_be (take 4 buf) = unat (MagicBSV P) then Some (SniffFramed buf, reads)
      else case classifyBuffer ob buf eof of
        None \<Rightarrow> None
      | Some (Some c) \<Rightarrow> Some (SniffClass c buf, reads)
      | Some None \<Rightarrow>
          if eof then Some (SniffErr buf, reads)
          else if sniffCap \<le> length buf then Some (SniffErr buf, reads)
          else (case reads of
            [] \<Rightarrow> Some (SniffWait buf, [])
          | (bs, R_ok) # reads' \<Rightarrow> sniff_loop P ob (buf @ bs) False reads'
          | (bs, R_fail) # reads' \<Rightarrow> sniff_loop P ob (buf @ bs) True reads'
          | (bs, R_timeout) # reads' \<Rightarrow>
              (case bestCandidate ob (buf @ bs) True of
                 None \<Rightarrow> None
               | Some (Some c) \<Rightarrow> Some (SniffClass c (buf @ bs), reads')
               | Some None \<Rightarrow> sniff_loop P ob (buf @ bs) False reads')))"

definition sniffClass ::
  "frame_pkg \<Rightarrow> objfmt_pkg \<Rightarrow> (bytes \<times> read_end) list \<Rightarrow> (sniff_result \<times> (bytes \<times> read_end) list) option" where
  "sniffClass P ob reads = sniff_loop P ob [] False reads"

section \<open>The walk\<close>

text \<open>Documented of \<open>objfmt\<close>: the two prefix sizes, and that a whole object is at least one byte.\<close>

definition size_doc :: "objfmt_pkg \<Rightarrow> bool" where
  "size_doc ob \<longleftrightarrow> SubtreeHeaderSize ob = 40 \<and> BlockPrefixSize ob = 104 \<and>
     (\<forall>c bs n. obj_Size ob c bs = Size_ok n \<longrightarrow> 0 < n)"

lemma walk_loop_total:
  assumes "\<And>bs n. sz bs = Size_ok n \<Longrightarrow> 0 < n"
  shows "\<exists>s. walk_loop sz rest k = Some s"
proof (induction "length rest" arbitrary: rest k rule: less_induct)
  case less
  show ?case
  proof (cases "rest = [] \<or> (\<forall>n. sz rest \<noteq> Size_ok n)")
    case True
    then show ?thesis by (subst walk_loop.simps) (auto split: size_result.split)
  next
    case False
    then obtain n where n: "rest \<noteq> []" "sz rest = Size_ok n" by blast
    then have "length (drop n rest) < length rest" using assms [of rest n] by simp
    from less [OF this, of "Suc k"] n show ?thesis by (subst walk_loop.simps) simp
  qed
qed

lemma plausible_total: "size_doc ob \<Longrightarrow> \<exists>b. plausible ob c buf = Some b"
proof -
  assume "size_doc ob"
  then have "plausible ob c buf \<noteq> None"
    by (cases c) (auto simp: plausible_def slice_def size_doc_def split: if_splits)
  then show ?thesis by blast
qed

lemma walkCandidate_total:
  assumes "size_doc ob"
  shows "\<exists>s. walkCandidate ob c buf = Some s"
proof -
  obtain b where "plausible ob c buf = Some b" using plausible_total [OF assms] by blast
  moreover have "\<exists>s. walk_loop (obj_Size ob c) buf 0 = Some s"
    using assms by (intro walk_loop_total) (auto simp: size_doc_def)
  ultimately show ?thesis by (cases b) (simp_all add: walkCandidate_def)
qed

text \<open>On whole objects of the class followed by a part of one, the walk counts the objects.\<close>

lemma walk_loop_objects:
  assumes "\<forall>x \<in> set objs. x \<noteq> [] \<and> (\<forall>r. sz (x @ r) = Size_ok (length x))"
    and "part = [] \<or> sz part = Size_short"
  shows "walk_loop sz (concat objs @ part) k = Some \<lparr>viable = True, complete = k + length objs\<rparr>"
  using assms(1)
proof (induction objs arbitrary: k)
  case Nil
  then show ?case using assms(2) by (subst walk_loop.simps) auto
next
  case (Cons x objs)
  then have "x \<noteq> []" "sz (x @ concat objs @ part) = Size_ok (length x)" by simp_all
  with Cons.IH [of "Suc k"] Cons.prems show ?case by (subst walk_loop.simps) simp
qed

lemma ref_objfmt_size: "size_doc ref_objfmt"
proof -
  have "0 < n" if "obj_Size ref_objfmt c bs = Size_ok n" for c bs n
    using that
    by (cases c) (auto simp: ref_objfmt_def ref_tx_size_def ref_subtree_size_def ref_block_size_def Let_def
        dest!: walk_tx_less split: option.splits if_splits)
  then show ?thesis by (simp add: size_doc_def ref_objfmt_def)
qed

section \<open>The decision\<close>

text \<open>Under the documented sizes the scores are total; \<open>score\<close> reads them.\<close>

definition score :: "objfmt_pkg \<Rightarrow> bytes \<Rightarrow> obj_class \<Rightarrow> candScore" where
  "score ob buf c = the (walkCandidate ob c buf)"

lemma walk_score: "size_doc ob \<Longrightarrow> walkCandidate ob c buf = Some (score ob buf c)"
  using walkCandidate_total [of ob c buf] by (auto simp: score_def)

lemma score_loop_filter:
  assumes "size_doc ob"
  shows "score_loop ob buf cs v k =
     Some (v @ filter (\<lambda>c. viable (score ob buf c)) cs,
           k @ filter (\<lambda>c. viable (score ob buf c) \<and> 1 \<le> complete (score ob buf c)) cs)"
  by (induction cs arbitrary: v k) (auto simp: walk_score [OF assms])

text \<open>The classes are ordered as they are tried.\<close>

instantiation obj_class :: linorder
begin

definition less_eq_obj_class :: "obj_class \<Rightarrow> obj_class \<Rightarrow> bool" where
  "less_eq_obj_class c d \<longleftrightarrow> c = d \<or> c = ClassTx \<or> d = ClassBlock"

definition less_obj_class :: "obj_class \<Rightarrow> obj_class \<Rightarrow> bool" where
  "less_obj_class c d \<longleftrightarrow> c \<le> d \<and> c \<noteq> (d :: obj_class)"

instance
proof
  fix c d e :: obj_class
  show "c < d \<longleftrightarrow> c \<le> d \<and> \<not> d \<le> c"
    by (cases c; cases d) (simp_all add: less_obj_class_def less_eq_obj_class_def)
  show "c \<le> c" by (simp add: less_eq_obj_class_def)
  show "c \<le> d \<Longrightarrow> d \<le> e \<Longrightarrow> c \<le> e"
    by (cases c; cases d; cases e) (simp_all add: less_eq_obj_class_def)
  show "c \<le> d \<Longrightarrow> d \<le> c \<Longrightarrow> c = d"
    by (cases c; cases d) (simp_all add: less_eq_obj_class_def)
  show "c \<le> d \<or> d \<le> c"
    by (cases c; cases d) (simp_all add: less_eq_obj_class_def)
qed

end

lemma sniffOrder_sorted: "sorted sniffOrder"
  by (simp add: sniffOrder_def less_eq_obj_class_def)

text \<open>A top class is viable and at least as good as every viable one; the winner is the first top class.\<close>

definition top_class :: "objfmt_pkg \<Rightarrow> bytes \<Rightarrow> obj_class \<Rightarrow> bool" where
  "top_class ob buf c \<longleftrightarrow> viable (score ob buf c) \<and>
     (\<forall>c'. viable (score ob buf c') \<longrightarrow> complete (score ob buf c') \<le> complete (score ob buf c))"

definition winner :: "objfmt_pkg \<Rightarrow> bytes \<Rightarrow> obj_class \<Rightarrow> bool" where
  "winner ob buf c \<longleftrightarrow> top_class ob buf c \<and> (\<forall>c'. top_class ob buf c' \<longrightarrow> c \<le> c')"

text \<open>The running best: nothing yet, or a viable candidate with its score.\<close>

definition running :: "objfmt_pkg \<Rightarrow> bytes \<Rightarrow> obj_class option \<times> int \<Rightarrow> bool" where
  "running ob buf acc \<longleftrightarrow>
     (case fst acc of
        None \<Rightarrow> snd acc = -1
      | Some c \<Rightarrow> viable (score ob buf c) \<and> snd acc = int (complete (score ob buf c)))"

definition better :: "objfmt_pkg \<Rightarrow> bytes \<Rightarrow> obj_class \<Rightarrow> obj_class option \<times> int \<Rightarrow> obj_class option \<times> int" where
  "better ob buf c acc =
     (if viable (score ob buf c) \<and> snd acc < int (complete (score ob buf c))
      then (Some c, int (complete (score ob buf c))) else acc)"

lemma better_running: "running ob buf acc \<Longrightarrow> running ob buf (better ob buf c acc)"
  by (simp add: running_def better_def)

lemma better_ge: "snd acc \<le> snd (better ob buf c acc)"
  by (simp add: better_def)

lemma better_covers: "viable (score ob buf c) \<Longrightarrow> int (complete (score ob buf c)) \<le> snd (better ob buf c acc)"
  by (simp add: better_def)

lemma best_loop_better:
  assumes "size_doc ob"
  shows "best_loop ob buf cs acc = Some (fold (better ob buf) cs acc)"
proof (induction cs arbitrary: acc)
  case Nil
  then show ?case by simp
next
  case (Cons c cs)
  then show ?case by (cases acc) (simp add: walk_score [OF assms] better_def)
qed

lemma fold_better:
  assumes "running ob buf acc"
  shows "running ob buf (fold (better ob buf) cs acc) \<and> snd acc \<le> snd (fold (better ob buf) cs acc) \<and>
     (\<forall>c \<in> set cs. viable (score ob buf c) \<longrightarrow>
        int (complete (score ob buf c)) \<le> snd (fold (better ob buf) cs acc))"
  using assms
proof (induction cs arbitrary: acc)
  case Nil
  then show ?case by simp
next
  case (Cons d cs)
  from Cons.IH [OF better_running [OF Cons.prems, of d]] better_ge [of acc ob buf d]
    better_covers [of ob buf d acc]
  show ?case by fastforce
qed

lemma sniffOrder_all: "c \<in> set sniffOrder"
  by (cases c) (simp_all add: sniffOrder_def)

text \<open>Ties go to the class tried first.\<close>

lemma best_first:
  assumes "fst (fold (better ob buf) sniffOrder (None, -1)) = Some d"
    and "viable (score ob buf c)" and "complete (score ob buf c) = complete (score ob buf d)"
  shows "d \<le> c"
  using assms by (cases c; cases d) (auto simp: sniffOrder_def better_def less_eq_obj_class_def split: if_splits)

lemma bestCandidate_spec:
  assumes "size_doc ob"
  shows "\<exists>r. bestCandidate ob buf req = Some r \<and>
     (\<forall>c. r = Some c \<longrightarrow> winner ob buf c \<and> (req \<longrightarrow> 1 \<le> complete (score ob buf c))) \<and>
     (r = None \<longrightarrow> (\<forall>c. viable (score ob buf c) \<longrightarrow> req \<and> complete (score ob buf c) = 0))"
proof -
  define acc where "acc = fold (better ob buf) sniffOrder (None, -1)"
  have start: "running ob buf (None, -1)" by (simp add: running_def)
  have run: "running ob buf acc" unfolding acc_def using fold_better [OF start] by blast
  have all: "int (complete (score ob buf c)) \<le> snd acc" if "viable (score ob buf c)" for c
    unfolding acc_def using fold_better [OF start] sniffOrder_all that by blast
  have l: "bestCandidate ob buf req =
      Some (if fst acc = None \<or> (req \<and> snd acc < 1) then None else fst acc)"
    by (simp add: bestCandidate_def best_loop_better [OF assms] acc_def [symmetric] split_beta)
  show ?thesis
  proof (cases "fst acc")
    case None
    with run have "snd acc = -1" by (simp add: running_def)
    with all have "\<not> viable (score ob buf c)" for c by fastforce
    with None l show ?thesis by simp
  next
    case (Some d)
    with run have d: "viable (score ob buf d)" "snd acc = int (complete (score ob buf d))"
      by (simp_all add: running_def)
    have top: "top_class ob buf d" using d all by (simp add: top_class_def)
    have "d \<le> c" if "top_class ob buf c" for c
      using best_first [of ob buf d c] that Some d(1) top by (simp add: acc_def top_class_def le_antisym)
    with top have w: "winner ob buf d" by (simp add: winner_def)
    show ?thesis
    proof (cases "req \<and> snd acc < 1")
      case True
      have "complete (score ob buf c) = 0" if "viable (score ob buf c)" for c
        using all [OF that] True by linarith
      with True l show ?thesis by simp
    next
      case False
      with Some l w d show ?thesis by auto
    qed
  qed
qed

section \<open>Classification\<close>

lemma single_filter:
  assumes "length (filter p xs) = 1" and "x \<in> set xs" and "p x"
  shows "x = filter p xs ! 0"
proof -
  obtain y where "filter p xs = [y]" using assms(1) by (auto simp: length_Suc_conv)
  moreover have "x \<in> set (filter p xs)" using assms by simp
  ultimately show ?thesis by simp
qed

lemma single_filter_holds:
  assumes "length (filter p xs) = 1"
  shows "p (filter p xs ! 0)"
proof -
  have "filter p xs ! 0 \<in> set (filter p xs)" using assms by (intro nth_mem) simp
  then show ?thesis by simp
qed

lemma classifyBuffer_total: "size_doc ob \<Longrightarrow> \<exists>r. classifyBuffer ob buf eof = Some r"
  using bestCandidate_spec [of ob buf False]
  by (auto simp: classifyBuffer_def score_loop_filter)

lemma sole_winner:
  assumes l: "length (filter p sniffOrder) = 1"
    and v: "\<And>c. p c \<Longrightarrow> viable (score ob buf c)"
    and less: "\<And>c d. viable (score ob buf c) \<Longrightarrow> \<not> p c \<Longrightarrow> p d \<Longrightarrow> complete (score ob buf c) < complete (score ob buf d)"
  shows "winner ob buf (filter p sniffOrder ! 0)"
proof -
  define d where "d = filter p sniffOrder ! 0"
  have d: "p d" unfolding d_def by (rule single_filter_holds [OF l])
  have eq: "c = d" if "p c" for c unfolding d_def using single_filter [OF l sniffOrder_all] that by blast
  have le: "complete (score ob buf c) \<le> complete (score ob buf d)" if "viable (score ob buf c)" for c
    using eq [of c] less [OF that _ d] by (cases "p c") auto
  have uniq: "d \<le> c" if "top_class ob buf c" for c
  proof (rule ccontr)
    assume "\<not> d \<le> c"
    then have "c \<noteq> d" by auto
    then have "complete (score ob buf c) < complete (score ob buf d)"
      using eq [of c] less [of c d] d that by (auto simp: top_class_def)
    moreover have "complete (score ob buf d) \<le> complete (score ob buf c)"
      using that v [OF d] by (auto simp: top_class_def)
    ultimately show False by simp
  qed
  have "top_class ob buf d" using v [OF d] le by (simp add: top_class_def)
  then show ?thesis unfolding winner_def d_def [symmetric] using uniq by blast
qed

lemma classify_facts:
  assumes "size_doc ob"
  shows "\<exists>r. classifyBuffer ob buf eof = Some r \<and>
     (\<forall>c. r = Some c \<longrightarrow> winner ob buf c \<and> (eof \<or> 104 \<le> length buf)) \<and>
     (eof \<and> r = None \<longrightarrow> (\<forall>c. \<not> viable (score ob buf c)))"
proof -
  let ?v = "\<lambda>c. viable (score ob buf c)"
  let ?k = "\<lambda>c. viable (score ob buf c) \<and> 1 \<le> complete (score ob buf c)"
  have pre: "BlockPrefixSize ob = 104" using assms by (simp add: size_doc_def)
  obtain r where r: "classifyBuffer ob buf eof = Some r"
    using classifyBuffer_total [OF assms] by blast
  have v1: "winner ob buf (filter ?v sniffOrder ! 0)" if "length (filter ?v sniffOrder) = 1"
    using that by (rule sole_winner [where p = ?v]) blast+
  have k1: "winner ob buf (filter ?k sniffOrder ! 0)" if "length (filter ?k sniffOrder) = 1"
    using that by (rule sole_winner [where p = ?k]) force+
  have none: "\<not> ?v c" if "filter ?v sniffOrder = []" for c
    using that sniffOrder_all [of c] by (auto simp: filter_empty_conv)
  define V K where "V = filter ?v sniffOrder" and "K = filter ?k sniffOrder"
  note facts = v1 [folded V_def] k1 [folded K_def] none [folded V_def]
  have eq: "Some r =
      (if \<not> (eof \<or> 104 \<le> length buf) then Some None
       else if length V = 1 then Some (Some (V ! 0))
       else if 1 < length V then
         (if length K = 1 then Some (Some (K ! 0))
          else if eof \<or> sniffDecideAt \<le> length buf then bestCandidate ob buf False
          else Some None)
       else Some None)"
    unfolding r [symmetric] by (simp add: classifyBuffer_def score_loop_filter [OF assms] pre V_def K_def)
  have "(\<forall>c. r = Some c \<longrightarrow> winner ob buf c \<and> (eof \<or> 104 \<le> length buf)) \<and>
     (eof \<and> r = None \<longrightarrow> (\<forall>c. \<not> ?v c))"
  proof -
    consider (few) "\<not> (eof \<or> 104 \<le> length buf)"
      | (v) "eof \<or> 104 \<le> length buf" "length V = 1"
      | (k) "eof \<or> 104 \<le> length buf" "1 < length V" "length K = 1"
      | (best) "eof \<or> 104 \<le> length buf" "1 < length V" "length K \<noteq> 1" "eof \<or> sniffDecideAt \<le> length buf"
      | (wait) "\<not> (eof \<or> sniffDecideAt \<le> length buf)" "1 < length V" "length K \<noteq> 1"
      | (out) "V = []"
      using less_one nat_neq_iff length_0_conv by metis
    then show ?thesis
    proof cases
      case few
      with eq show ?thesis by simp
    next
      case v
      with eq have "r = Some (V ! 0)" by simp
      with facts(1) [OF v(2)] v(1) show ?thesis by simp
    next
      case k
      with eq have "r = Some (K ! 0)" by simp
      with facts(2) [OF k(3)] k(1) show ?thesis by simp
    next
      case best
      with eq have "bestCandidate ob buf False = Some r" by simp
      with bestCandidate_spec [OF assms, of buf False] best(1) show ?thesis by force
    next
      case wait
      with eq have "r = None" by (simp split: if_splits)
      with wait show ?thesis by simp
    next
      case out
      with eq have "r = None" by (simp split: if_splits)
      with facts(3) [OF out] show ?thesis by simp
    qed
  qed
  with r show ?thesis by blast
qed

text \<open>C24: A decision of \<open>classifyBuffer\<close> is always the class no other one beats: its fields are plausible,
  its walk meets no malformed object, no surviving class walked more whole objects, and of several equally good
  classes it is the one tried first. No decision is made on
  fewer bytes than the longest prefix a check reads, unless the stream has ended; at the end of the stream
  there is a decision unless every class is ruled out.\<close>

theorem classifyBuffer_winner:
  assumes "size_doc ob"
  shows "\<exists>r. classifyBuffer ob buf eof = Some r \<and>
     (\<forall>c. r = Some c \<longrightarrow> winner ob buf c \<and> (eof \<or> 104 \<le> length buf)) \<and>
     (eof \<and> r = None \<longrightarrow> (\<forall>c. \<not> viable (score ob buf c)))"
  by (rule classify_facts [OF assms])

theorem classifyBuffer_winner_witness:
  "size_doc ref_objfmt \<and> (\<exists>r. classifyBuffer ref_objfmt (replicate 200 1) True = Some r \<and>
     (\<forall>c. r = Some c \<longrightarrow> winner ref_objfmt (replicate 200 1) c))"
  using classifyBuffer_winner [OF ref_objfmt_size, of "replicate 200 1" True] ref_objfmt_size by blast

section \<open>The sniff of a connection\<close>

declare sniff_loop.simps [simp del]

definition has_magic :: "frame_pkg \<Rightarrow> bytes \<Rightarrow> bool" where
  "has_magic P buf \<longleftrightarrow> 4 \<le> length buf \<and> un_be (take 4 buf) = unat (MagicBSV P)"

text \<open>What a result promises of the buffer it returns; \<open>ended\<close> says whether the stream has ended.\<close>

fun sniff_ok :: "frame_pkg \<Rightarrow> objfmt_pkg \<Rightarrow> sniff_result \<Rightarrow> bool" where
  "sniff_ok P ob (SniffFramed buf) = has_magic P buf"
| "sniff_ok P ob (SniffClass c buf) = winner ob buf c"
| "sniff_ok P ob (SniffErr buf) = ((\<forall>c. \<not> viable (score ob buf c)) \<or> sniffCap \<le> length buf)"
| "sniff_ok P ob (SniffWait buf) = (length buf < sniffCap)"

fun sniffed :: "sniff_result \<Rightarrow> bytes" where
  "sniffed (SniffFramed buf) = buf"
| "sniffed (SniffClass c buf) = buf"
| "sniffed (SniffErr buf) = buf"
| "sniffed (SniffWait buf) = buf"

fun is_wait :: "sniff_result \<Rightarrow> bool" where
  "is_wait (SniffWait buf) = True"
| "is_wait _ = False"

definition sniff_spec ::
  "frame_pkg \<Rightarrow> objfmt_pkg \<Rightarrow> bytes \<Rightarrow> (bytes \<times> read_end) list \<Rightarrow> sniff_result \<Rightarrow> (bytes \<times> read_end) list \<Rightarrow> bool" where
  "sniff_spec P ob buf reads r left \<longleftrightarrow>
     (\<exists>used. reads = used @ left \<and> sniffed r = buf @ concat (map fst used)) \<and>
     sniff_ok P ob r \<and> (is_wait r \<longrightarrow> left = [])"

lemma sniff_spec_read:
  assumes "sniff_spec P ob (buf @ bs) reads r left"
  shows "sniff_spec P ob buf ((bs, e) # reads) r left"
proof -
  obtain used where "reads = used @ left" "sniffed r = buf @ bs @ concat (map fst used)"
    using assms by (auto simp: sniff_spec_def)
  then have "(bs, e) # reads = ((bs, e) # used) @ left"
    "sniffed r = buf @ concat (map fst ((bs, e) # used))" by simp_all
  with assms show ?thesis unfolding sniff_spec_def by blast
qed

lemma sniff_spec_now:
  assumes "sniffed r = buf" and "sniff_ok P ob r" and "\<not> is_wait r"
  shows "sniff_spec P ob buf reads r reads"
proof -
  have "reads = [] @ reads" "sniffed r = buf @ concat (map fst ([] :: (bytes \<times> read_end) list))"
    using assms(1) by simp_all
  with assms(2,3) show ?thesis unfolding sniff_spec_def by blast
qed

text \<open>Before each read: a decision, or the three conditions under which the loop reads on.\<close>

definition undecided :: "frame_pkg \<Rightarrow> objfmt_pkg \<Rightarrow> bytes \<Rightarrow> bool \<Rightarrow> bool" where
  "undecided P ob buf eof \<longleftrightarrow>
     \<not> has_magic P buf \<and> classifyBuffer ob buf eof = Some None \<and> \<not> eof \<and> length buf < sniffCap"

lemma sniff_decided:
  assumes doc: "size_doc ob" and "\<not> undecided P ob buf eof"
  shows "\<exists>r. sniff_loop P ob buf eof reads = Some (r, reads) \<and> sniff_spec P ob buf reads r reads"
proof -
  obtain r where r: "classifyBuffer ob buf eof = Some r" "\<forall>c. r = Some c \<longrightarrow> winner ob buf c"
    "eof \<and> r = None \<longrightarrow> (\<forall>c. \<not> viable (score ob buf c))"
    using classify_facts [OF doc, of buf eof] by blast
  consider (magic) "has_magic P buf" | (cls) c where "\<not> has_magic P buf" "r = Some c"
    | (err) "\<not> has_magic P buf" "r = None" "eof \<or> sniffCap \<le> length buf"
    using assms(2) r(1) unfolding undecided_def by (cases r) (auto simp: not_less)
  then show ?thesis
  proof cases
    case magic
    then have "sniff_loop P ob buf eof reads = Some (SniffFramed buf, reads)"
      by (simp add: sniff_loop.simps [of P ob buf] has_magic_def)
    with sniff_spec_now [of "SniffFramed buf"] magic show ?thesis by auto
  next
    case (cls c)
    then have "sniff_loop P ob buf eof reads = Some (SniffClass c buf, reads)"
      using r(1) by (simp add: sniff_loop.simps [of P ob buf] has_magic_def)
    with sniff_spec_now [of "SniffClass c buf"] cls r(2) show ?thesis by auto
  next
    case err
    then have "sniff_loop P ob buf eof reads = Some (SniffErr buf, reads)"
      using r(1) by (auto simp: sniff_loop.simps [of P ob buf] has_magic_def)
    moreover have "sniff_ok P ob (SniffErr buf)" using err r(3) by auto
    ultimately show ?thesis using sniff_spec_now [of "SniffErr buf"] by auto
  qed
qed

lemma undecided_reads:
  assumes "undecided P ob buf eof"
  shows "sniff_loop P ob buf eof [] = Some (SniffWait buf, [])"
    "sniff_loop P ob buf eof ((bs, R_ok) # reads) = sniff_loop P ob (buf @ bs) False reads"
    "sniff_loop P ob buf eof ((bs, R_fail) # reads) = sniff_loop P ob (buf @ bs) True reads"
    "sniff_loop P ob buf eof ((bs, R_timeout) # reads) =
       (case bestCandidate ob (buf @ bs) True of
          None \<Rightarrow> None
        | Some (Some c) \<Rightarrow> Some (SniffClass c (buf @ bs), reads)
        | Some None \<Rightarrow> sniff_loop P ob (buf @ bs) False reads)"
proof -
  have u: "eof = False" "\<not> (4 \<le> length buf \<and> un_be (take 4 buf) = unat (MagicBSV P))"
    "classifyBuffer ob buf False = Some None" "\<not> sniffCap \<le> length buf"
    using assms by (auto simp: undecided_def has_magic_def)
  show "sniff_loop P ob buf eof [] = Some (SniffWait buf, [])"
    "sniff_loop P ob buf eof ((bs, R_ok) # reads) = sniff_loop P ob (buf @ bs) False reads"
    "sniff_loop P ob buf eof ((bs, R_fail) # reads) = sniff_loop P ob (buf @ bs) True reads"
    "sniff_loop P ob buf eof ((bs, R_timeout) # reads) =
       (case bestCandidate ob (buf @ bs) True of
          None \<Rightarrow> None
        | Some (Some c) \<Rightarrow> Some (SniffClass c (buf @ bs), reads)
        | Some None \<Rightarrow> sniff_loop P ob (buf @ bs) False reads)"
    unfolding u(1) by (subst sniff_loop.simps, simp only: u if_False option.case list.case prod.case read_end.case)+
qed

lemma sniff_loop_spec:
  assumes doc: "size_doc ob"
  shows "\<exists>r left. sniff_loop P ob buf eof reads = Some (r, left) \<and> sniff_spec P ob buf reads r left"
proof (induction reads arbitrary: buf eof)
  case Nil
  show ?case
  proof (cases "undecided P ob buf eof")
    case True
    then have "sniff_spec P ob buf [] (SniffWait buf) []" by (simp add: sniff_spec_def undecided_def)
    with undecided_reads(1) [OF True] show ?thesis by blast
  qed (use sniff_decided [OF doc] in blast)
next
  case (Cons x reads)
  obtain bs e where x: "x = (bs, e)" by (cases x)
  show ?case
  proof (cases "undecided P ob buf eof")
    case True
    note u = undecided_reads(2-4) [OF True, of bs reads]
    have go: ?thesis if "sniff_loop P ob buf eof (x # reads) = sniff_loop P ob (buf @ bs) eof' reads" for eof'
      using Cons.IH [of "buf @ bs" eof'] that sniff_spec_read [where bs = bs and e = e] unfolding x by metis
    show ?thesis
    proof (cases e)
      case R_ok
      then show ?thesis using u(1) x go by simp
    next
      case R_fail
      then show ?thesis using u(2) x go by simp
    next
      case R_timeout
      from bestCandidate_spec [OF doc, of "buf @ bs" True] obtain b
        where b: "bestCandidate ob (buf @ bs) True = Some b" "\<forall>c. b = Some c \<longrightarrow> winner ob (buf @ bs) c"
        by blast
      show ?thesis
      proof (cases b)
        case None
        with u(3) b(1) x R_timeout show ?thesis by (intro go) simp
      next
        case (Some c)
        have "sniff_spec P ob (buf @ bs) reads (SniffClass c (buf @ bs)) reads"
          using b(2) Some by (intro sniff_spec_now) simp_all
        from sniff_spec_read [OF this] u(3) b(1) x R_timeout Some show ?thesis by auto
      qed
    qed
  qed (use sniff_decided [OF doc] in blast)
qed

text \<open>C23: The sniff of a connection loses no byte and never guesses below the evidence. Whatever the reads,
  it comes to a result (or still waits for a read, with less than the one-megabyte cap buffered); the bytes it
  hands to the pump are exactly the concatenation of the reads it consumed. It reports a framed stream only on
  the network magic, a class only when no other class survives with more whole objects, and an error only
  when every class is ruled out or the cap is reached.\<close>

theorem sniffClass_sound:
  assumes "size_doc ob"
  shows "\<exists>r left used. sniffClass P ob reads = Some (r, left) \<and> reads = used @ left \<and>
     sniffed r = concat (map fst used) \<and> sniff_ok P ob r \<and> (is_wait r \<longrightarrow> left = [])"
  using sniff_loop_spec [OF assms, of P "[]" False reads]
  by (auto simp: sniffClass_def sniff_spec_def)

theorem sniffClass_sound_witness:
  "\<exists>r left used. sniffClass ref_frame ref_objfmt [([0xE3, 0xE1], R_timeout), ([0xF3, 0xE8, 2], R_ok)] = Some (r, left) \<and>
     [([0xE3, 0xE1], R_timeout), ([0xF3, 0xE8, 2], R_ok)] = used @ left \<and>
     sniffed r = concat (map fst used) \<and> sniff_ok ref_frame ref_objfmt r"
  using sniffClass_sound [OF ref_objfmt_size, of ref_frame
      "[([0xE3, 0xE1], R_timeout), ([0xF3, 0xE8, 2], R_ok)]"] by blast

text \<open>A connection that is closed before its first byte is taken for a transaction lane.\<close>

lemma empty_connection:
  assumes "size_doc ob"
  shows "sniffClass P ob (([], R_fail) # reads) = Some (SniffClass ClassTx [], reads)"
proof -
  have w: "walkCandidate ob c [] = Some \<lparr>viable = True, complete = 0\<rparr>" for c
    using assms by (cases c) (simp_all add: walkCandidate_def plausible_def size_doc_def walk_loop.simps)
  have "classifyBuffer ob [] False = Some None"
    using assms by (simp add: classifyBuffer_def sniffOrder_def w size_doc_def)
  moreover have "classifyBuffer ob [] True = Some (Some ClassTx)"
    by (simp add: classifyBuffer_def sniffOrder_def w bestCandidate_def)
  ultimately show ?thesis by (simp add: sniffClass_def sniff_loop.simps sniffCap_def)
qed

section \<open>Lanes of the generators\<close>

text \<open>
  The objects of a lane, as \<open>objfmt\<close> documents their sizes: each is delimited whatever follows it, and its
  fields pass the plausibility checks. On any prefix of such a lane the walk counts the whole objects in it.
\<close>

definition lane_obj :: "objfmt_pkg \<Rightarrow> obj_class \<Rightarrow> bytes \<Rightarrow> bool" where
  "lane_obj ob c x \<longleftrightarrow>
     x \<noteq> [] \<and> (\<forall>r. plausible ob c (x @ r) = Some True \<and> obj_Size ob c (x @ r) = Size_ok (length x))"

lemma lane_score:
  assumes doc: "size_doc ob" and "\<forall>x \<in> set objs. lane_obj ob c x" and "objs \<noteq> []"
    and "part = [] \<or> obj_Size ob c part = Size_short"
  shows "score ob (concat objs @ part) c = \<lparr>viable = True, complete = length objs\<rparr>"
proof -
  have "plausible ob c (concat objs @ part) = Some True"
    using assms by (cases objs) (auto simp: lane_obj_def)
  moreover have "walk_loop (obj_Size ob c) (concat objs @ part) 0 = Some \<lparr>viable = True, complete = 0 + length objs\<rparr>"
    by (rule walk_loop_objects) (use assms in \<open>auto simp: lane_obj_def\<close>)
  ultimately show ?thesis by (simp add: score_def walkCandidate_def)
qed

text \<open>Documented of \<open>objfmt.Size\<close> on the transaction lane: it delimits a transaction.\<close>

definition tx_size_doc :: "objfmt_pkg \<Rightarrow> bool" where
  "tx_size_doc ob \<longleftrightarrow> (\<forall>x r. tx_obj x \<longrightarrow> obj_Size ob ClassTx (x @ r) = Size_ok (length x))"

lemma tx_lane_obj:
  assumes "tx_size_doc ob" and "tx_obj x"
  shows "lane_obj ob ClassTx x"
proof -
  have v: "4 \<le> length x \<and> take 4 x = le 4 2"
    using assms(2) by (auto simp: tx_obj_def elim!: raw_obj.cases ef_obj.cases)
  moreover have "un_le (le 4 2) = 2" by (simp add: un_le_le)
  ultimately have "plausible ob ClassTx (x @ r) = Some True" for r
    by (simp add: plausible_def slice_def)
  with assms v show ?thesis by (auto simp: lane_obj_def tx_size_doc_def)
qed

text \<open>On a lane of class \<open>c\<close> the classifier never rules \<open>c\<close> out.\<close>

lemma true_lane_not_beaten:
  assumes "size_doc ob" and "\<forall>x \<in> set objs. lane_obj ob c x" and "objs \<noteq> []"
    and "part = [] \<or> obj_Size ob c part = Size_short"
  shows "\<exists>r. classifyBuffer ob (concat objs @ part) eof = Some r \<and> (eof \<longrightarrow> r \<noteq> None) \<and>
     (\<forall>d. r = Some d \<longrightarrow> viable (score ob (concat objs @ part) d) \<and>
        length objs \<le> complete (score ob (concat objs @ part) d))"
proof -
  note s = lane_score [OF assms]
  from classify_facts [OF assms(1), of "concat objs @ part" eof] obtain r
    where r: "classifyBuffer ob (concat objs @ part) eof = Some r"
      "\<forall>d. r = Some d \<longrightarrow> winner ob (concat objs @ part) d"
      "eof \<and> r = None \<longrightarrow> (\<forall>d. \<not> viable (score ob (concat objs @ part) d))"
    by blast
  have "viable (score ob (concat objs @ part) c)" by (simp add: s)
  then have "eof \<longrightarrow> r \<noteq> None" using r(3) by auto
  moreover have "viable (score ob (concat objs @ part) d) \<and>
      length objs \<le> complete (score ob (concat objs @ part) d)" if "r = Some d" for d
    using r(2) that s unfolding winner_def top_class_def by (metis candScore.select_convs)
  ultimately show ?thesis using r(1) by blast
qed

lemma built_tx_obj:
  "\<exists>b dst n b'. Build b dst n = (Inr t, b') \<or> BuildEF b dst n = (Inr t, b') \<Longrightarrow> tx_obj t"
  by (metis Build_ok BuildEF_ok tx_obj_def)

text \<open>Built transactions are recognised. On a lane of transactions built by \<open>Build\<close> and \<open>BuildEF\<close>,
  whatever prefix of it has arrived (\<open>ts\<close> whole and perhaps a part of the next), the transaction class
  survives every check with a score of \<open>length ts\<close>; so the classifier decides for another class only if that
  one walks at least as many whole objects, and at the end of the stream it does decide.\<close>

theorem built_lane_recognised:
  assumes "size_doc ob" and "tx_size_doc ob" and "ts \<noteq> []"
    and "\<forall>t \<in> set ts. \<exists>b dst n b'. Build b dst n = (Inr t, b') \<or> BuildEF b dst n = (Inr t, b')"
    and "part = [] \<or> obj_Size ob ClassTx part = Size_short"
  shows "walkCandidate ob ClassTx (concat ts @ part) = Some \<lparr>viable = True, complete = length ts\<rparr> \<and>
     (\<exists>r. classifyBuffer ob (concat ts @ part) eof = Some r \<and> (eof \<longrightarrow> r \<noteq> None) \<and>
        (\<forall>d. r = Some d \<longrightarrow>
           (\<exists>k \<ge> length ts. walkCandidate ob d (concat ts @ part) = Some \<lparr>viable = True, complete = k\<rparr>)))"
proof -
  have objs: "\<forall>t \<in> set ts. lane_obj ob ClassTx t"
    using assms(4) tx_lane_obj [OF assms(2)] built_tx_obj by blast
  note walk = walk_score [OF assms(1)]
  have eta: "s = \<lparr>viable = True, complete = complete s\<rparr>" if "viable s" for s :: candScore
    using that by simp
  from true_lane_not_beaten [OF assms(1) objs assms(3,5), of eof]
    lane_score [OF assms(1) objs assms(3,5)] eta
  show ?thesis unfolding walk by (metis candScore.select_convs(1))
qed

lemma ref_objfmt_tx_size: "tx_size_doc ref_objfmt"
  by (simp add: tx_size_doc_def ref_objfmt_def ref_tx_size_def walk_tx_obj)

theorem built_lane_recognised_witness:
  "\<exists>t. fst (Build (tx_New (replicate 32 1)) [] 60) = Inr t \<and>
     walkCandidate ref_objfmt ClassTx (concat [t, t] @ [2, 0, 0]) = Some \<lparr>viable = True, complete = 2\<rparr>"
proof -
  obtain t b' where t: "Build (tx_New (replicate 32 1)) [] 60 = (Inr t, b')"
    using Build_result [of "tx_New (replicate 32 1)" "[]" 60]
    by (cases "Build (tx_New (replicate 32 1)) [] 60") auto
  have "obj_Size ref_objfmt ClassTx [2, 0, 0] = Size_short"
    by (simp add: ref_objfmt_def ref_tx_size_def walk_tx_def has_ef_marker_def efMarker_def skip_def)
  moreover have "\<forall>u \<in> set [t, t]. \<exists>b dst n b'. Build b dst n = (Inr u, b') \<or> BuildEF b dst n = (Inr u, b')"
    using t by auto
  ultimately have "walkCandidate ref_objfmt ClassTx (concat [t, t] @ [2, 0, 0]) =
      Some \<lparr>viable = True, complete = length [t, t]\<rparr>"
    using built_lane_recognised [OF ref_objfmt_size ref_objfmt_tx_size, of "[t, t]" "[2, 0, 0]"] by blast
  with t show ?thesis by auto
qed

end
