(* ===== verification/Sink_Stats.thy ===== *)
theory Sink_Stats
  imports Prelude "HOL-Library.Multiset"
begin

text \<open>
  \<open>cmd/tunnel-sink\<close>, session statistics and the renderings of the summary. The statistics record is
  shared by all connections under one mutex, so a session is a list of operations in the order in which
  the mutex was taken. Sizes are Go \<open>int\<close>s (lengths, so never near their bounds), totals are 64-bit words and
  wrap.
\<close>

section \<open>Statistics\<close>

definition dirRecv :: string where
  "dirRecv = ''RECV''"

definition dirSent :: string where
  "dirSent = ''SENT''"

definition statDirs :: "string list" where
  "statDirs = [dirRecv, dirSent]"

definition statBuckets :: "string list" where
  "statBuckets = [''txn'', ''subtree'', ''block'', ''other'']"

record laneTotals =
  objects :: u64
  lt_bytes :: u64
  minSize :: int
  maxSize :: int
  nodes :: u64
  subtrees :: u64

record stats =
  lanes :: "string \<Rightarrow> laneTotals option"
  conns :: int
  active :: int
  parseErrs :: int

definition newStats :: stats where
  "newStats = \<lparr>lanes = (\<lambda>_. None), conns = 0, active = 0, parseErrs = 0\<rparr>"

definition lane_key :: "string \<Rightarrow> string \<Rightarrow> string" where
  "lane_key dir bucket = dir @ ''/'' @ bucket"

definition fresh_lane :: laneTotals where
  "fresh_lane = \<lparr>objects = 0, lt_bytes = 0, minSize = -1, maxSize = 0, nodes = 0, subtrees = 0\<rparr>"

definition stats_lane :: "stats \<Rightarrow> string \<Rightarrow> laneTotals" where
  "stats_lane s k = (case lanes s k of None \<Rightarrow> fresh_lane | Some lt \<Rightarrow> lt)"

definition lane_record :: "int \<Rightarrow> u64 \<Rightarrow> u64 \<Rightarrow> laneTotals \<Rightarrow> laneTotals" where
  "lane_record sz nd sub lt =
     \<lparr>objects = objects lt + 1, lt_bytes = lt_bytes lt + word_of_int sz,
      minSize = (if minSize lt < 0 \<or> sz < minSize lt then sz else minSize lt),
      maxSize = (if maxSize lt < sz then sz else maxSize lt),
      nodes = nodes lt + nd, subtrees = subtrees lt + sub\<rparr>"

definition stats_record :: "string \<Rightarrow> string \<Rightarrow> int \<Rightarrow> u64 \<Rightarrow> u64 \<Rightarrow> stats \<Rightarrow> stats" where
  "stats_record dir bucket sz nd sub s =
     (let k = lane_key dir bucket
      in s\<lparr>lanes := (lanes s)(k \<mapsto> lane_record sz nd sub (stats_lane s k))\<rparr>)"

definition connOpen :: "stats \<Rightarrow> stats" where
  "connOpen s = s\<lparr>conns := conns s + 1, active := active s + 1\<rparr>"

definition connClose :: "stats \<Rightarrow> stats" where
  "connClose s = s\<lparr>active := active s - 1\<rparr>"

definition parseError :: "stats \<Rightarrow> stats" where
  "parseError s = s\<lparr>parseErrs := parseErrs s + 1\<rparr>"

text \<open>The operations the handlers perform; \<open>sink_session\<close> applies them in mutex order.\<close>

datatype stats_op = Op_open | Op_close | Op_parse | Op_record string string int u64 u64

fun stats_apply :: "stats_op \<Rightarrow> stats \<Rightarrow> stats" where
  "stats_apply Op_open s = connOpen s"
| "stats_apply Op_close s = connClose s"
| "stats_apply Op_parse s = parseError s"
| "stats_apply (Op_record dir bucket sz nd sub) s = stats_record dir bucket sz nd sub s"

definition sink_session :: "stats_op list \<Rightarrow> stats" where
  "sink_session ops = fold stats_apply ops newStats"

lemma session_snoc: "sink_session (ops @ [op]) = stats_apply op (sink_session ops)"
  by (simp add: sink_session_def)

text \<open>The objects recorded for a key, with their three figures, and their totals.\<close>

fun recorded :: "string \<Rightarrow> stats_op \<Rightarrow> (int \<times> u64 \<times> u64) option" where
  "recorded k (Op_record dir bucket sz nd sub) =
     (if lane_key dir bucket = k then Some (sz, nd, sub) else None)"
| "recorded k _ = None"

definition objs_of :: "string \<Rightarrow> stats_op list \<Rightarrow> (int \<times> u64 \<times> u64) list" where
  "objs_of k ops = List.map_filter (recorded k) ops"

definition totals :: "(int \<times> u64 \<times> u64) list \<Rightarrow> laneTotals" where
  "totals os =
     \<lparr>objects = of_nat (length os), lt_bytes = word_of_int (sum_list (map fst os)),
      minSize = Min (fst ` set os), maxSize = Max (fst ` set os),
      nodes = sum_list (map (fst \<circ> snd) os), subtrees = sum_list (map (snd \<circ> snd) os)\<rparr>"

fun size_ok :: "stats_op \<Rightarrow> bool" where
  "size_ok (Op_record dir b n nd sub) = (0 \<le> n)"
| "size_ok _ = True"

definition sizes_ok :: "stats_op list \<Rightarrow> bool" where
  "sizes_ok ops = list_all size_ok ops"

definition count_op :: "stats_op \<Rightarrow> stats_op list \<Rightarrow> int" where
  "count_op op ops = int (count (mset ops) op)"

lemma objs_of_snoc: "objs_of k (ops @ [op]) = objs_of k ops @ (case recorded k op of None \<Rightarrow> [] | Some x \<Rightarrow> [x])"
  by (simp add: objs_of_def List.map_filter_def split: option.split)

lemma objs_of_ok:
  assumes "sizes_ok ops" and "x \<in> set (objs_of k ops)"
  shows "0 \<le> fst x"
proof -
  obtain op where op: "op \<in> set ops" "recorded k op = Some x"
    using assms(2) by (auto simp: objs_of_def List.map_filter_def)
  have "size_ok op" using op(1) assms(1) by (simp add: sizes_ok_def list_all_iff)
  then show ?thesis using op(2) by (auto elim: recorded.elims split: if_splits)
qed

lemma Min_snoc: "os \<noteq> [] \<Longrightarrow> Min (fst ` set (os @ [x])) = min (fst x) (Min (fst ` set os))" for os :: "(int \<times> 'a) list"
  by (simp add: Min_insert)

lemma Max_snoc: "os \<noteq> [] \<Longrightarrow> Max (fst ` set (os @ [x])) = max (fst x) (Max (fst ` set os))" for os :: "(int \<times> 'a) list"
  by (simp add: Max_insert)

lemma totals_snoc:
  assumes "\<forall>x \<in> set os. 0 \<le> fst x" and "0 \<le> fst x" and "os \<noteq> []"
  shows "lane_record (fst x) (fst (snd x)) (snd (snd x)) (totals os) = totals (os @ [x])"
proof -
  have "0 \<le> Min (fst ` set os)" using assms by (intro Min.boundedI) auto
  then show ?thesis
    unfolding lane_record_def totals_def Min_snoc [OF assms(3)] Max_snoc [OF assms(3)]
    by (auto simp: min_def max_def)
qed

lemma totals_first:
  assumes "0 \<le> fst x"
  shows "lane_record (fst x) (fst (snd x)) (snd (snd x)) fresh_lane = totals [x]"
  using assms by (simp add: lane_record_def totals_def fresh_lane_def)

lemma session_lanes:
  assumes "sizes_ok ops"
  shows "lanes (sink_session ops) k = (if objs_of k ops = [] then None else Some (totals (objs_of k ops)))"
  using assms
proof (induction ops rule: rev_induct)
  case Nil
  then show ?case by (simp add: sink_session_def newStats_def objs_of_def List.map_filter_def)
next
  case (snoc op ops)
  have ok: "sizes_ok ops" using snoc.prems by (auto simp: sizes_ok_def)
  note IH = snoc.IH [OF ok]
  note os_ok = objs_of_ok [OF ok, of _ k]
  show ?case
  proof (cases "recorded k op")
    case None
    then have "lanes (sink_session (ops @ [op])) k = lanes (sink_session ops) k"
      by (cases op) (auto simp: session_snoc connOpen_def connClose_def parseError_def stats_record_def Let_def
          split: if_splits)
    with None IH show ?thesis by (simp add: objs_of_snoc)
  next
    case (Some x)
    then obtain dir b where op: "op = Op_record dir b (fst x) (fst (snd x)) (snd (snd x))" "lane_key dir b = k"
      by (cases op) (auto split: if_splits)
    have x: "0 \<le> fst x" using snoc.prems op(1) by (auto simp: sizes_ok_def)
    have "lanes (sink_session (ops @ [op])) k =
        Some (lane_record (fst x) (fst (snd x)) (snd (snd x)) (stats_lane (sink_session ops) k))"
      using op by (simp add: session_snoc stats_record_def Let_def)
    moreover have "lane_record (fst x) (fst (snd x)) (snd (snd x)) (stats_lane (sink_session ops) k) =
        totals (objs_of k ops @ [x])"
      using totals_first [OF x] totals_snoc [OF _ x] os_ok by (simp add: stats_lane_def IH)
    ultimately show ?thesis using Some by (simp add: objs_of_snoc)
  qed
qed

lemma session_counts:
  "conns (sink_session ops) = count_op Op_open ops"
  "active (sink_session ops) = count_op Op_open ops - count_op Op_close ops"
  "parseErrs (sink_session ops) = count_op Op_parse ops"
proof (induction ops rule: rev_induct)
  case Nil
  { case 1 show ?case by (simp add: sink_session_def newStats_def count_op_def)
  next case 2 show ?case by (simp add: sink_session_def newStats_def count_op_def)
  next case 3 show ?case by (simp add: sink_session_def newStats_def count_op_def) }
next
  case (snoc op ops)
  {
    case 1
    show ?case using snoc(1)
      by (cases op) (simp_all add: session_snoc count_op_def connOpen_def connClose_def parseError_def
          stats_record_def Let_def)
  next
    case 2
    show ?case using snoc(2)
      by (cases op) (simp_all add: session_snoc count_op_def connOpen_def connClose_def parseError_def
          stats_record_def Let_def)
  next
    case 3
    show ?case using snoc(3)
      by (cases op) (simp_all add: session_snoc count_op_def connOpen_def connClose_def parseError_def
          stats_record_def Let_def)
  }
qed

text \<open>C22: The statistics are exact. After any sequence of operations by any number of handlers, the
  entry of a direction and class exists only if an object was recorded under it, and then holds the number
  of those objects, the sum of their sizes, their smallest and largest size and the sums of their node and
  subtree counts; the connection counters hold the connections opened, those still open and the
  parse errors. Totals are modulo \<open>2 ^ 64\<close>.\<close>

theorem stats_exact:
  assumes "sizes_ok ops"
  shows "lanes (sink_session ops) k = (if objs_of k ops = [] then None else Some (totals (objs_of k ops))) \<and>
     conns (sink_session ops) = count_op Op_open ops \<and>
     active (sink_session ops) = count_op Op_open ops - count_op Op_close ops \<and>
     parseErrs (sink_session ops) = count_op Op_parse ops"
  using session_lanes [OF assms] session_counts by simp

theorem stats_exact_witness:
  "lanes (sink_session [Op_open, Op_record dirRecv ''txn'' 60 0 0, Op_record dirSent ''block'' 500 0 3,
     Op_record dirRecv ''txn'' 75 0 0]) ''RECV/txn'' =
     Some \<lparr>objects = 2, lt_bytes = 135, minSize = 60, maxSize = 75, nodes = 0, subtrees = 0\<rparr>"
proof -
  let ?ops = "[Op_open, Op_record dirRecv ''txn'' 60 0 0, Op_record dirSent ''block'' 500 0 3,
     Op_record dirRecv ''txn'' 75 0 0]"
  have ok: "sizes_ok ?ops" by (simp add: sizes_ok_def)
  have "objs_of ''RECV/txn'' ?ops = [(60, 0, 0), (75, 0, 0)]"
    by (simp add: objs_of_def List.map_filter_def lane_key_def dirRecv_def dirSent_def)
  with stats_exact [OF ok, of "''RECV/txn''"] show ?thesis by (simp add: totals_def)
qed

text \<open>The totals depend on the multiset of the objects only.\<close>

lemma totals_mset:
  assumes "mset os = mset os'"
  shows "totals os = totals os'"
proof -
  have "set os = set os'" using assms by (rule mset_eq_setD)
  moreover have "length os = length os'" using assms by (rule mset_eq_length)
  moreover have "sum_list (map f os) = sum_list (map f os')" for f :: "_ \<Rightarrow> 'b :: comm_monoid_add"
    using assms by (metis mset_map sum_mset_sum_list)
  ultimately show ?thesis unfolding totals_def by metis
qed

lemma objs_of_mset:
  assumes "mset ops = mset ops'"
  shows "mset (objs_of k ops) = mset (objs_of k ops')"
  unfolding objs_of_def List.map_filter_def mset_map mset_filter assms ..

text \<open>The interleaving of the connections does not show: two sessions in which the same operations took
  the mutex in different orders end with equal statistics.\<close>

theorem stats_order_irrelevant:
  assumes "mset ops = mset ops'" and "sizes_ok ops"
  shows "sink_session ops = sink_session ops'"
proof -
  have ok': "sizes_ok ops'"
    using assms(2) unfolding sizes_ok_def list_all_iff mset_eq_setD [OF assms(1)] .
  have "objs_of k ops = [] \<longleftrightarrow> objs_of k ops' = []" for k
    using objs_of_mset [OF assms(1), of k] by (metis mset_zero_iff)
  then have "lanes (sink_session ops) = lanes (sink_session ops')"
    using totals_mset [OF objs_of_mset [OF assms(1)]]
    by (intro ext) (simp add: session_lanes [OF assms(2)] session_lanes [OF ok'])
  then show ?thesis using assms(1) by (simp add: session_counts count_op_def)
qed

theorem stats_order_irrelevant_witness:
  "sink_session [Op_open, Op_open, Op_record dirRecv ''txn'' 60 0 0, Op_record dirRecv ''txn'' 75 0 0] =
   sink_session [Op_open, Op_record dirRecv ''txn'' 75 0 0, Op_open, Op_record dirRecv ''txn'' 60 0 0]"
  by (rule stats_order_irrelevant) (simp_all add: sizes_ok_def add.commute)

end
