(* ===== verification/Sink_Format.thy ===== *)
theory Sink_Format
  imports Subtree_Pool
begin

text \<open>
  \<open>cmd/tunnel-sink\<close>, the renderings: thousands
  separators, sizes with one decimal place, identifiers and the zero test. A float is the integer it is
  computed from, rounded to the 53 bits of a \<open>float64\<close>; dividing it by a power of two is exact.
\<close>

section \<open>Thousands separators\<close>

text \<open>The loop of \<open>group\<close>: the builder so far, and the digits \<open>s[i:]\<close> not yet written.\<close>

function group_loop :: "string \<Rightarrow> string \<Rightarrow> string" where
  "group_loop b s =
     (if s = [] then b
      else group_loop ((if b \<noteq> [] then b @ '','' else b) @ take 3 s) (drop 3 s))"
  by pat_completeness auto
termination
  by (relation "measure (\<lambda>(b, s). length s)") auto

declare group_loop.simps [simp del]

definition group :: "nat \<Rightarrow> string" where
  "group n =
     (let s = dec n in
      if length s \<le> 3 then s
      else let lead = length s mod 3;
               b = (if 0 < lead then take lead s else [])
           in group_loop b (drop lead s))"

text \<open>The reference: on the reversed digits, a comma behind each three that have a successor.\<close>

fun sep3 :: "string \<Rightarrow> string" where
  "sep3 (a # b # c # d # r) = a # b # c # CHR '','' # sep3 (d # r)"
| "sep3 s = s"

lemma sep3_short: "length s \<le> 3 \<Longrightarrow> sep3 s = s"
  by (cases s rule: sep3.cases) simp_all

lemma sep3_more: "length t = 3 \<Longrightarrow> s \<noteq> [] \<Longrightarrow> sep3 (t @ s) = t @ CHR '','' # sep3 s"
  by (cases s) (auto simp: length_Suc_conv numeral_3_eq_3)

lemma sep3_nonempty: "s \<noteq> [] \<Longrightarrow> sep3 s \<noteq> []"
  by (cases s rule: sep3.cases) simp_all

lemma group_loop_sep3:
  assumes "length s = 3 * m" and "b \<noteq> []"
  shows "group_loop (rev (sep3 (rev b))) s = rev (sep3 (rev (b @ s)))"
  using assms
proof (induction m arbitrary: b s)
  case 0
  then show ?case by (simp add: group_loop.simps)
next
  case (Suc m)
  define t u where "t = take 3 s" and "u = drop 3 s"
  have tu: "s = t @ u" "length t = 3" "length u = 3 * m" using Suc.prems(1) by (simp_all add: t_def u_def)
  have "rev (sep3 (rev b)) \<noteq> []" using Suc.prems(2) sep3_nonempty by simp
  then have "group_loop (rev (sep3 (rev b))) s = group_loop (rev (sep3 (rev b)) @ '','' @ t) u"
    using tu by (subst group_loop.simps) auto
  also have "rev (sep3 (rev b)) @ '','' @ t = rev (sep3 (rev (b @ t)))"
    using sep3_more [of "rev t" "rev b"] tu(2) Suc.prems(2) by simp
  also have "group_loop \<dots> u = rev (sep3 (rev (b @ t @ u)))"
    using Suc.IH [OF tu(3), of "b @ t"] Suc.prems(2) by simp
  finally show ?case by (simp add: tu(1))
qed

lemma group_sep3: "group n = rev (sep3 (rev (dec n)))"
proof (cases "length (dec n) \<le> 3")
  case True
  then show ?thesis by (simp add: group_def sep3_short)
next
  case False
  let ?s = "dec n"
  define lead where "lead = length ?s mod 3"
  define m where "m = length ?s div 3"
  have len: "length ?s = lead + 3 * m" "lead < 3" by (simp_all add: lead_def m_def)
  show ?thesis
  proof (cases "lead = 0")
    case True
    with len False obtain m' where m': "m = Suc m'" "0 < m'" by (cases m) auto
    define t u where "t = take 3 ?s" and "u = drop 3 ?s"
    have tu: "?s = t @ u" "length t = 3" "length u = 3 * m'" using len True m' by (simp_all add: t_def u_def)
    have "group n = group_loop [] ?s" using False True by (simp add: group_def Let_def lead_def [symmetric])
    also have "\<dots> = group_loop t u" using dec_nonempty [of n] by (subst group_loop.simps) (simp add: t_def u_def)
    also have "t = rev (sep3 (rev t))" using tu(2) by (simp add: sep3_short)
    also have "group_loop \<dots> u = rev (sep3 (rev ?s))"
      unfolding tu(1) by (rule group_loop_sep3 [OF tu(3)]) (use tu(2) in auto)
    finally show ?thesis .
  next
    case False
    define t u where "t = take lead ?s" and "u = drop lead ?s"
    have tu: "?s = t @ u" "length t = lead" "length u = 3 * m" using len by (simp_all add: t_def u_def)
    have "group n = group_loop t u"
      using False \<open>\<not> length (dec n) \<le> 3\<close> by (simp add: group_def Let_def lead_def [symmetric] t_def u_def)
    also have "t = rev (sep3 (rev t))" using tu(2) len by (simp add: sep3_short)
    also have "group_loop \<dots> u = rev (sep3 (rev ?s))"
      unfolding tu(1) by (rule group_loop_sep3 [OF tu(3)]) (use tu(2) False in auto)
    finally show ?thesis .
  qed
qed

lemma sep3_filter: "CHR '','' \<notin> set s \<Longrightarrow> filter (\<lambda>c. c \<noteq> CHR '','') (sep3 s) = s"
  by (induction s rule: sep3.induct) auto

lemma sep3_commas: "CHR '','' \<notin> set s \<Longrightarrow> i < length (sep3 s) \<Longrightarrow> sep3 s ! i = CHR '','' \<longleftrightarrow> i mod 4 = 3"
proof (induction s arbitrary: i rule: sep3.induct)
  case (1 a b c d r)
  have "i = 0 \<or> i = 1 \<or> i = 2 \<or> i = 3 \<or> (\<exists>j. i = j + 4)" by presburger
  then consider "i = 0" | "i = 1" | "i = 2" | "i = 3" | j where "i = j + 4" by blast
  then show ?case
    by cases (use 1 in \<open>auto simp: nth_Cons'\<close>)
qed (auto simp: nth_Cons' less_Suc_eq split: if_splits)

text \<open>\<open>group\<close> renders a number losslessly with its separators where they belong: removing the commas
  gives the decimal digits, whose value is the number, and counted from the right exactly every fourth
  character is a comma.\<close>

theorem group_exact:
  "filter (\<lambda>c. c \<noteq> CHR '','') (group n) = dec n \<and> un_dec (filter (\<lambda>c. c \<noteq> CHR '','') (group n)) = n \<and>
   list_all2 (\<lambda>i c. (c = CHR '','') = (i mod 4 = 3)) [0..<length (group n)] (rev (group n))"
proof -
  have nc: "CHR '','' \<notin> set (rev (dec n))" using dec_no_comma by simp
  have "filter (\<lambda>c. c \<noteq> CHR '','') (group n) = dec n"
    using sep3_filter [OF nc] by (simp add: group_sep3 rev_filter [symmetric])
  moreover have "list_all2 (\<lambda>i c. (c = CHR '','') = (i mod 4 = 3)) [0..<length (group n)] (rev (group n))"
    using sep3_commas [OF nc] by (simp add: group_sep3 list_all2_conv_all_nth)
  ultimately show ?thesis by (simp add: un_dec_dec)
qed

text \<open>A witness value with two separators, computed by the code.\<close>

lemma group_million: "group 1234567 = ''1,234,567''"
  by (simp add: group_sep3 dec.simps digit_def)

section \<open>Sizes\<close>

text \<open>Round half to even, the rounding of \<open>float64\<close> conversion and of \<open>%.1f\<close>.\<close>

definition div_even :: "nat \<Rightarrow> nat \<Rightarrow> nat" where
  "div_even a b =
     (let q = a div b; r = a mod b in
      if 2 * r < b then q else if b < 2 * r then Suc q else if even q then q else Suc q)"

fun bit_length :: "nat \<Rightarrow> nat" where
  "bit_length n = (if n = 0 then 0 else Suc (bit_length (n div 2)))"

declare bit_length.simps [simp del]

definition float64_of :: "nat \<Rightarrow> nat" where
  "float64_of n =
     (let e = bit_length n - 53 in if e = 0 then n else div_even n (2 ^ e) * 2 ^ e)"

text \<open>\<open>%.1f\<close> of \<open>float64(n) / 2 ^ k\<close>: the tenths, and their rendering.\<close>

definition tenths :: "nat \<Rightarrow> nat \<Rightarrow> nat" where
  "tenths n k = div_even (10 * float64_of n) (2 ^ k)"

definition one_decimal :: "nat \<Rightarrow> nat \<Rightarrow> string" where
  "one_decimal n k = dec (tenths n k div 10) @ ''.'' @ dec (tenths n k mod 10)"

definition byteSize :: "int \<Rightarrow> string" where
  "byteSize n =
     (if n < 2 ^ 10 then int_dec n @ '' B''
      else if n < 2 ^ 20 then one_decimal (nat n) 10 @ '' KiB''
      else if n < 2 ^ 30 then one_decimal (nat n) 20 @ '' MiB''
      else one_decimal (nat n) 30 @ '' GiB'')"

lemma bit_length_le: "n < 2 ^ k \<Longrightarrow> bit_length n \<le> k"
proof (induction k arbitrary: n)
  case 0
  then show ?case by (simp add: bit_length.simps)
next
  case (Suc k)
  then have "bit_length (n div 2) \<le> k" by simp
  then show ?case by (simp add: bit_length.simps [of n])
qed

lemma float64_exact: "n < 2 ^ 53 \<Longrightarrow> float64_of n = n"
  using bit_length_le [of n 53] by (simp add: float64_of_def)

lemma div_even_near:
  assumes "0 < b"
  shows "2 * a \<le> 2 * (div_even a b * b) + b" "2 * (div_even a b * b) \<le> 2 * a + b"
proof -
  define q r where "q = a div b" and "r = a mod b"
  have a: "a = q * b + r" and r: "r < b" using assms by (simp_all add: q_def r_def)
  consider "div_even a b = q" "2 * r \<le> b" | "div_even a b = Suc q" "b \<le> 2 * r"
    unfolding div_even_def Let_def q_def r_def
    by (cases "2 * (a mod b) < b"; cases "b < 2 * (a mod b)"; cases "even (a div b)") auto
  then have "2 * a \<le> 2 * (div_even a b * b) + b \<and> 2 * (div_even a b * b) \<le> 2 * a + b"
    using r by cases (simp_all add: a)
  then show "2 * a \<le> 2 * (div_even a b * b) + b" "2 * (div_even a b * b) \<le> 2 * a + b" by simp_all
qed

text \<open>A size below \<open>2 ^ 53\<close> is rendered to within half a unit of its last digit: in the unit chosen, the
  printed number of tenths \<open>t\<close> satisfies \<open>|n / 2 ^ k - t / 10| <= 1 / 20\<close>; a size below a KiB is
  printed exactly.\<close>

theorem byteSize_accurate:
  assumes "n < 2 ^ 53"
  shows "byteSize (int n) =
      (if n < 2 ^ 10 then dec n @ '' B''
       else let k = (if n < 2 ^ 20 then 10 else if n < 2 ^ 30 then 20 else 30);
                unit = (if n < 2 ^ 20 then '' KiB'' else if n < 2 ^ 30 then '' MiB'' else '' GiB'')
            in dec (tenths n k div 10) @ ''.'' @ dec (tenths n k mod 10) @ unit) \<and>
     20 * n \<le> 2 * (tenths n k * 2 ^ k) + 2 ^ k \<and> 2 * (tenths n k * 2 ^ k) \<le> 20 * n + 2 ^ k"
proof -
  have t: "tenths n k = div_even (10 * n) (2 ^ k)" by (simp add: tenths_def float64_exact [OF assms])
  have "int n < 2 ^ j \<longleftrightarrow> n < 2 ^ j" for j
    by (metis of_nat_less_iff of_nat_numeral of_nat_power)
  then have "byteSize (int n) =
      (if n < 2 ^ 10 then dec n @ '' B''
       else let k = (if n < 2 ^ 20 then 10 else if n < 2 ^ 30 then 20 else 30);
                unit = (if n < 2 ^ 20 then '' KiB'' else if n < 2 ^ 30 then '' MiB'' else '' GiB'')
            in dec (tenths n k div 10) @ ''.'' @ dec (tenths n k mod 10) @ unit)"
    unfolding byteSize_def by (simp add: one_decimal_def int_dec_def Let_def)
  moreover have "20 * n \<le> 2 * (tenths n k * 2 ^ k) + 2 ^ k \<and> 2 * (tenths n k * 2 ^ k) \<le> 20 * n + 2 ^ k"
    unfolding t using div_even_near [of "2 ^ k" "10 * n"] by simp
  ultimately show ?thesis by blast
qed

theorem byteSize_accurate_witness: "byteSize 1331 = ''1.3 KiB''"
proof -
  have "bit_length 1331 \<le> 53" by (rule bit_length_le) simp
  then have "tenths 1331 10 = 13" by (simp add: tenths_def float64_of_def div_even_def Let_def)
  then show ?thesis using byteSize_accurate [of 1331] by (simp add: dec.simps digit_def)
qed

section \<open>Identifiers\<close>

definition shortID :: "bytes \<Rightarrow> string" where
  "shortID i = hex_encode (take (if length i < 8 then length i else 8) i) @ ellipsis"

fun allZero :: "bytes \<Rightarrow> bool" where
  "allZero [] = True"
| "allZero (c # b) = (if c \<noteq> 0 then False else allZero b)"

lemma allZero_replicate: "allZero b \<longleftrightarrow> b = replicate (length b) 0"
  by (induction b) auto

end
