(* ===== verification/Sink_Lines.thy ===== *)
theory Sink_Lines
  imports Sink_Format
begin

text \<open>
  \<open>cmd/tunnel-sink\<close>, the line printed for every object. An entry is the time stamp, the interface and the line
  the pumps make; \<open>read_entry\<close> is how a reader takes a printed line apart, by columns that end at a space.
\<close>

text \<open>Direction, format, class, identifier and detail.\<close>

type_synonym line = "string \<times> string \<times> string \<times> string \<times> string"

type_synonym entry = "string \<times> string \<times> line"

abbreviation blank :: char where
  "blank \<equiv> CHR '' ''"

abbreviation newline :: char where
  "newline \<equiv> CHR 0x0A"

definition logLine :: "entry \<Rightarrow> string" where
  "logLine = (\<lambda>(stamp, iface, dir, brc, class, i, detail).
     stamp @ ''  '' @ pad_right 4 dir @ ''  '' @ pad_right 8 iface @ ''  '' @ pad_right 7 brc @ ''  '' @
     pad_right 7 class @ ''  id='' @ i @ ''  '' @ detail @ [newline])"

section \<open>Reading a line\<close>

definition column :: "string \<Rightarrow> string \<times> string" where
  "column s = (takeWhile (\<lambda>c. c \<noteq> blank) s, dropWhile (\<lambda>c. c = blank) (dropWhile (\<lambda>c. c \<noteq> blank) s))"

definition read_entry :: "string \<Rightarrow> entry" where
  "read_entry s =
     (let (dir, s1) = column (drop 25 s);
          (iface, s2) = column s1;
          (brc, s3) = column s2;
          (class, s4) = column s3;
          (i, detail) = column s4
      in (take 23 s, iface, dir, brc, class, drop 3 i, detail))"

text \<open>The lines of a text, each ended by a newline.\<close>

fun text_lines :: "string \<Rightarrow> string \<Rightarrow> string list" where
  "text_lines acc [] = []"
| "text_lines acc (c # s) = (if c = newline then acc # text_lines [] s else text_lines (acc @ [c]) s)"

definition read_log :: "string \<Rightarrow> entry list" where
  "read_log s = map read_entry (text_lines [] s)"

section \<open>Fields that survive\<close>

definition token :: "string \<Rightarrow> bool" where
  "token s \<longleftrightarrow> s \<noteq> [] \<and> blank \<notin> set s \<and> newline \<notin> set s"

text \<open>The bucket in which an object of a class is counted.\<close>

definition bucket_of :: "string \<Rightarrow> string" where
  "bucket_of class = (if class \<in> {''txn'', ''subtree'', ''block''} then class else ''other'')"

definition line_ok :: "string \<Rightarrow> line \<Rightarrow> bool" where
  "line_ok dir = (\<lambda>(d, brc, class, i, detail).
     d = dir \<and> token brc \<and> token class \<and> token i \<and> detail \<noteq> [] \<and> hd detail \<noteq> blank \<and> newline \<notin> set detail)"

definition stamp_ok :: "entry \<Rightarrow> bool" where
  "stamp_ok = (\<lambda>(stamp, iface, l). length stamp = 23 \<and> newline \<notin> set stamp \<and> token iface)"

lemma blanks_off: "s = [] \<or> hd s \<noteq> b \<Longrightarrow> dropWhile (\<lambda>c. c = b) (replicate k b @ s) = s"
  by (induction k) (cases s; simp)+

lemma column_blanks:
  assumes "token w" and "s \<noteq> []" "hd s \<noteq> blank"
  shows "column (w @ blank # replicate k blank @ s) = (w, s)"
proof -
  define b where "b = blank"
  have "column (w @ b # t) = (w, dropWhile (\<lambda>c. c = b) (b # t))" for t
    using assms(1) unfolding column_def token_def b_def [symmetric]
    by (simp add: takeWhile_append dropWhile_append split: if_splits)
  then show ?thesis using blanks_off [of s b "Suc k"] assms(2,3) by (simp add: b_def)
qed

lemma column_pads:
  assumes "token w" and "s \<noteq> []" "hd s \<noteq> blank"
  shows "column (pad_right n w @ ''  '' @ s) = (w, s)"
proof -
  have "replicate m b @ [b, b] = b # replicate (Suc m) b" for m and b :: char
    by (induction m) simp_all
  then have "pad_right n w @ ''  '' @ s = w @ blank # replicate (Suc (n - rune_count w)) blank @ s"
    unfolding pad_right_def by (metis append.assoc append_Cons append_Nil)
  then show ?thesis using column_blanks [OF assms] by metis
qed

lemma column_word:
  assumes "token w" and "s \<noteq> []" "hd s \<noteq> blank"
  shows "column (w @ ''  '' @ s) = (w, s)"
  using column_pads [OF assms, of 0] by (simp add: pad_right_def)

lemma pad_starts:
  assumes "token w"
  shows "pad_right n w @ s \<noteq> []" "hd (pad_right n w @ s) \<noteq> blank"
proof -
  have "w \<noteq> []" using assms by (simp add: token_def)
  moreover have "hd w \<noteq> blank" using assms hd_in_set [of w] unfolding token_def by metis
  ultimately show "pad_right n w @ s \<noteq> []" "hd (pad_right n w @ s) \<noteq> blank" by (simp_all add: pad_right_def)
qed

text \<open>The text of an entry without its newline.\<close>

lemma read_entry_line:
  assumes "stamp_ok e" and "line_ok dir (snd (snd e))" and "token dir"
  shows "read_entry (butlast (logLine e)) = e"
proof -
  obtain t iface d brc cls i detail where e: "e = (t, iface, d, brc, cls, i, detail)" by (cases e)
  note ok = assms(1,2) [unfolded e stamp_ok_def line_ok_def, simplified]
  define r5 where "r5 = (''id='' @ i) @ ''  '' @ detail"
  define r4 where "r4 = pad_right 7 cls @ ''  '' @ r5"
  define r3 where "r3 = pad_right 7 brc @ ''  '' @ r4"
  define r2 where "r2 = pad_right 8 iface @ ''  '' @ r3"
  define r1 where "r1 = pad_right 4 dir @ ''  '' @ r2"
  have tk: "token iface" "token brc" "token cls" "token i" "token (''id='' @ i)" using ok by (auto simp: token_def)
  have "r5 \<noteq> []" "hd r5 \<noteq> blank" by (simp_all add: r5_def)
  then have c: "column r4 = (cls, r5)" unfolding r4_def by (rule column_pads [OF tk(3)])
  have c1: "column r1 = (dir, r2)" unfolding r1_def by (rule column_pads [OF assms(3)]) (unfold r2_def, rule pad_starts [OF tk(1)], rule pad_starts [OF tk(1)])
  have c2: "column r2 = (iface, r3)" unfolding r2_def by (rule column_pads [OF tk(1)]) (unfold r3_def, rule pad_starts [OF tk(2)], rule pad_starts [OF tk(2)])
  have c3: "column r3 = (brc, r4)" unfolding r3_def by (rule column_pads [OF tk(2)]) (unfold r4_def, rule pad_starts [OF tk(3)], rule pad_starts [OF tk(3)])
  have c5: "column r5 = (''id='' @ i, detail)" unfolding r5_def using ok by (intro column_word [OF tk(5)]) simp_all
  have "logLine e = (t @ ''  '' @ r1) @ [newline]" using ok by (simp add: e logLine_def r1_def r2_def r3_def r4_def r5_def)
  then have b: "butlast (logLine e) = t @ ''  '' @ r1" by (simp only: butlast_snoc)
  have "take 23 (t @ ''  '' @ r1) = t" "drop 25 (t @ ''  '' @ r1) = r1" using ok by simp_all
  then show ?thesis using ok unfolding b read_entry_def Let_def by (simp add: c c1 c2 c3 c5 e)
qed

lemma text_lines_line: "newline \<notin> set w \<Longrightarrow> text_lines acc (w @ newline # s) = (acc @ w) # text_lines [] s"
  by (induction w arbitrary: acc) auto

lemma logLine_text:
  assumes "stamp_ok e" and "line_ok dir (snd (snd e))" and "token dir"
  shows "logLine e = butlast (logLine e) @ [newline]" "newline \<notin> set (butlast (logLine e))"
  using assms by (auto simp: logLine_def stamp_ok_def line_ok_def token_def pad_right_def butlast_append)

lemma read_log_entries:
  assumes "list_all (\<lambda>e. stamp_ok e \<and> (\<exists>dir. token dir \<and> line_ok dir (snd (snd e)))) es"
  shows "read_log (concat (map logLine es)) = es"
  using assms
proof (induction es)
  case Nil
  then show ?case by (simp add: read_log_def)
next
  case (Cons e es)
  then obtain dir where ok: "stamp_ok e" "line_ok dir (snd (snd e))" "token dir" by auto
  have "concat (map logLine (e # es)) = butlast (logLine e) @ newline # concat (map logLine es)"
    using logLine_text(1) [OF ok] by (metis append.assoc append_Cons append_Nil concat.simps(2) list.simps(9))
  moreover have "read_log (butlast (logLine e) @ newline # s) = e # read_log s" for s
    using text_lines_line [OF logLine_text(2) [OF ok], of "[]"] read_entry_line [OF ok] by (simp add: read_log_def)
  moreover have "read_log (concat (map logLine es)) = es" using Cons by simp
  ultimately show ?case by metis
qed

section \<open>What the pumps put into the fields\<close>

lemma digits_plain:
  "set (dec n) \<subseteq> set ''0123456789''"
proof (induction n rule: dec.induct)
  case (1 n)
  have "k < 10 \<Longrightarrow> digit k \<in> set ''0123456789''" for k
    unfolding digit_def by (rule nth_mem) simp
  with 1 show ?case by (cases "n < 10") (simp_all add: dec.simps [of n])
qed

lemma hex_digit_plain:
  assumes "k < 16"
  shows "hex_digit k \<in> set ''0123456789abcdef''"
proof -
  have "k \<in> {0, 1, 2, 3, 4, 5, 6, 7, 8, 9, 10, 11, 12, 13, 14, 15}" using assms by (simp; presburger)
  then show ?thesis by (elim insertE emptyE; simp only:; code_simp)
qed

lemma hex_plain: "set (hex_encode bs) \<subseteq> set ''0123456789abcdef''"
proof -
  define H where "H = set ''0123456789abcdef''"
  have h: "hex_digit k \<in> H" if "k < 16" for k unfolding H_def by (rule hex_digit_plain [OF that])
  have "unat (b :: byte) div 16 < 16" for b
    using unsigned_less [of b, where ?'a = nat] by (simp add: less_mult_imp_div_less)
  then have "set (hex_encode bs) \<subseteq> H" using h by (auto simp: hex_encode_def)
  then show ?thesis by (simp only: H_def)
qed

lemma token_append: "token s \<Longrightarrow> blank \<notin> set t \<Longrightarrow> newline \<notin> set t \<Longrightarrow> token (t @ s)"
  by (auto simp: token_def)

lemma hex_not_blank: "blank \<notin> set (hex_encode bs)" "newline \<notin> set (hex_encode bs)"
  using hex_plain [of bs] by auto

lemma token_shortID: "token (shortID i)"
proof -
  have "token ellipsis" by code_simp
  then show ?thesis unfolding shortID_def by (intro token_append hex_not_blank)
qed

lemma token_ver: "token (''ver'' @ hex_encode [v])"
  using hex_not_blank [of "[v]"] by (simp add: token_def)

lemma byteSize_plain: "newline \<notin> set (byteSize n)"
proof -
  have "newline \<notin> set (dec k)" for k using digits_plain [of k] by auto
  then show ?thesis by (simp add: byteSize_def int_dec_def one_decimal_def)
qed

lemma dec_plain: "newline \<notin> set (dec n)"
  using digits_plain [of n] by auto

lemma token_names:
  "token ''txn''" "token ''subtree''" "token ''block''" "token ''frag''"
  "token ''anchor''" "token ''header''" "token ''bundle''" "token ''beef''"
  "token ''BRC-12''" "token ''BRC-30''" "token ''BRC-124''" "token ''BRC-128''"
  "token ''BRC-130''" "token ''BRC-131''" "token ''BRC-132''" "token ''BRC-134''"
  "token ''BRC-135''" "token ''BRC-142''" "token ''BRC-143''" "token ''BRC-144''"
  "token ''BRC-149''" "token ''BRC-?''"
  by (simp_all add: token_def)

end
