(* ===== verification/Sink_Pump.thy ===== *)
theory Sink_Pump
  imports Objfmt_Ref Frames Sink_Stats Sink_Lines "HOL-Library.Sublist"
begin

text \<open>
  \<open>cmd/tunnel-sink\<close>, the two stream pumps: bare single-class streams and framed streams. A connection is the
  bytes it delivers, the sniffed prefix first, and how it ends; the relay connection is the outcome of each
  write. A pump returns the error it stops with and what it has done: the statistics operations, the log
  lines (without time and interface) and the successful relay writes. \<open>None\<close> is a slice out of range.
\<close>

section \<open>Streams\<close>

datatype stream_end = End_EOF | End_closed | End_failed

datatype stream_err =
  E_EOF | E_UnexpectedEOF | E_Closed | E_Read | E_LostSync | E_Legacy | E_TooLarge | E_Relay | E_Object

text \<open>The error of a read that finds no byte, and \<open>io.ReadFull\<close> on a buffer of \<open>n\<close> bytes.\<close>

definition end_err :: "stream_end \<Rightarrow> stream_err" where
  "end_err e = (case e of End_EOF \<Rightarrow> E_EOF | End_closed \<Rightarrow> E_Closed | End_failed \<Rightarrow> E_Read)"

definition read_full :: "nat \<Rightarrow> bytes \<Rightarrow> stream_end \<Rightarrow> stream_err + bytes \<times> bytes" where
  "read_full n s e =
     (if n \<le> length s then Inr (take n s, drop n s)
      else if e = End_EOF \<and> s \<noteq> [] then Inl E_UnexpectedEOF
      else Inl (end_err e))"

record pump_out =
  po_ops :: "stats_op list"
  po_lines :: "line list"
  po_fwd :: "bytes list"

text \<open>
  One object logged, and the writes of one object to the relay connection, if there is one. A write that fails
  is taken to have delivered none of its bytes.
\<close>

definition logged :: "line \<times> stats_op \<Rightarrow> pump_out \<Rightarrow> pump_out" where
  "logged lo out = out\<lparr>po_lines := po_lines out @ [fst lo], po_ops := po_ops out @ [snd lo]\<rparr>"

fun relay_writes :: "(nat \<Rightarrow> bool) option \<Rightarrow> bytes list \<Rightarrow> pump_out \<Rightarrow> bool \<times> pump_out" where
  "relay_writes None ws out = (True, out)"
| "relay_writes (Some net) [] out = (True, out)"
| "relay_writes (Some net) (w # ws) out =
     (if net (length (po_fwd out)) then relay_writes (Some net) ws (out\<lparr>po_fwd := po_fwd out @ [w]\<rparr>)
      else (False, out))"

text \<open>The endless loop of a pump around one iteration: \<open>Inl\<close> returns, \<open>Inr\<close> goes round.\<close>

type_synonym 's pump_step = "'s \<Rightarrow> ((stream_err \<times> pump_out) + 's) option"

partial_function (option) pump_loop :: "'s pump_step \<Rightarrow> 's \<Rightarrow> (stream_err \<times> pump_out) option" where
  "pump_loop step st =
     (case step st of
        None \<Rightarrow> None
      | Some r \<Rightarrow> (case r of Inl res \<Rightarrow> Some res | Inr st' \<Rightarrow> pump_loop step st'))"

section \<open>Bare lanes\<close>

text \<open>
  \<open>objfmt.Reader\<close>: on the unread stream of a class, the next object and the rest, or an error.
\<close>

type_synonym obj_reader = "obj_class \<Rightarrow> int \<Rightarrow> bytes \<Rightarrow> stream_end \<Rightarrow> stream_err + bytes \<times> bytes"

definition logBareObject :: "objfmt_pkg \<Rightarrow> string \<Rightarrow> obj_class \<Rightarrow> bytes \<Rightarrow> (line \<times> stats_op) option" where
  "logBareObject ob dir cls obj =
     (case cls of
        ClassTx \<Rightarrow>
          let brc = (if obj_IsEF ob obj then ''BRC-30'' else ''BRC-12'');
              idStr = (case obj_TxID ob obj of None \<Rightarrow> ''?'' | Some i \<Rightarrow> shortID i)
          in Some ((dir, brc, ''txn'', idStr, ''size='' @ byteSize (int (length obj))),
                   Op_record dir ''txn'' (int (length obj)) 0 0)
      | ClassSubtree \<Rightarrow> do {
          n \<leftarrow> slice obj 32 40;
          i \<leftarrow> slice obj 0 32;
          Some ((dir, ''BRC-143'', ''subtree'', shortID i, ''nodes='' @ dec (un_be n)),
                Op_record dir ''subtree'' (int (length obj)) (word_of_nat (un_be n)) 0) }
      | ClassBlock \<Rightarrow> do {
          h \<leftarrow> slice obj 0 80;
          n \<leftarrow> slice obj 96 104;
          Some ((dir, ''BRC-144'', ''block'', shortID (sha256d h), ''subtrees='' @ dec (un_be n)),
                Op_record dir ''block'' (int (length obj)) 0 (word_of_nat (un_be n))) })"

definition class_step ::
  "objfmt_pkg \<Rightarrow> obj_reader \<Rightarrow> obj_class \<Rightarrow> string \<Rightarrow> (nat \<Rightarrow> bool) option \<Rightarrow> int \<Rightarrow> stream_end \<Rightarrow>
   (bytes \<times> pump_out) pump_step" where
  "class_step ob rd cls dir fwd maxObject e = (\<lambda>(s, out).
     case rd cls maxObject s e of
       Inl err \<Rightarrow> Some (Inl (err, out))
     | Inr (obj, s') \<Rightarrow>
         (case relay_writes fwd [obj] out of
            (False, out') \<Rightarrow> Some (Inl (E_Relay, out'))
          | (True, out') \<Rightarrow> do {
              lo \<leftarrow> logBareObject ob dir cls obj;
              Some (Inr (s', logged lo out')) }))"

definition nothing :: pump_out where
  "nothing = \<lparr>po_ops = [], po_lines = [], po_fwd = []\<rparr>"

definition pumpClassStream ::
  "objfmt_pkg \<Rightarrow> obj_reader \<Rightarrow> obj_class \<Rightarrow> string \<Rightarrow> (nat \<Rightarrow> bool) option \<Rightarrow> int \<Rightarrow> bytes \<Rightarrow> stream_end \<Rightarrow>
   (stream_err \<times> pump_out) option" where
  "pumpClassStream ob rd cls dir fwd maxObject s e =
     pump_loop (class_step ob rd cls dir fwd maxObject e) (s, nothing)"

section \<open>Framed streams\<close>

definition logFramed :: "objfmt_pkg \<Rightarrow> string \<Rightarrow> byte \<Rightarrow> bytes \<Rightarrow> bytes \<Rightarrow> (line \<times> stats_op) option" where
  "logFramed ob dir ver hdr payload = do {
     let wire = length hdr + length payload;
     i \<leftarrow> slice hdr 8 40;
     (brc, class, bucket, i) \<leftarrow>
       (if ver = 2 then
          Some (if obj_IsEF ob payload then ''BRC-128'' else ''BRC-124'', ''txn'', ''txn'',
                if allZero i then (case obj_TxID ob payload of None \<Rightarrow> i | Some t \<Rightarrow> t) else i)
        else if ver = 3 then Some (''BRC-130'', ''frag'', ''other'', i)
        else if ver = 4 then
          (if 80 \<le> length payload
           then do { h \<leftarrow> slice payload 0 80; Some (''BRC-131'', ''block'', ''block'', sha256d h) }
           else Some (''BRC-131'', ''block'', ''block'', i))
        else if ver = 5 then do { sid \<leftarrow> slice hdr 56 88; Some (''BRC-132'', ''subtree'', ''subtree'', sid) }
        else if ver = 6 then Some (''BRC-134'', ''anchor'', ''other'', i)
        else if ver = 7 then
          Some (''BRC-135'', ''header'', ''other'', if length payload = 80 then sha256d payload else i)
        else if ver = 8 then Some (''BRC-142'', ''bundle'', ''other'', i)
        else if ver = 9 then Some (''BRC-149'', ''beef'', ''other'', i)
        else Some (''BRC-?'', ''ver'' @ hex_encode [ver], ''other'', i));
     Some ((dir, brc, class, shortID i, ''size='' @ byteSize (int (length payload))),
           Op_record dir bucket (int wire) 0 0)
   }"

text \<open>The header of the next frame, read into the buffer \<open>hdr\<close>: its version and length.\<close>

definition framed_header ::
  "frame_pkg \<Rightarrow> stream_end \<Rightarrow> bytes \<Rightarrow> bytes \<Rightarrow> (stream_err + byte \<times> nat \<times> bytes \<times> bytes) option" where
  "framed_header P e hdr s =
     (if length hdr < HeaderSizeV2 P then None
      else case read_full (HeaderSizeV2 P) s e of
        Inl err \<Rightarrow> Some (Inl err)
      | Inr (h, s) \<Rightarrow> do {
          let hdr = h @ drop (HeaderSizeV2 P) hdr;
          m \<leftarrow> slice hdr 0 4;
          if un_be m \<noteq> unat (MagicBSV P) then Some (Inl E_LostSync)
          else do {
            v \<leftarrow> slice hdr 6 7;
            let ver = hd v;
            if ver = 3 then
              (if length hdr < HeaderSizeV3 P \<or> HeaderSizeV3 P < HeaderSizeV2 P then None
               else case read_full (HeaderSizeV3 P - HeaderSizeV2 P) s e of
                 Inl err \<Rightarrow> Some (Inl err)
               | Inr (h3, s) \<Rightarrow>
                   Some (Inr (ver, HeaderSizeV3 P, take (HeaderSizeV2 P) hdr @ h3 @ drop (HeaderSizeV3 P) hdr, s)))
            else if ver = 1 then Some (Inl E_Legacy)
            else Some (Inr (ver, HeaderSizeV2 P, hdr, s)) } })"

definition framed_step ::
  "frame_pkg \<Rightarrow> objfmt_pkg \<Rightarrow> string \<Rightarrow> (nat \<Rightarrow> bool) option \<Rightarrow> int \<Rightarrow> stream_end \<Rightarrow>
   (bytes \<times> bytes \<times> pump_out) pump_step" where
  "framed_step P ob dir fwd maxObject e = (\<lambda>(hdr, s, out). do {
     fh \<leftarrow> framed_header P e hdr s;
     case fh of
       Inl err \<Rightarrow> Some (Inl (err, out))
     | Inr (ver, hdrLen, hdr, s) \<Rightarrow> do {
         l \<leftarrow> slice hdr 88 92;
         let payLen = un_be l;
         if maxObject < int payLen then Some (Inl (E_TooLarge, out))
         else case read_full payLen s e of
           Inl err \<Rightarrow> Some (Inl (err, out))
         | Inr (payload, s) \<Rightarrow> do {
             h \<leftarrow> slice hdr 0 hdrLen;
             case relay_writes fwd [h, payload] out of
               (False, out) \<Rightarrow> Some (Inl (E_Relay, out))
             | (True, out) \<Rightarrow> do {
                 lo \<leftarrow> logFramed ob dir ver h payload;
                 Some (Inr (hdr, s, logged lo out)) } } } })"

definition pumpFramed ::
  "frame_pkg \<Rightarrow> objfmt_pkg \<Rightarrow> string \<Rightarrow> (nat \<Rightarrow> bool) option \<Rightarrow> int \<Rightarrow> bytes \<Rightarrow> stream_end \<Rightarrow>
   (stream_err \<times> pump_out) option" where
  "pumpFramed P ob dir fwd maxObject s e =
     pump_loop (framed_step P ob dir fwd maxObject e) (replicate (HeaderSizeV3 P) 0, s, nothing)"

text \<open>\<open>logStreamEnd\<close>: the ends that count as parse errors.\<close>

definition logStreamEnd :: "stream_err \<Rightarrow> stats_op list" where
  "logStreamEnd err = (if err = E_EOF \<or> err = E_Closed then [] else [Op_parse])"

section \<open>The contract of a pump iteration\<close>

text \<open>
  What an iteration consumes, writes and records. \<open>consumed\<close>: it takes a nonempty part \<open>x\<close> off the stream,
  writes exactly \<open>x\<close> when it relays, and logs one object of that size; \<open>stopped\<close>: it logs nothing and its
  writes are a prefix of the stream.
\<close>

definition records :: "string \<Rightarrow> nat \<Rightarrow> stats_op \<Rightarrow> bool" where
  "records dir n op \<longleftrightarrow> (\<exists>b nd sub. op = Op_record dir b (int n) nd sub)"

text \<open>The line printed for an object, well formed, and what is recorded with it: the bucket is that of the class shown.\<close>

definition line_class :: "line \<Rightarrow> string" where
  "line_class = (\<lambda>(dir, brc, class, i, detail). class)"

definition line_op :: "string \<Rightarrow> line \<Rightarrow> stats_op \<Rightarrow> bool" where
  "line_op dir l op \<longleftrightarrow> line_ok dir l \<and> (\<exists>n nd sub. op = Op_record dir (bucket_of (line_class l)) n nd sub)"

definition consumed :: "string \<Rightarrow> bool \<Rightarrow> bytes \<Rightarrow> pump_out \<Rightarrow> bytes \<Rightarrow> pump_out \<Rightarrow> bool" where
  "consumed dir relaying s out s' out' \<longleftrightarrow>
     (\<exists>x ws lo. s = x @ s' \<and> x \<noteq> [] \<and> concat ws = x \<and> records dir (length x) (snd lo) \<and> line_op dir (fst lo) (snd lo) \<and>
        out' = logged lo (out\<lparr>po_fwd := po_fwd out @ (if relaying then ws else [])\<rparr>))"

definition stopped :: "bool \<Rightarrow> bytes \<Rightarrow> pump_out \<Rightarrow> pump_out \<Rightarrow> bool" where
  "stopped relaying s out out' \<longleftrightarrow>
     (\<exists>ws. out' = out\<lparr>po_fwd := po_fwd out @ ws\<rparr> \<and> prefix (concat ws) s \<and> (relaying \<or> ws = []))"

text \<open>What a whole run has done since it began: \<open>y\<close> are the bytes of the logged objects, \<open>ws\<close> the writes.\<close>

definition pumped :: "string \<Rightarrow> bool \<Rightarrow> bytes \<Rightarrow> pump_out \<Rightarrow> pump_out \<Rightarrow> bool" where
  "pumped dir relaying s out out' \<longleftrightarrow>
     (\<exists>y ws xs lines.
        po_fwd out' = po_fwd out @ ws \<and> po_lines out' = po_lines out @ lines \<and>
        (\<exists>ops. po_ops out' = po_ops out @ ops \<and> list_all2 (records dir) (map length xs) ops \<and>
           list_all2 (line_op dir) lines ops) \<and>
        length lines = length xs \<and> concat xs = y \<and> prefix y s \<and> prefix (concat ws) s \<and>
        (if relaying then prefix y (concat ws) else ws = []))"

locale stream_pump =
  fixes step :: "'s pump_step"
    and unread :: "'s \<Rightarrow> bytes"
    and result :: "'s \<Rightarrow> pump_out"
    and good :: "'s \<Rightarrow> bool"
    and dir :: string
    and relaying :: bool
  assumes step_total: "good st \<Longrightarrow> step st \<noteq> None"
    and step_next: "good st \<Longrightarrow> step st = Some (Inr st') \<Longrightarrow>
      good st' \<and> consumed dir relaying (unread st) (result st) (unread st') (result st')"
    and step_stop: "good st \<Longrightarrow> step st = Some (Inl (err, out')) \<Longrightarrow> stopped relaying (unread st) (result st) out'"
begin

lemma loop_stop: "step st = Some (Inl r) \<Longrightarrow> pump_loop step st = Some r"
  by (subst pump_loop.simps) simp

lemma loop_next: "step st = Some (Inr st') \<Longrightarrow> pump_loop step st = pump_loop step st'"
  by (subst pump_loop.simps) simp

text \<open>Every run ends, without a panic, and its effects add up.\<close>

lemma pumped_stop:
  assumes "stopped relaying s out out'"
  shows "pumped dir relaying s out out'"
proof -
  obtain ws where ws: "out' = out\<lparr>po_fwd := po_fwd out @ ws\<rparr>" "prefix (concat ws) s" "relaying \<or> ws = []"
    using assms by (auto simp: stopped_def)
  show ?thesis unfolding pumped_def
    by (rule exI [of _ "[]"], rule exI [of _ ws], rule exI [of _ "[]"], rule exI [of _ "[]"])
      (use ws in \<open>auto simp: list_all2_Nil\<close>)
qed

lemma pumped_next:
  assumes "consumed dir relaying s out s1 out1" and "pumped dir relaying s1 out1 out'"
  shows "pumped dir relaying s out out'"
proof -
  obtain x vs lo where x: "s = x @ s1" "concat vs = x" "records dir (length x) (snd lo)" "line_op dir (fst lo) (snd lo)"
    "out1 = logged lo (out\<lparr>po_fwd := po_fwd out @ (if relaying then vs else [])\<rparr>)"
    using assms(1) by (auto simp: consumed_def)
  obtain ws xs lines ops where p: "po_fwd out' = po_fwd out1 @ ws" "po_lines out' = po_lines out1 @ lines"
    "po_ops out' = po_ops out1 @ ops" "list_all2 (records dir) (map length xs) ops"
    "length lines = length xs" "prefix (concat xs) s1" "prefix (concat ws) s1"
    "if relaying then prefix (concat xs) (concat ws) else ws = []" "list_all2 (line_op dir) lines ops"
    using assms(2) by (auto simp: pumped_def)
  define vs' where "vs' = (if relaying then vs else [])"
  have fwd: "po_fwd out' = po_fwd out @ (vs' @ ws)" "po_lines out' = po_lines out @ (fst lo # lines)"
    "po_ops out' = po_ops out @ (snd lo # ops)"
    using p(1-3) x(5) by (simp_all add: logged_def vs'_def)
  have "list_all2 (records dir) (map length (x # xs)) (snd lo # ops)" using x(3) p(4) by simp
  moreover have "list_all2 (line_op dir) (fst lo # lines) (snd lo # ops)" using x(4) p(9) by simp
  moreover have "length (fst lo # lines) = length (x # xs)" using p(5) by simp
  moreover have "prefix (concat (x # xs)) s" using x(1) p(6) by simp
  moreover have "prefix (concat (vs' @ ws)) s" using x(1,2) p(7,8) by (auto simp: vs'_def)
  moreover have "if relaying then prefix (concat (x # xs)) (concat (vs' @ ws)) else vs' @ ws = []"
    using p(8) x(2) by (simp add: vs'_def)
  ultimately show ?thesis unfolding pumped_def using fwd by blast
qed

lemma pump_runs:
  assumes "good st"
  shows "\<exists>err out'. pump_loop step st = Some (err, out') \<and> pumped dir relaying (unread st) (result st) out'"
  using assms
proof (induction "length (unread st)" arbitrary: st rule: less_induct)
  case less
  obtain r where r: "step st = Some r" using step_total [OF less.prems] by blast
  show ?case
  proof (cases r)
    case (Inl res)
    obtain err out' where res: "res = (err, out')" by (cases res)
    have "pump_loop step st = Some (err, out')" using r Inl res loop_stop by blast
    moreover have "pumped dir relaying (unread st) (result st) out'"
      using step_stop [OF less.prems] r Inl res by (intro pumped_stop) blast
    ultimately show ?thesis by blast
  next
    case (Inr st')
    have n: "good st'" "consumed dir relaying (unread st) (result st) (unread st') (result st')"
      using step_next [OF less.prems] r Inr by blast+
    then have "length (unread st') < length (unread st)" by (auto simp: consumed_def)
    from less.hyps [OF this n(1)] obtain err out'
      where l: "pump_loop step st' = Some (err, out')" "pumped dir relaying (unread st') (result st') out'" by blast
    have "pump_loop step st = Some (err, out')" using loop_next r Inr l(1) by simp
    with pumped_next [OF n(2) l(2)] show ?thesis by blast
  qed
qed

end

lemma relay_writes_cases:
  assumes "relay_writes fwd ws out = (b, out')"
  shows "if b then out' = out\<lparr>po_fwd := po_fwd out @ (if fwd \<noteq> None then ws else [])\<rparr>
     else fwd \<noteq> None \<and> (\<exists>vs. prefix vs ws \<and> out' = out\<lparr>po_fwd := po_fwd out @ vs\<rparr>)"
  using assms
proof (induction fwd ws out rule: relay_writes.induct)
  case (3 net w ws out)
  show ?case
  proof (cases "net (length (po_fwd out))")
    case True
    let ?out = "out\<lparr>po_fwd := po_fwd out @ [w]\<rparr>"
    have r: "relay_writes (Some net) ws ?out = (b, out')" using "3.prems" True by simp
    show ?thesis
    proof (cases b)
      case True
      then show ?thesis using "3.IH" [OF \<open>net (length (po_fwd out))\<close> r] by simp
    next
      case False
      then obtain vs where vs: "prefix vs ws" "out' = ?out\<lparr>po_fwd := po_fwd ?out @ vs\<rparr>"
        using "3.IH" [OF True r] by auto
      have "prefix (w # vs) (w # ws)" "out' = out\<lparr>po_fwd := po_fwd out @ (w # vs)\<rparr>" using vs by simp_all
      then show ?thesis using False by (simp only: if_False) blast
    qed
  next
    case False
    with "3.prems" show ?thesis by (auto intro!: exI [of _ "[]"])
  qed
qed auto

lemma relay_ok:
  "relay_writes fwd ws out = (True, out') \<Longrightarrow>
   out' = out\<lparr>po_fwd := po_fwd out @ (if fwd \<noteq> None then ws else [])\<rparr>"
  using relay_writes_cases [of fwd ws out True out'] by simp

lemma relay_failed:
  assumes "relay_writes fwd ws out = (False, out')" and "prefix (concat ws) s"
  shows "stopped (fwd \<noteq> None) s out out'"
proof -
  obtain vs where vs: "fwd \<noteq> None" "prefix vs ws" "out' = out\<lparr>po_fwd := po_fwd out @ vs\<rparr>"
    using relay_writes_cases [OF assms(1)] by auto
  have "prefix (concat vs) (concat ws)" using vs(2) by (auto simp: prefix_def)
  from this assms(2) have "prefix (concat vs) s" by (rule prefix_order.trans)
  with vs show ?thesis unfolding stopped_def by blast
qed

lemma stopped_same: "stopped relaying s out out"
  unfolding stopped_def by (rule exI [of _ "[]"]) simp

lemma slice_some: "a \<le> b \<Longrightarrow> b \<le> length bs \<Longrightarrow> slice bs a b = Some (take (b - a) (drop a bs))"
  by (simp add: slice_def)

text \<open>The relay takes every write, or there is none.\<close>

definition relay_up :: "(nat \<Rightarrow> bool) option \<Rightarrow> bool" where
  "relay_up fwd \<longleftrightarrow> fwd = None \<or> fwd = Some (\<lambda>_. True)"

lemma relay_writes_up:
  assumes "relay_up fwd"
  shows "relay_writes fwd ws out = (True, out\<lparr>po_fwd := po_fwd out @ (if fwd \<noteq> None then ws else [])\<rparr>)"
proof (cases fwd)
  case None
  then show ?thesis by simp
next
  case (Some net)
  with assms have net: "fwd = Some (\<lambda>_. True)" by (simp add: relay_up_def)
  show ?thesis unfolding net by (induction ws arbitrary: out) simp_all
qed

section \<open>Both pumps keep the contract\<close>

text \<open>
  Documented of the reader: it splits its stream, so an object is a nonempty prefix of it; a subtree and a block
  are at least as long as their fixed prefix; an object that \<open>Size\<close> delimits and the limit admits is returned
  whole; and a stream that ends between objects ends with its own error.
\<close>

definition reader_doc :: "obj_reader \<Rightarrow> bool" where
  "reader_doc rd \<longleftrightarrow>
     (\<forall>c m s e x r. rd c m s e = Inr (x, r) \<longrightarrow> s = x @ r \<and> x \<noteq> [] \<and>
        (c = ClassSubtree \<longrightarrow> 40 \<le> length x) \<and> (c = ClassBlock \<longrightarrow> 104 \<le> length x)) \<and>
     (\<forall>c m e. rd c m [] e = Inl (end_err e))"

definition reader_size_doc :: "objfmt_pkg \<Rightarrow> obj_reader \<Rightarrow> bool" where
  "reader_size_doc ob rd \<longleftrightarrow>
     (\<forall>c m x r e. x \<noteq> [] \<and> int (length x) \<le> m \<and> obj_Size ob c (x @ r) = Size_ok (length x) \<longrightarrow>
        rd c m (x @ r) e = Inr (x, r))"

lemma logBareObject_records:
  assumes "c = ClassSubtree \<longrightarrow> 40 \<le> length x" and "c = ClassBlock \<longrightarrow> 104 \<le> length x"
  shows "\<exists>lo. logBareObject ob dir c x = Some lo \<and> records dir (length x) (snd lo) \<and> line_op dir (fst lo) (snd lo)"
proof -
  have "token ''?''" by (simp add: token_def)
  then show ?thesis using assms
    by (cases c) (auto simp: logBareObject_def records_def slice_some Let_def line_op_def line_ok_def line_class_def
        bucket_of_def token_shortID token_names byteSize_plain dec_plain split: option.split)
qed

lemma class_step_cases:
  assumes "reader_doc rd"
  shows "(\<exists>err out'. class_step ob rd c dir fwd m e (s, out) = Some (Inl (err, out')) \<and>
            stopped (fwd \<noteq> None) s out out') \<or>
         (\<exists>s' out'. class_step ob rd c dir fwd m e (s, out) = Some (Inr (s', out')) \<and>
            consumed dir (fwd \<noteq> None) s out s' out')"
proof (cases "rd c m s e")
  case (Inl err)
  then have "class_step ob rd c dir fwd m e (s, out) = Some (Inl (err, out))" by (simp add: class_step_def)
  with stopped_same show ?thesis by blast
next
  case (Inr p)
  obtain x s' where p: "p = (x, s')" by (cases p)
  have x: "s = x @ s'" "x \<noteq> []" "c = ClassSubtree \<longrightarrow> 40 \<le> length x" "c = ClassBlock \<longrightarrow> 104 \<le> length x"
    using assms Inr p unfolding reader_doc_def by blast+
  obtain b out1 where w: "relay_writes fwd [x] out = (b, out1)" by (cases "relay_writes fwd [x] out")
  show ?thesis
  proof (cases b)
    case False
    then have "class_step ob rd c dir fwd m e (s, out) = Some (Inl (E_Relay, out1))"
      using Inr p w by (simp add: class_step_def)
    moreover have "stopped (fwd \<noteq> None) s out out1" using w False x(1) by (intro relay_failed [of _ "[x]"]) auto
    ultimately show ?thesis by blast
  next
    case True
    obtain lo where lo: "logBareObject ob dir c x = Some lo" "records dir (length x) (snd lo)" "line_op dir (fst lo) (snd lo)"
      using logBareObject_records [OF x(3,4)] by blast
    have "class_step ob rd c dir fwd m e (s, out) = Some (Inr (s', logged lo out1))"
      using Inr p w True lo by (simp add: class_step_def)
    moreover have "consumed dir (fwd \<noteq> None) s out s' (logged lo out1)"
      unfolding consumed_def
      by (rule exI [of _ x], rule exI [of _ "[x]"], rule exI [of _ lo])
        (use x lo relay_ok w True in auto)
    ultimately show ?thesis by blast
  qed
qed

lemma cases_total:
  assumes "(\<exists>err out'. r = Some (Inl (err, out')) \<and> A out') \<or> (\<exists>s' out'. r = Some (Inr (s', out')) \<and> B s' out')"
  shows "r \<noteq> None" "r = Some (Inl (err, out')) \<Longrightarrow> A out'" "r = Some (Inr (s', out')) \<Longrightarrow> B s' out'"
  using assms by auto

interpretation bare: stream_pump "class_step ob rd c dir fwd m e" fst snd "\<lambda>_. reader_doc rd" dir "fwd \<noteq> None"
  for ob rd c dir fwd m e
proof unfold_locales
  fix st st' :: "bytes \<times> pump_out"
  assume "reader_doc rd"
  note cs = cases_total [OF class_step_cases [OF this, of ob c dir fwd m e "fst st" "snd st"], unfolded prod.collapse]
  show "class_step ob rd c dir fwd m e st \<noteq> None" by (rule cs(1))
  show "reader_doc rd \<and> consumed dir (fwd \<noteq> None) (fst st) (snd st) (fst st') (snd st')"
    if "class_step ob rd c dir fwd m e st = Some (Inr st')"
    using cs(3) [of "fst st'" "snd st'"] that \<open>reader_doc rd\<close> by simp
  show "stopped (fwd \<noteq> None) (fst st) (snd st) out'"
    if "class_step ob rd c dir fwd m e st = Some (Inl (err, out'))" for err out'
    by (rule cs(2) [OF that])
qed

text \<open>Documented of the frame constants: the common header has 92 bytes, and the version-3 header extends it.\<close>

definition header_doc :: "frame_pkg \<Rightarrow> bool" where
  "header_doc P \<longleftrightarrow> HeaderSizeV2 P = 92 \<and> 92 \<le> HeaderSizeV3 P \<and> MagicBSV P = 0xE3E1F3E8"

lemma read_full_split: "read_full n s e = Inr (x, r) \<Longrightarrow> s = x @ r \<and> length x = n"
  by (auto simp: read_full_def split: if_splits)

lemma framed_header_cases:
  assumes P: "header_doc P" and hdr: "length hdr = HeaderSizeV3 P"
  shows "(\<exists>err. framed_header P e hdr s = Some (Inl err)) \<or>
     (\<exists>ver n hdr' s'. framed_header P e hdr s = Some (Inr (ver, n, hdr', s')) \<and>
        s = take n hdr' @ s' \<and> 92 \<le> n \<and> n \<le> length hdr' \<and> length hdr' = HeaderSizeV3 P)"
proof (cases "read_full 92 s e")
  case (Inl err)
  then show ?thesis using P hdr by (auto simp: framed_header_def header_doc_def)
next
  case (Inr p)
  obtain h s1 where p: "p = (h, s1)" by (cases p)
  have h: "s = h @ s1" "length h = 92" using read_full_split Inr p by auto
  let ?hdr = "h @ drop 92 hdr"
  have c: "HeaderSizeV2 P = 92" "92 \<le> HeaderSizeV3 P" using P by (simp_all add: header_doc_def)
  have len: "length ?hdr = HeaderSizeV3 P" using h hdr c by simp
  have eq: "framed_header P e hdr s =
      (if un_be (take 4 h) \<noteq> unat (MagicBSV P) then Some (Inl E_LostSync)
       else if hd (take 1 (drop 6 h)) = 3 then
         (case read_full (HeaderSizeV3 P - 92) s1 e of
            Inl err \<Rightarrow> Some (Inl err)
          | Inr (h3, s2) \<Rightarrow> Some (Inr (3, HeaderSizeV3 P, h @ h3, s2)))
       else if hd (take 1 (drop 6 h)) = 1 then Some (Inl E_Legacy)
       else Some (Inr (hd (take 1 (drop 6 h)), 92, ?hdr, s1)))"
    using Inr p h c len hdr by (auto simp: framed_header_def slice_some Let_def split: sum.split)
  show ?thesis
  proof (cases "read_full (HeaderSizeV3 P - 92) s1 e")
    case (Inl err)
    then show ?thesis unfolding eq using h c len by auto
  next
    case (Inr q)
    obtain h3 s2 where q: "q = (h3, s2)" by (cases q)
    have h3: "s1 = h3 @ s2" "length h3 = HeaderSizeV3 P - 92" using read_full_split Inr q by auto
    then have v3: "s = take (HeaderSizeV3 P) (h @ h3) @ s2" "length (h @ h3) = HeaderSizeV3 P"
      using h c by simp_all
    have v2: "s = take 92 ?hdr @ s1" using h by simp
    show ?thesis
      unfolding eq Inr q using v2 v3 len c by (simp split: if_splits)
  qed
qed

lemma logFramed_records:
  assumes "92 \<le> length hdr"
  shows "\<exists>lo. logFramed ob dir ver hdr p = Some lo \<and> records dir (length hdr + length p) (snd lo) \<and>
     line_op dir (fst lo) (snd lo)"
  using assms by (auto simp: logFramed_def records_def slice_some Let_def line_op_def line_ok_def line_class_def
      bucket_of_def token_shortID token_ver [simplified] token_names byteSize_plain)

lemma framed_step_cases:
  assumes P: "header_doc P" and hdr: "length hdr = HeaderSizeV3 P"
  shows "(\<exists>err out'. framed_step P ob dir fwd m e (hdr, s, out) = Some (Inl (err, out')) \<and>
            stopped (fwd \<noteq> None) s out out') \<or>
         (\<exists>hdr' s' out'. framed_step P ob dir fwd m e (hdr, s, out) = Some (Inr (hdr', s', out')) \<and>
            length hdr' = HeaderSizeV3 P \<and> consumed dir (fwd \<noteq> None) s out s' out')"
  using framed_header_cases [OF P hdr, of e s]
proof (elim disjE exE conjE)
  fix err
  assume "framed_header P e hdr s = Some (Inl err)"
  then have "framed_step P ob dir fwd m e (hdr, s, out) = Some (Inl (err, out))" by (simp add: framed_step_def)
  with stopped_same show ?thesis by blast
next
  fix ver n hdr1 s1
  assume f: "framed_header P e hdr s = Some (Inr (ver, n, hdr1, s1))"
    and s: "s = take n hdr1 @ s1" "92 \<le> n" "n \<le> length hdr1" "length hdr1 = HeaderSizeV3 P"
  define k where "k = un_be (take 4 (drop 88 hdr1))"
  have sl: "slice hdr1 88 92 = Some (take 4 (drop 88 hdr1))" "slice hdr1 0 n = Some (take n hdr1)"
    using s by (simp_all add: slice_some)
  have go: "framed_step P ob dir fwd m e (hdr, s, out) =
      (if m < int k then Some (Inl (E_TooLarge, out))
       else case read_full k s1 e of
         Inl err \<Rightarrow> Some (Inl (err, out))
       | Inr (payload, s2) \<Rightarrow>
           (case relay_writes fwd [take n hdr1, payload] out of
              (False, out) \<Rightarrow> Some (Inl (E_Relay, out))
            | (True, out) \<Rightarrow> do {
                lo \<leftarrow> logFramed ob dir ver (take n hdr1) payload;
                Some (Inr (hdr1, s2, logged lo out)) }))"
    by (cases "read_full k s1 e") (auto simp: framed_step_def f sl k_def [symmetric] Let_def)
  show ?thesis
  proof (cases "m < int k \<or> (\<exists>err. read_full k s1 e = Inl err)")
    case True
    then obtain err where "framed_step P ob dir fwd m e (hdr, s, out) = Some (Inl (err, out))"
      unfolding go by (cases "m < int k") auto
    with stopped_same show ?thesis by blast
  next
    case False
    then obtain payload s2 where r: "read_full k s1 e = Inr (payload, s2)"
      by (cases "read_full k s1 e") auto
    have s1: "s1 = payload @ s2" using read_full_split [OF r] by simp
    obtain b out1 where w: "relay_writes fwd [take n hdr1, payload] out = (b, out1)"
      by (cases "relay_writes fwd [take n hdr1, payload] out")
    show ?thesis
    proof (cases b)
      case False
      then have "framed_step P ob dir fwd m e (hdr, s, out) = Some (Inl (E_Relay, out1))"
        using \<open>\<not> (m < int k \<or> _)\<close> r w by (simp add: go)
      moreover have "stopped (fwd \<noteq> None) s out out1"
        using w False s1 s(1) by (intro relay_failed [of _ "[take n hdr1, payload]"]) auto
      ultimately show ?thesis by blast
    next
      case True
      have "92 \<le> length (take n hdr1)" using s by simp
      then obtain lo where lo: "logFramed ob dir ver (take n hdr1) payload = Some lo"
        "records dir (length (take n hdr1) + length payload) (snd lo)" "line_op dir (fst lo) (snd lo)"
        using logFramed_records by blast
      have "framed_step P ob dir fwd m e (hdr, s, out) = Some (Inr (hdr1, s2, logged lo out1))"
        using \<open>\<not> (m < int k \<or> _)\<close> r w True lo by (simp add: go)
      moreover have "consumed dir (fwd \<noteq> None) s out s2 (logged lo out1)"
        unfolding consumed_def
        by (rule exI [of _ "take n hdr1 @ payload"], rule exI [of _ "[take n hdr1, payload]"], rule exI [of _ lo])
          (use s s1 lo relay_ok w True in auto)
      ultimately show ?thesis using s(4) by blast
    qed
  qed
qed

interpretation framed: stream_pump "framed_step P ob dir fwd m e" "\<lambda>(hdr, s, out). s" "\<lambda>(hdr, s, out). out"
  "\<lambda>(hdr, s, out). header_doc P \<and> length hdr = HeaderSizeV3 P" dir "fwd \<noteq> None"
  for P ob dir fwd m e
proof unfold_locales
  fix st st' :: "bytes \<times> bytes \<times> pump_out"
  assume "case st of (hdr, s, out) \<Rightarrow> header_doc P \<and> length hdr = HeaderSizeV3 P"
  then obtain hdr s out where st: "st = (hdr, s, out)" and good: "header_doc P" "length hdr = HeaderSizeV3 P"
    by (cases st) auto
  note c = framed_step_cases [OF good, of ob dir fwd m e s out]
  show "framed_step P ob dir fwd m e st \<noteq> None" using c st by auto
  show "(case st' of (hdr, s, out) \<Rightarrow> header_doc P \<and> length hdr = HeaderSizeV3 P) \<and>
      consumed dir (fwd \<noteq> None) (case st of (hdr, s, out) \<Rightarrow> s) (case st of (hdr, s, out) \<Rightarrow> out)
        (case st' of (hdr, s, out) \<Rightarrow> s) (case st' of (hdr, s, out) \<Rightarrow> out)"
    if "framed_step P ob dir fwd m e st = Some (Inr st')"
    using c st that good(1) by auto
  show "stopped (fwd \<noteq> None) (case st of (hdr, s, out) \<Rightarrow> s) (case st of (hdr, s, out) \<Rightarrow> out) out'"
    if "framed_step P ob dir fwd m e st = Some (Inl (err, out'))" for err out'
    using c st that by auto
qed

section \<open>Relaying\<close>

text \<open>C16: Both pumps are faithful and their books balance, on any stream whatever. A pump always stops, never
  panics, and when it does there are whole objects \<open>xs\<close>, back to back at the front of the stream, such that
  one line was printed and one statistics record made per object, in the stated direction and with the
  object's exact size, in the bucket of the class the line shows; what was relayed is a prefix of the stream, byte for byte, that covers all of them, and
  a delivery connection is never written to.\<close>

theorem pumps_verbatim:
  assumes "reader_doc rd" and "header_doc P"
    and "r = pumpClassStream ob rd cls dir fwd m s e \<or> r = pumpFramed P ob dir fwd m s e"
  shows "\<exists>err out xs. r = Some (err, out) \<and> prefix (concat xs) s \<and>
     list_all2 (records dir) (map length xs) (po_ops out) \<and> list_all2 (line_op dir) (po_lines out) (po_ops out) \<and>
     length (po_lines out) = length xs \<and>
     prefix (concat (po_fwd out)) s \<and>
     (if fwd \<noteq> None then prefix (concat xs) (concat (po_fwd out)) else po_fwd out = [])"
proof -
  obtain err out where r: "r = Some (err, out)" "pumped dir (fwd \<noteq> None) s nothing out"
    using assms(3)
  proof
    assume "r = pumpClassStream ob rd cls dir fwd m s e"
    with bare.pump_runs [where st = "(s, nothing)" and ob = ob and c = cls and dir = dir and fwd = fwd
        and m = m and e = e, OF assms(1)] that show thesis
      by (auto simp: pumpClassStream_def)
  next
    assume "r = pumpFramed P ob dir fwd m s e"
    with framed.pump_runs [where st = "(replicate (HeaderSizeV3 P) 0, s, nothing)" and P = P and ob = ob
        and dir = dir and fwd = fwd and m = m and e = e] assms(2) that
    show thesis by (auto simp: pumpFramed_def)
  qed
  from r(2) obtain xs where "prefix (concat xs) s" "list_all2 (records dir) (map length xs) (po_ops out)"
    "list_all2 (line_op dir) (po_lines out) (po_ops out)"
    "length (po_lines out) = length xs" "prefix (concat (po_fwd out)) s"
    "if fwd \<noteq> None then prefix (concat xs) (concat (po_fwd out)) else po_fwd out = []"
    unfolding pumped_def nothing_def by auto
  with r(1) show ?thesis by blast
qed

text \<open>
  A reader that satisfies everything documented, for the witnesses: it cuts objects off by the reference sizes.
\<close>

definition ref_reader :: obj_reader where
  "ref_reader c m s e =
     (if s = [] then Inl (end_err e)
      else case obj_Size ref_objfmt c s of
        Size_ok n \<Rightarrow> if n \<le> length s \<and> int n \<le> m then Inr (take n s, drop n s) else Inl E_Object
      | Size_short \<Rightarrow> Inl (if e = End_EOF then E_UnexpectedEOF else end_err e)
      | Size_bad \<Rightarrow> Inl E_Object)"

lemma ref_size_prefix:
  assumes "obj_Size ref_objfmt c s = Size_ok n"
  shows "0 < n \<and> (c = ClassSubtree \<longrightarrow> 40 \<le> n) \<and> (c = ClassBlock \<longrightarrow> 104 \<le> n)"
  using assms
  by (cases c) (auto simp: ref_objfmt_def ref_tx_size_def ref_subtree_size_def ref_block_size_def Let_def
      dest!: walk_tx_less split: option.splits if_splits)

lemma ref_reader_doc: "reader_doc ref_reader"
proof -
  have "s = x @ r \<and> x \<noteq> [] \<and> (c = ClassSubtree \<longrightarrow> 40 \<le> length x) \<and> (c = ClassBlock \<longrightarrow> 104 \<le> length x)"
    if rd: "ref_reader c m s e = Inr (x, r)" for c m s e x r
  proof -
    obtain n where n: "obj_Size ref_objfmt c s = Size_ok n" "n \<le> length s" "x = take n s" "r = drop n s" "s \<noteq> []"
      using rd by (auto simp: ref_reader_def split: size_result.splits if_splits)
    then show ?thesis using ref_size_prefix [OF n(1)] by auto
  qed
  moreover have "ref_reader c m [] e = Inl (end_err e)" for c m e by (simp add: ref_reader_def)
  ultimately show ?thesis unfolding reader_doc_def by blast
qed

lemma ref_reader_size: "reader_size_doc ref_objfmt ref_reader"
  by (simp add: reader_size_doc_def ref_reader_def)

theorem pumps_verbatim_witness:
  "\<exists>err out xs. pumpFramed ref_frame ref_objfmt dirSent (Some (\<lambda>i. i < 1)) 100 (replicate 300 7) End_failed = Some (err, out) \<and>
     prefix (concat xs) (replicate 300 (7 :: byte)) \<and> list_all2 (records dirSent) (map length xs) (po_ops out) \<and>
     prefix (concat (po_fwd out)) (replicate 300 7)"
proof -
  have "header_doc ref_frame" by (simp add: header_doc_def ref_frame_def)
  from pumps_verbatim [OF ref_reader_doc this disjI2 [OF refl],
      of ref_objfmt dirSent "Some (\<lambda>i. i < 1)" 100 "replicate 300 7" End_failed]
  show ?thesis by blast
qed

end
