(* ===== verification/Push.thy ===== *)
theory Push
  imports Objfmt_Ref
begin

text \<open>
  What the two push commands share: \<open>dial\<close> with its backoff and the build, verify, write, wait loop
  of \<open>main\<close>. The environment is a list of outcomes, consumed in order, one per dial attempt, write
  and wait: at a dial \<open>Good\<close> connects, \<open>Bad\<close> fails and the backoff elapses, \<open>Stop\<close> fails with the
  context cancelled; at a write \<open>Good\<close> succeeds; at the wait \<open>Stop\<close> is the cancelled context and
  anything else the tick. A run that outlives the list is \<open>Running\<close>.
\<close>

datatype net_ev = Good | Bad | Stop

datatype dial_res = Connected | Cancelled | Dialing

text \<open>The backoffs waited for, in milliseconds, are collected.\<close>

fun dial_loop :: "nat \<Rightarrow> net_ev list \<Rightarrow> nat list \<Rightarrow> dial_res \<times> nat list \<times> net_ev list" where
  "dial_loop backoff [] waits = (Dialing, waits, [])"
| "dial_loop backoff (Good # es) waits = (Connected, waits, es)"
| "dial_loop backoff (Stop # es) waits = (Cancelled, waits, es)"
| "dial_loop backoff (Bad # es) waits =
     dial_loop (if backoff < 5000 then backoff * 2 else backoff) es (waits @ [backoff])"

definition dial :: "net_ev list \<Rightarrow> dial_res \<times> nat list \<times> net_ev list" where
  "dial es = dial_loop 250 es []"

lemma dial_loop_shorter: "dial_loop b es ws = (r, ws', es') \<Longrightarrow> length es' \<le> length es"
  by (induction b es ws rule: dial_loop.induct) (auto simp: le_SucI)

lemma dial_shorter: "dial es = (r, ws', es') \<Longrightarrow> length es' \<le> length es"
  by (auto simp: dial_def dest: dial_loop_shorter)

text \<open>
  How a run ends, with the objects written: all \<open>count\<close> sent; the context cancelled; a fatal error
  (a failed build or self-check, or a panic); still running.
\<close>

datatype push_end = Counted "bytes list" | Interrupted "bytes list" | Died "bytes list" | Running "bytes list"

primrec delivered :: "push_end \<Rightarrow> bytes list" where
  "delivered (Counted out) = out"
| "delivered (Interrupted out) = out"
| "delivered (Died out) = out"
| "delivered (Running out) = out"

text \<open>
  The loop. \<open>build s\<close> is one verified object, with the state after a failed and after a successful
  write.
\<close>

function push_loop ::
  "('s \<Rightarrow> (bytes \<times> 's \<times> 's) option) \<Rightarrow> int \<Rightarrow> nat \<Rightarrow> bool \<Rightarrow> 's \<Rightarrow> net_ev list \<Rightarrow> bytes list \<Rightarrow> push_end" where
  "push_loop build count sent conn s es out =
     (case build s of
        None \<Rightarrow> Died out
      | Some (obj, s_bad, s_good) \<Rightarrow>
          (case (if conn then (Connected, [], es) else dial es) of
             (Cancelled, _, _) \<Rightarrow> Interrupted out
           | (Dialing, _, _) \<Rightarrow> Running out
           | (Connected, _, es1) \<Rightarrow>
               (case es1 of
                  [] \<Rightarrow> Running out
                | w # es2 \<Rightarrow>
                    if w = Good then
                      if 0 < count \<and> count \<le> int (Suc sent) then Counted (out @ [obj])
                      else (case es2 of
                              [] \<Rightarrow> Running (out @ [obj])
                            | t # es3 \<Rightarrow>
                                if t = Stop then Interrupted (out @ [obj])
                                else push_loop build count (Suc sent) True s_good es3 (out @ [obj]))
                    else push_loop build count sent False s_bad es2 out)))"
  by pat_completeness auto
termination
  by (relation "measure (\<lambda>(build, count, sent, conn, s, es, out). length es)")
    (auto split: if_splits dest: dial_shorter [OF sym])

declare push_loop.simps [simp del]

definition push_main ::
  "('s \<Rightarrow> (bytes \<times> 's \<times> 's) option) \<Rightarrow> int \<Rightarrow> int \<Rightarrow> 's \<Rightarrow> net_ev list \<Rightarrow> push_end" where
  "push_main build interval count s es =
     (case dial es of
        (Dialing, _, _) \<Rightarrow> Running []
      | (r, _, es1) \<Rightarrow>
          if interval \<le> 0 then Died [] else push_loop build count 0 (r = Connected) s es1 [])"

section \<open>The backoff\<close>

fun backoff_after :: "nat \<Rightarrow> nat \<Rightarrow> nat" where
  "backoff_after b 0 = b"
| "backoff_after b (Suc k) = backoff_after (if b < 5000 then b * 2 else b) k"

lemma dial_loop_waits:
  "dial_loop b es ws = (r, ws', es') \<Longrightarrow>
   \<exists>k. ws' = ws @ map (backoff_after b) [0..<k] \<and>
       (k \<le> length es \<and> take k es = replicate k Bad) \<and>
       (r = Connected \<longrightarrow> es = replicate k Bad @ Good # es')"
proof (induction b es ws rule: dial_loop.induct)
  case (4 b es ws)
  let ?b = "if b < 5000 then b * 2 else b"
  from "4.prems" have "dial_loop ?b es (ws @ [b]) = (r, ws', es')" by simp
  from "4.IH" [OF this] obtain k where k: "ws' = (ws @ [b]) @ map (backoff_after ?b) [0..<k]"
    "k \<le> length es" "take k es = replicate k Bad" "r = Connected \<longrightarrow> es = replicate k Bad @ Good # es'"
    by blast
  have "map (backoff_after b) [0..<Suc k] = b # map (backoff_after ?b) [0..<k]"
    by (simp add: map_upt_Suc del: upt_Suc)
  with k show ?case by (intro exI [of _ "Suc k"]) simp
qed auto

lemma backoff_bound: "250 \<le> b \<and> b < 10000 \<Longrightarrow> 250 \<le> backoff_after b k \<and> backoff_after b k < 10000"
  by (induction k arbitrary: b) simp_all

section \<open>The loop\<close>

text \<open>
  What a command supplies: an invariant between its state and the objects written, and that every
  step builds an object, keeping the invariant whether or not the write succeeds.
\<close>

locale push_source =
  fixes build :: "'s \<Rightarrow> (bytes \<times> 's \<times> 's) option"
    and inv :: "'s \<Rightarrow> bytes list \<Rightarrow> bool"
  assumes builds: "inv s out \<Longrightarrow>
      \<exists>obj s1 s2. build s = Some (obj, s1, s2) \<and> inv s1 out \<and> inv s2 (out @ [obj])"
begin

lemma loop_inv:
  "inv s out \<Longrightarrow> \<exists>s'. inv s' (delivered (push_loop build count sent conn s es out)) \<and>
     (\<forall>o'. push_loop build count sent conn s es out \<noteq> Died o')"
proof (induction "length es" arbitrary: sent conn s es out rule: less_induct)
  case less
  obtain obj s1 s2 where b: "build s = Some (obj, s1, s2)" "inv s1 out" "inv s2 (out @ [obj])"
    using builds [OF less.prems] by blast
  note step = push_loop.simps [of build count sent conn s es out]
  let ?d = "if conn then (Connected, [], es) else dial es"
  obtain r ws es1 where d: "?d = (r, ws, es1)" by (cases ?d)
  have len: "length es1 \<le> length es" using d dial_shorter by (auto split: if_splits)
  show ?case
  proof (cases "r = Connected \<and> es1 \<noteq> []")
    case False
    with b d less.prems show ?thesis by (cases r) (auto simp: step)
  next
    case True
    then obtain w es2 where w: "r = Connected" "es1 = w # es2" by (cases es1) auto
    show ?thesis
    proof (cases "w = Good")
      case False
      have "length es2 < length es" using len w by simp
      from less.hyps [OF this b(2), of sent False] show ?thesis
        using False b d w by (simp add: step)
    next
      case good: True
      show ?thesis
      proof (cases "0 < count \<and> count \<le> int (Suc sent)")
        case True
        with b d w good show ?thesis by (auto simp: step)
      next
        case False
        show ?thesis
        proof (cases "\<exists>t es3. es2 = t # es3 \<and> t \<noteq> Stop")
          case no: False
          with b d w good False show ?thesis by (auto simp: step split: list.split)
        next
          case True
          then obtain t es3 where t: "es2 = t # es3" "t \<noteq> Stop" by blast
          have "length es3 < length es" using len w t by simp
          from less.hyps [OF this b(3), of "Suc sent" True] show ?thesis
            using False b d w good t by (auto simp: step)
        qed
      qed
    qed
  qed
qed

text \<open>A run delivers a list the invariant allows and dies only on a non-positive interval.\<close>

lemma main_inv:
  assumes "inv s []"
  shows "\<exists>s'. inv s' (delivered (push_main build interval count s es))"
    and "0 < interval \<Longrightarrow> push_main build interval count s es \<noteq> Died o'"
proof -
  obtain r ws es1 where d: "dial es = (r, ws, es1)" by (cases "dial es")
  note l = loop_inv [OF assms, of count 0 "r = Connected" es1]
  show "\<exists>s'. inv s' (delivered (push_main build interval count s es))"
    using l assms d by (cases r) (auto simp: push_main_def)
  show "0 < interval \<Longrightarrow> push_main build interval count s es \<noteq> Died o'"
    using l d by (cases r) (auto simp: push_main_def)
qed

end

text \<open>The count is exact: a run that ends \<open>Counted\<close> wrote \<open>count\<close> objects, any other fewer.\<close>

fun count_ok :: "int \<Rightarrow> push_end \<Rightarrow> bool" where
  "count_ok count (Counted out) = (0 < count \<and> int (length out) = count)"
| "count_ok count (Interrupted out) = (0 < count \<longrightarrow> int (length out) \<le> count)"
| "count_ok count (Died out) = (0 < count \<longrightarrow> int (length out) < count)"
| "count_ok count (Running out) = (0 < count \<longrightarrow> int (length out) < count)"

lemma loop_count:
  "sent = length out \<Longrightarrow> (0 < count \<longrightarrow> int sent < count) \<Longrightarrow>
   count_ok count (push_loop build count sent conn s es out)"
proof (induction build count sent conn s es out rule: push_loop.induct)
  case (1 build count sent conn s es out)
  note step = push_loop.simps [of build count sent conn s es out]
  show ?case
    unfolding step
    by (use 1 in \<open>auto split!: option.split prod.split dial_res.split list.split\<close>)
qed

lemma main_count: "count_ok count (push_main build interval count s es)"
  unfolding push_main_def
  by (auto simp: loop_count split: prod.split dial_res.split)

text \<open>
  What a write and the time up to the next one bring while the context is alive: \<open>None\<close>, the write is accepted
  and the tick comes; \<open>Some j\<close>, it fails, and the dial succeeds after \<open>j\<close> failed attempts.
\<close>

primrec link_evs :: "nat option \<Rightarrow> net_ev list" where
  "link_evs None = [Good, Good]"
| "link_evs (Some j) = Bad # replicate j Bad @ [Good]"

fun accepted_objs :: "('s \<Rightarrow> (bytes \<times> 's \<times> 's) option) \<Rightarrow> nat option list \<Rightarrow> 's \<Rightarrow> bytes list" where
  "accepted_objs build [] s = []"
| "accepted_objs build (w # ws) s =
     (case build s of
        None \<Rightarrow> []
      | Some (obj, s_bad, s_good) \<Rightarrow>
          if w = None then obj # accepted_objs build ws s_good else accepted_objs build ws s_bad)"

lemma dial_after: "\<exists>ws. dial (replicate j Bad @ Good # es) = (Connected, ws, es)"
proof -
  have "\<exists>ws. dial_loop b (replicate j Bad @ Good # es) w = (Connected, ws, es)" for b w
    by (induction j arbitrary: b w) simp_all
  then show ?thesis by (simp add: dial_def)
qed

lemma loop_redial:
  "push_loop build count sent False s (replicate j Bad @ Good # es) out = push_loop build count sent True s es out"
proof -
  obtain ws where d: "dial (replicate j Bad @ Good # es) = (Connected, ws, es)" using dial_after by blast
  note steps = push_loop.simps [of build count sent False s "replicate j Bad @ Good # es" out]
    push_loop.simps [of build count sent True s es out]
  show ?thesis
  proof (cases "build s")
    case None
    then show ?thesis by (simp add: steps)
  next
    case (Some b)
    then show ?thesis by (cases b) (simp add: steps d)
  qed
qed

text \<open>Whatever writes fail, the accepted ones alone count, and a run with enough of them reaches its count.\<close>

context push_source
begin

lemma loop_weather:
  "inv s out \<Longrightarrow> length out = sent \<Longrightarrow> (0 < count \<longrightarrow> int sent < count) \<Longrightarrow>
   push_loop build count sent True s (concat (map link_evs ws)) out =
     (let got = out @ accepted_objs build ws s in
      if 0 < count \<and> count \<le> int (length got) then Counted (take (nat count) got) else Running got)"
proof (induction ws arbitrary: sent s out)
  case Nil
  obtain obj s1 s2 where "build s = Some (obj, s1, s2)" using builds [OF Nil(1)] by blast
  moreover have "\<not> (0 < count \<and> count \<le> int sent)" using Nil(3) by linarith
  ultimately show ?case using Nil(2) by (simp add: push_loop.simps [of build count sent True s "[]" out] Let_def)
next
  case (Cons w ws)
  obtain obj s1 s2 where b: "build s = Some (obj, s1, s2)" "inv s1 out" "inv s2 (out @ [obj])"
    using builds [OF Cons.prems(1)] by blast
  show ?case
  proof (cases w)
    case None
    note step = push_loop.simps [of build count sent True s "Good # Good # concat (map link_evs ws)" out]
    show ?thesis
    proof (cases "0 < count \<and> count \<le> int (Suc sent)")
      case True
      then have "nat count = Suc sent" using Cons.prems(3) by linarith
      with True b None Cons.prems(2) show ?thesis by (simp add: step Let_def)
    next
      case False
      then have c: "0 < count \<longrightarrow> int (Suc sent) < count" by linarith
      have "length (out @ [obj]) = Suc sent" using Cons.prems(2) by simp
      note ih = Cons.IH [OF b(3) this c]
      have "push_loop build count sent True s (Good # Good # concat (map link_evs ws)) out =
          push_loop build count (Suc sent) True s2 (concat (map link_evs ws)) (out @ [obj])"
        unfolding step using False b(1) by auto
      then show ?thesis using ih b(1) None by (simp add: Let_def)
    qed
  next
    case (Some j)
    let ?es = "replicate j Bad @ Good # concat (map link_evs ws)"
    have "push_loop build count sent True s (Bad # ?es) out = push_loop build count sent False s1 ?es out"
      using b(1) by (simp add: push_loop.simps [of build count sent True s "Bad # ?es" out])
    with Cons.IH [OF b(2) Cons.prems(2,3)] b(1) Some show ?thesis by (simp add: loop_redial)
  qed
qed

lemma main_weather:
  assumes "inv s []" and "0 < interval"
  shows "push_main build interval count s (Good # concat (map link_evs ws)) =
     (let got = accepted_objs build ws s in
      if 0 < count \<and> count \<le> int (length got) then Counted (take (nat count) got) else Running got)"
  using loop_weather [OF assms(1), of 0 count ws] assms(2) by (simp add: push_main_def dial_def)

end

text \<open>With a network that never fails, a run with a positive count reaches it.\<close>

context push_source
begin

lemma loop_reaches:
  "inv s out \<Longrightarrow> 0 < k \<Longrightarrow> int sent + int k = count \<Longrightarrow>
     \<exists>o'. push_loop build count sent True s (replicate (2 * k) Good @ es) out = Counted o'"
proof (induction k arbitrary: sent s out)
  case 0
  then show ?case by simp
next
  case (Suc k)
  obtain obj s1 s2 where b: "build s = Some (obj, s1, s2)" "inv s2 (out @ [obj])"
    using builds [OF Suc.prems(1)] by blast
  have r: "replicate (2 * Suc k) Good @ es = Good # Good # replicate (2 * k) Good @ es" by simp
  note step = push_loop.simps [of build count sent True s "Good # Good # replicate (2 * k) Good @ es" out]
  show ?case
  proof (cases "k = 0")
    case True
    with Suc.prems b show ?thesis unfolding r by (subst push_loop.simps) simp
  next
    case False
    with Suc.IH [of s2 "out @ [obj]" "Suc sent"] Suc.prems b show ?thesis unfolding r by (auto simp: step)
  qed
qed

lemma main_reaches:
  assumes "inv s []" and "0 < count" and "0 < interval"
  shows "\<exists>o'. push_main build interval count s (Good # replicate (2 * nat count) Good) = Counted o'"
  using loop_reaches [OF assms(1), of "nat count" 0 count "[]"] assms(2,3)
  by (simp add: push_main_def dial_def)

end

end
