(* ===== verification/Merkle.thy ===== *)
theory Merkle
  imports Go_Std
begin

text \<open>
  \<open>internal/merkle\<close>: the merkle root of a subtree. \<open>Root\<close> is translated level by level; the
  specification is a recursive tree over a power-of-two number of leaf slots, in which an absent
  slot stays absent, a pair with an absent right side is hashed with its left side twice, and the
  root of a list is the tree of the smallest depth that holds it.
\<close>

section \<open>The code\<close>

text \<open>An all-zero hash stands for an absent node.\<close>

definition zero_hash :: bytes where
  "zero_hash = replicate 32 0"

text \<open>One pair of a level: the index \<open>p\<close> of \<open>next\<close>, read from \<open>level\<close>.\<close>

definition pair_at :: "bytes list \<Rightarrow> nat \<Rightarrow> bytes" where
  "pair_at level p =
     (let left = level ! (2 * p) in
      if left = zero_hash then zero_hash
      else
        let r = 2 * p + 1;
            right = (if r < length level \<and> level ! r \<noteq> zero_hash then level ! r else left)
        in sha256 (sha256 (left @ right)))"

definition next_level :: "bytes list \<Rightarrow> bytes list" where
  "next_level level = map (pair_at level) [0..<(length level + 1) div 2]"

function root_loop :: "bytes list \<Rightarrow> bytes list" where
  "root_loop level = (if 1 < length level then root_loop (next_level level) else level)"
  by pat_completeness auto
termination
  by (relation "measure length") (auto simp: next_level_def)

declare root_loop.simps [simp del]

text \<open>
  \<open>Root\<close> panics (\<open>None\<close>) when a record is out of range or when \<open>n\<close> is zero (\<open>level[0]\<close> of an empty
  level); negative \<open>n\<close> panics in \<open>make\<close>, so \<open>n\<close> is a natural number here.
\<close>

definition Root :: "bytes \<Rightarrow> nat \<Rightarrow> nat \<Rightarrow> bytes option" where
  "Root nodes stride n = do {
     level \<leftarrow> those (map (\<lambda>i. slice nodes (i * stride) (i * stride + 32)) [0..<n]);
     (case root_loop level of [] \<Rightarrow> None | root # _ \<Rightarrow> Some root)
   }"

section \<open>The specification\<close>

definition to_slot :: "bytes \<Rightarrow> bytes option" where
  "to_slot h = (if h = zero_hash then None else Some h)"

definition of_slot :: "bytes option \<Rightarrow> bytes" where
  "of_slot s = (case s of None \<Rightarrow> zero_hash | Some h \<Rightarrow> h)"

text \<open>Combining two slots, \<open>None\<close> being an absent node.\<close>

fun join :: "bytes option \<Rightarrow> bytes option \<Rightarrow> bytes option" where
  "join None _ = None"
| "join (Some l) None = to_slot (sha256d (l @ l))"
| "join (Some l) (Some r) = to_slot (sha256d (l @ r))"

text \<open>The tree of depth \<open>d\<close> over the first \<open>2 ^ d\<close> slots of a list; slots past its end are absent.\<close>

primrec tree :: "nat \<Rightarrow> bytes option list \<Rightarrow> bytes option" where
  "tree 0 hs = (case hs of [] \<Rightarrow> None | h # _ \<Rightarrow> h)"
| "tree (Suc d) hs = join (tree d (take (2 ^ d) hs)) (tree d (drop (2 ^ d) hs))"

text \<open>The depth \<open>Root\<close> uses: the number of halvings (rounded up) from \<open>n\<close> nodes to one.\<close>

fun depth :: "nat \<Rightarrow> nat" where
  "depth n = (if 1 < n then Suc (depth ((n + 1) div 2)) else 0)"

declare depth.simps [simp del]


section \<open>The code computes the tree\<close>

fun pairup :: "bytes option list \<Rightarrow> bytes option list" where
  "pairup [] = []"
| "pairup [x] = [join x None]"
| "pairup (x # y # hs) = join x y # pairup hs"

lemma of_slot_to_slot [simp]: "of_slot (to_slot h) = h"
  by (simp add: of_slot_def to_slot_def)

lemma pair_at_Cons2: "pair_at (a # b # level) (Suc p) = pair_at level p"
  by (simp add: pair_at_def Let_def)

lemma next_level_Cons2:
  "next_level (a # b # level) = pair_at (a # b # level) 0 # next_level level"
proof -
  have "[0..<(length (a # b # level) + 1) div 2] = 0 # map Suc [0..<(length level + 1) div 2]"
    by (simp add: upt_conv_Cons map_Suc_upt del: upt_Suc)
  then show ?thesis by (simp add: next_level_def pair_at_Cons2)
qed

lemma next_level_pairup: "map to_slot (next_level level) = pairup (map to_slot level)"
proof (induction level rule: induct_list012)
  case 1
  then show ?case by (simp add: next_level_def)
next
  case (2 a)
  then show ?case
    by (simp add: next_level_def pair_at_def to_slot_def sha256d_def)
next
  case (3 a b level)
  have "to_slot (pair_at (a # b # level) 0) = join (to_slot a) (to_slot b)"
    by (auto simp: pair_at_def to_slot_def sha256d_def Let_def)
  with 3 show ?case by (simp add: next_level_Cons2)
qed

lemma length_pairup: "length (pairup hs) = (length hs + 1) div 2"
  by (induction hs rule: pairup.induct) simp_all

lemma pairup_take: "pairup (take (2 * m) hs) = take m (pairup hs)"
proof (induction hs arbitrary: m rule: pairup.induct)
  case 1
  then show ?case by simp
next
  case (2 x)
  then show ?case by (cases m) simp_all
next
  case (3 x y hs)
  then show ?case by (cases m) simp_all
qed

lemma pairup_drop: "pairup (drop (2 * m) hs) = drop m (pairup hs)"
proof (induction hs arbitrary: m rule: pairup.induct)
  case 1
  then show ?case by simp
next
  case (2 x)
  then show ?case by (cases m) simp_all
next
  case (3 x y hs)
  then show ?case by (cases m) simp_all
qed

lemma tree_pairup: "tree (Suc d) hs = tree d (pairup hs)"
proof (induction d arbitrary: hs)
  case 0
  then show ?case by (cases hs rule: pairup.cases) simp_all
next
  case (Suc d)
  have "tree (Suc (Suc d)) hs = join (tree (Suc d) (take (2 * 2 ^ d) hs)) (tree (Suc d) (drop (2 * 2 ^ d) hs))"
    by simp
  also have "\<dots> = join (tree d (take (2 ^ d) (pairup hs))) (tree d (drop (2 ^ d) (pairup hs)))"
    by (simp only: Suc.IH pairup_take pairup_drop)
  also have "\<dots> = tree (Suc d) (pairup hs)" by simp
  finally show ?case .
qed

lemma length_next_level [simp]: "length (next_level level) = (length level + 1) div 2"
  by (simp add: next_level_def)

lemma root_loop_tree:
  assumes "level \<noteq> []"
  shows "root_loop level = [of_slot (tree (depth (length level)) (map to_slot level))]"
  using assms
proof (induction level rule: root_loop.induct)
  case (1 level)
  show ?case
  proof (cases "1 < length level")
    case True
    then have "next_level level \<noteq> []" by (auto simp flip: length_0_conv)
    from "1.IH" [OF True this] True show ?thesis
      by (simp add: root_loop.simps [of level] depth.simps [of "length level"]
          tree_pairup next_level_pairup del: tree.simps)
  next
    case False
    with "1.prems" obtain h where "level = [h]"
      by (cases level) auto
    then show ?thesis by (simp add: root_loop.simps depth.simps)
  qed
qed

text \<open>The leaves \<open>Root\<close> reads: the first 32 bytes of every record.\<close>

definition leaves :: "bytes \<Rightarrow> nat \<Rightarrow> nat \<Rightarrow> bytes list" where
  "leaves nodes stride n = map (\<lambda>i. take 32 (drop (i * stride) nodes)) [0..<n]"

lemma those_map_Some: "(\<And>x. x \<in> set xs \<Longrightarrow> f x = Some (g x)) \<Longrightarrow> those (map f xs) = Some (map g xs)"
  by (induction xs) simp_all

lemma those_map_None: "x \<in> set xs \<Longrightarrow> f x = None \<Longrightarrow> those (map f xs) = None"
  by (induction xs) (auto split: option.splits)

lemma Root_tree:
  assumes "n \<noteq> 0" and "(n - 1) * stride + 32 \<le> length nodes"
  shows "Root nodes stride n =
     Some (of_slot (tree (depth n) (map to_slot (leaves nodes stride n))))"
proof -
  have "slice nodes (i * stride) (i * stride + 32) = Some (take 32 (drop (i * stride) nodes))"
    if "i \<in> set [0..<n]" for i
  proof -
    have "i \<le> n - 1" using that by (simp add: less_Suc_eq_le [symmetric])
    then have "i * stride \<le> (n - 1) * stride" by (rule mult_le_mono1)
    then have "i * stride + 32 \<le> length nodes"
      using assms(2) by (rule order_trans [OF add_right_mono])
    then show ?thesis by (simp add: slice_def)
  qed
  then have "those (map (\<lambda>i. slice nodes (i * stride) (i * stride + 32)) [0..<n]) = Some (leaves nodes stride n)"
    unfolding leaves_def by (rule those_map_Some)
  moreover have "leaves nodes stride n \<noteq> []" "length (leaves nodes stride n) = n"
    using assms(1) by (simp_all add: leaves_def)
  ultimately show ?thesis
    using root_loop_tree [of "leaves nodes stride n"] by (simp add: Root_def)
qed

lemma length_of_slot_tree:
  "\<forall>h \<in> set level. length h = 32 \<Longrightarrow> length (of_slot (tree d (map to_slot level))) = 32"
proof (induction d arbitrary: level)
  case 0
  then show ?case
    by (cases level) (auto simp: of_slot_def to_slot_def zero_hash_def)
next
  case (Suc d)
  then show ?case
    by (cases "tree d (map to_slot (take (2 ^ d) level))";
        cases "tree d (map to_slot (drop (2 ^ d) level))")
      (simp_all add: take_map drop_map of_slot_def [of None] zero_hash_def)
qed

lemma depth_covers: "n \<le> 2 ^ depth n"
proof (induction n rule: depth.induct)
  case (1 n)
  then show ?case by (cases "1 < n") (auto simp: depth.simps [of n])
qed

lemma depth_minimal: "n \<le> 2 ^ d \<Longrightarrow> depth n \<le> d"
proof (induction n arbitrary: d rule: depth.induct)
  case (1 n)
  show ?case
  proof (cases "1 < n")
    case True
    with "1.prems" obtain e where e: "d = Suc e" by (cases d) auto
    with "1.prems" have "(n + 1) div 2 \<le> 2 ^ e" by simp
    with "1.IH" [OF True this] True e show ?thesis by (simp add: depth.simps [of n])
  next
    case False
    then show ?thesis by (simp add: depth.simps [of n])
  qed
qed

text \<open>The root of a list of leaf hashes, and \<open>Root\<close> on a concatenation of records.\<close>

definition tree_root :: "bytes list \<Rightarrow> bytes" where
  "tree_root hs = of_slot (tree (depth (length hs)) (map to_slot hs))"

lemma length_tree_root: "\<forall>h \<in> set hs. length h = 32 \<Longrightarrow> length (tree_root hs) = 32"
  by (simp add: tree_root_def length_of_slot_tree)

lemma leaves_concat:
  assumes "\<forall>r \<in> set recs. length r = stride" and "32 \<le> stride"
  shows "leaves (concat recs) stride (length recs) = map (take 32) recs"
  using assms
proof (induction recs)
  case Nil
  then show ?case by (simp add: leaves_def)
next
  case (Cons r rs)
  have "[0..<length (r # rs)] = 0 # map Suc [0..<length rs]"
    by (simp add: upt_conv_Cons map_Suc_upt del: upt_Suc)
  with Cons show ?case by (simp add: leaves_def comp_def del: upt_Suc)
qed

lemma Root_records:
  assumes "recs \<noteq> []" and "32 \<le> stride" and "\<forall>r \<in> set recs. length r = stride"
  shows "Root (concat recs) stride (length recs) = Some (tree_root (map (take 32) recs))"
proof -
  have "length (concat recs) = length recs * stride"
    using assms(3) by (induction recs) simp_all
  then have "(length recs - 1) * stride + 32 \<le> length (concat recs)"
    using assms(1,2) by (cases recs) simp_all
  from Root_tree [OF _ this] show ?thesis
    using assms(1) leaves_concat [OF assms(3,2)] by (simp add: tree_root_def)
qed

section \<open>Properties\<close>

text \<open>C29: \<open>Root\<close> is the merkle tree of its leaves: for every stride and every nonzero number of records
  that lie in the buffer it returns 32 bytes, the root of the tree of the smallest depth that has
  room for all leaves, with absent slots and all-zero hashes combined as the package documents; and
  the level loop always ends.\<close>

theorem Root_is_tree:
  assumes "n \<noteq> 0" and "32 \<le> stride" and "length nodes = n * stride"
  shows "\<exists>root. Root nodes stride n = Some root \<and> length root = 32 \<and>
     root = of_slot (tree (depth n) (map to_slot (leaves nodes stride n))) \<and>
     n \<le> 2 ^ depth n \<and> (\<forall>d. n \<le> 2 ^ d \<longrightarrow> depth n \<le> d)"
proof -
  have "(n - 1) * stride + 32 \<le> length nodes"
    using assms by (cases n) simp_all
  note R = Root_tree [OF assms(1) this]
  have "\<forall>h \<in> set (leaves nodes stride n). length h = 32"
  proof
    fix h assume "h \<in> set (leaves nodes stride n)"
    then obtain i where i: "i < n" "h = take 32 (drop (i * stride) nodes)"
      by (auto simp: leaves_def)
    have "Suc i * stride \<le> n * stride" using i(1) by (simp only: mult_le_mono1 Suc_leI)
    then show "length h = 32" using i(2) assms(2,3) by simp
  qed
  with R show ?thesis
    using length_of_slot_tree depth_covers depth_minimal by auto
qed

theorem Root_is_tree_witness:
  "Root (replicate 96 1) 32 3 =
     Some (of_slot (join (join (Some (replicate 32 1)) (Some (replicate 32 1)))
                         (join (Some (replicate 32 1)) None)))"
proof -
  have u: "[0..<3] = [0, 1, 2 :: nat]" by (simp add: upt_rec)
  have d: "depth 3 = 2" by (simp add: depth.simps)
  have l: "map to_slot (leaves (replicate 96 1) 32 3) = replicate 3 (Some (replicate 32 1))"
    by (simp add: leaves_def u to_slot_def zero_hash_def numeral_3_eq_3)
  have "\<exists>root. Root (replicate 96 1) 32 3 = Some root \<and>
      root = of_slot (tree (depth 3) (map to_slot (leaves (replicate 96 1) 32 3)))"
    using Root_is_tree [of 3 32 "replicate 96 1"] by auto
  then show ?thesis
    unfolding d l by (simp add: numeral_2_eq_2 numeral_3_eq_3)
qed

text \<open>The record tail does not matter: the root of \<open>n\<close> records of any stride is the root of the
  same hashes packed at stride 32, so full-node records (48 bytes) and hashes-only records give the
  same subtree root.\<close>

theorem Root_ignores_tail:
  assumes "recs \<noteq> []" and "32 \<le> stride" and "\<forall>r \<in> set recs. length r = stride"
  shows "Root (concat recs) stride (length recs) = Root (concat (map (take 32) recs)) 32 (length recs)"
proof -
  have "\<forall>r \<in> set (map (take 32) recs). length r = 32" using assms(2,3) by auto
  then have "Root (concat (map (take 32) recs)) 32 (length recs) =
      Some (tree_root (map (take 32) (map (take 32) recs)))"
    using Root_records [of "map (take 32) recs" 32] assms(1) by simp
  then show ?thesis using Root_records [OF assms] by (simp add: comp_def)
qed

theorem Root_ignores_tail_witness:
  "Root (replicate 32 5 @ replicate 16 9) 48 1 = Root (replicate 32 5) 32 1"
  using Root_ignores_tail [of "[replicate 32 5 @ replicate 16 9]" 48] by simp

end
