(* ===== verification/Send_Subtree_Push.thy ===== *)
theory Send_Subtree_Push
  imports Push Merkle
begin

text \<open>
  \<open>cmd/send-subtree-push\<close>: the subtree object builder and the command's run over the shared push
  loop. The generator's state is the only state an object depends on.
\<close>

fun fill_nodes :: "objfmt_pkg \<Rightarrow> bool \<Rightarrow> nat \<Rightarrow> nat \<Rightarrow> chacha8 \<Rightarrow> bytes \<Rightarrow> (bytes \<times> chacha8) option" where
  "fill_nodes ob placeholder 0 i r0 obj = Some (obj, r0)"
| "fill_nodes ob placeholder (Suc m) i r0 obj =
     (let off = SubtreeHeaderSize ob + i * 32 in
      if i = 0 \<and> placeholder then do {
        obj \<leftarrow> put obj off (replicate 32 0xFF);
        fill_nodes ob placeholder m (Suc i) r0 obj }
      else
        let (bs, r1) = fillRand r0 32 in do {
          obj \<leftarrow> put obj off bs;
          fill_nodes ob placeholder m (Suc i) r1 obj })"

definition buildSubtree ::
  "objfmt_pkg \<Rightarrow> chacha8 \<Rightarrow> nat \<Rightarrow> bool \<Rightarrow> (bytes \<times> bytes \<times> chacha8) option" where
  "buildSubtree ob r0 nodes placeholder = do {
     (obj, r1) \<leftarrow> fill_nodes ob placeholder nodes 0 r0 (replicate (SubtreeHeaderSize ob + nodes * 32) 0);
     tail \<leftarrow> slice obj (SubtreeHeaderSize ob) (length obj);
     root \<leftarrow> Root tail 32 nodes;
     obj \<leftarrow> copy_slice obj 0 32 root;
     obj \<leftarrow> put obj 32 (be 8 nodes);
     Some (obj, root, r1)
   }"

definition subtree_step :: "objfmt_pkg \<Rightarrow> nat \<Rightarrow> bool \<Rightarrow> chacha8 \<Rightarrow> (bytes \<times> chacha8 \<times> chacha8) option" where
  "subtree_step ob nodes placeholder r0 = do {
     (obj, root, r1) \<leftarrow> buildSubtree ob r0 nodes placeholder;
     if obj_SubtreeSize ob obj = Size_ok (length obj) then Some (obj, r1, r1) else None
   }"

definition subtree_push_main ::
  "objfmt_pkg \<Rightarrow> int \<Rightarrow> int \<Rightarrow> int \<Rightarrow> bool \<Rightarrow> bytes \<Rightarrow> net_ev list \<Rightarrow> push_end" where
  "subtree_push_main ob interval count nodes placeholder seed es =
     (if nodes < 1 then Died []
      else push_main (subtree_step ob (nat nodes) placeholder) interval count (NewChaCha8 (sha256 seed)) es)"

section \<open>The object in closed form\<close>

definition coinbase_leaf :: bytes where
  "coinbase_leaf = replicate 32 0xFF"

fun node_hashes :: "bool \<Rightarrow> nat \<Rightarrow> nat \<Rightarrow> chacha8 \<Rightarrow> bytes list \<times> chacha8" where
  "node_hashes placeholder 0 i r0 = ([], r0)"
| "node_hashes placeholder (Suc m) i r0 =
     (let (h, r1) = (if i = 0 \<and> placeholder then (coinbase_leaf, r0) else fillRand r0 32);
          (hs, r2) = node_hashes placeholder m (Suc i) r1
      in (h # hs, r2))"

lemma node_hashes_shape:
  "node_hashes placeholder m i r0 = (hs, r) \<Longrightarrow>
   length hs = m \<and> (\<forall>h \<in> set hs. length h = 32) \<and> (i = 0 \<and> placeholder \<and> m \<noteq> 0 \<longrightarrow> hd hs = coinbase_leaf)"
proof (induction placeholder m i r0 arbitrary: hs r rule: node_hashes.induct)
  case (2 placeholder m i r0)
  obtain h r1 where h: "(if i = 0 \<and> placeholder then (coinbase_leaf, r0) else fillRand r0 32) = (h, r1)"
    by (cases "if i = 0 \<and> placeholder then (coinbase_leaf, r0) else fillRand r0 32")
  obtain hs' r2 where hs': "node_hashes placeholder m (Suc i) r1 = (hs', r2)"
    by (cases "node_hashes placeholder m (Suc i) r1")
  have "length h = 32"
    using h length_fillRand [of r0 32]
    by (cases "i = 0 \<and> placeholder") (auto simp: coinbase_leaf_def simp del: length_fillRand)
  moreover have "length hs' = m \<and> (\<forall>h \<in> set hs'. length h = 32)"
    using "2.IH" [OF h [symmetric] refl hs'] by blast
  moreover have "hs = h # hs'" using "2.prems" h hs' by (simp add: Let_def)
  ultimately show ?case using h by auto
qed simp

lemma fill_nodes_zeros:
  assumes "SubtreeHeaderSize ob = 40"
  shows "length xs = 40 + i * 32 \<Longrightarrow>
     fill_nodes ob placeholder m i r0 (xs @ replicate (m * 32) 0) =
       Some (xs @ concat (fst (node_hashes placeholder m i r0)), snd (node_hashes placeholder m i r0))"
proof (induction m arbitrary: i r0 xs)
  case 0
  then show ?case by simp
next
  case (Suc m)
  have put: "put (xs @ replicate (Suc m * 32) 0) (40 + i * 32) h = Some ((xs @ h) @ replicate (m * 32) 0)"
    if "length h = 32" for h
    using that Suc.prems by (simp add: put_def)
  have ih: "fill_nodes ob placeholder m (Suc i) r ((xs @ h) @ replicate (m * 32) 0) =
      Some ((xs @ h) @ concat (fst (node_hashes placeholder m (Suc i) r)), snd (node_hashes placeholder m (Suc i) r))"
    if "length h = 32" for h r
    by (rule Suc.IH) (use that Suc.prems in simp)
  show ?case
  proof (cases "i = 0 \<and> placeholder")
    case True
    then show ?thesis
      using put [of coinbase_leaf] ih [of coinbase_leaf r0]
      by (simp add: assms coinbase_leaf_def Let_def case_prod_beta)
  next
    case False
    obtain h r where h: "fillRand r0 32 = (h, r)" by (cases "fillRand r0 32")
    then have "length h = 32" using length_fillRand [of r0 32] by simp
    then show ?thesis
      using put [of h] ih [of h r] h False by (auto simp add: assms Let_def case_prod_beta del: fill_nodes.simps(1))
  qed
qed

text \<open>A push object: the merkle root of its own leaves, their number, and the leaves.\<close>

definition subtree_obj :: "nat \<Rightarrow> bool \<Rightarrow> bytes \<Rightarrow> bool" where
  "subtree_obj n placeholder obj \<longleftrightarrow>
     (\<exists>hs. length hs = n \<and> (\<forall>h \<in> set hs. length h = 32) \<and> (placeholder \<longrightarrow> hd hs = coinbase_leaf) \<and>
        obj = tree_root hs @ be 8 n @ concat hs)"

lemma buildSubtree_obj:
  assumes "SubtreeHeaderSize ob = 40" and "n \<noteq> 0" and "node_hashes placeholder n 0 r0 = (hs, r1)"
  shows "buildSubtree ob r0 n placeholder = Some (tree_root hs @ be 8 n @ concat hs, tree_root hs, r1)"
proof -
  have hs: "length hs = n" "\<forall>h \<in> set hs. length h = 32" using node_hashes_shape [OF assms(3)] by simp_all
  have fill: "fill_nodes ob placeholder n 0 r0 (replicate (40 + n * 32) 0) = Some (replicate 40 0 @ concat hs, r1)"
    using fill_nodes_zeros [OF assms(1), of "replicate 40 0" 0 placeholder n r0] assms(3)
    by (simp add: replicate_add)
  have root: "Root (concat hs) 32 n = Some (tree_root hs)"
    using Root_records [of hs 32] hs assms(2) by (auto simp: map_idI)
  have z: "replicate 40 0 = replicate 32 0 @ (replicate 8 0 :: bytes)" by (simp flip: replicate_add)
  have c: "copy_slice (replicate 32 0 @ ys) 0 32 h = Some (h @ ys)" if "length h = 32" for h ys :: bytes
    using that by (simp add: copy_slice_def put_def)
  have p: "put (h @ replicate 8 0 @ ys) 32 (be 8 n) = Some (h @ be 8 n @ ys)" if "length h = 32" for h ys
    using that by (simp add: put_def)
  have "slice (replicate 40 0 @ concat hs) 40 (length (replicate 40 (0 :: byte) @ concat hs)) = Some (concat hs)"
    by (simp add: slice_def)
  then show ?thesis
    using length_tree_root [OF hs(2)]
    by (simp add: buildSubtree_def assms(1) fill root z c p)
qed

section \<open>The run\<close>

text \<open>The invariant also carries what the run relies on: the documented sizes and the node count.\<close>

definition subtree_inv :: "objfmt_pkg \<Rightarrow> nat \<Rightarrow> bool \<Rightarrow> chacha8 \<Rightarrow> bytes list \<Rightarrow> bool" where
  "subtree_inv ob n placeholder r out \<longleftrightarrow>
     subtree_doc ob \<and> 0 < n \<and> n < 2 ^ 32 \<and> (\<forall>o' \<in> set out. subtree_obj n placeholder o')"

lemma subtree_step_builds:
  assumes "subtree_doc ob" and "0 < n" "n < 2 ^ 32"
  shows "\<exists>obj r1. subtree_step ob n placeholder r0 = Some (obj, r1, r1) \<and> subtree_obj n placeholder obj"
proof -
  obtain hs r1 where n: "node_hashes placeholder n 0 r0 = (hs, r1)" by (cases "node_hashes placeholder n 0 r0")
  note hs = node_hashes_shape [OF n]
  have h: "SubtreeHeaderSize ob = 40" using assms(1) by (simp add: subtree_doc_def)
  have cl: "length (concat hs) = 32 * n" using hs by (simp add: length_concat sum_list_triv cong: map_cong)
  have "hs \<noteq> []" "length (tree_root hs) = 32" using hs assms(2) length_tree_root by auto
  then have "obj_SubtreeSize ob (tree_root hs @ be 8 n @ concat hs) = Size_ok (40 + 32 * n)"
    using assms(1,3) hs unfolding subtree_doc_def by blast
  then show ?thesis
    using buildSubtree_obj [OF h _ n] assms(2) hs cl \<open>length (tree_root hs) = 32\<close>
    by (auto simp: subtree_step_def subtree_obj_def)
qed

interpretation subtree_push: push_source "subtree_step ob n placeholder" "subtree_inv ob n placeholder"
  for ob n placeholder
proof unfold_locales
  fix r0 out
  assume "subtree_inv ob n placeholder r0 out"
  then show "\<exists>obj s1 s2. subtree_step ob n placeholder r0 = Some (obj, s1, s2) \<and>
      subtree_inv ob n placeholder s1 out \<and> subtree_inv ob n placeholder s2 (out @ [obj])"
    using subtree_step_builds [of ob n placeholder r0] by (auto simp: subtree_inv_def)
qed

text \<open>
  The objects the command builds, by their position: the object of the \<open>k\<close>-th iteration is made of the \<open>k\<close>-th
  \<open>nodes\<close> draws of the generator.
\<close>

primrec kth_draws :: "bool \<Rightarrow> nat \<Rightarrow> nat \<Rightarrow> chacha8 \<Rightarrow> bytes list" where
  "kth_draws placeholder n 0 r0 = fst (node_hashes placeholder n 0 r0)"
| "kth_draws placeholder n (Suc k) r0 = kth_draws placeholder n k (snd (node_hashes placeholder n 0 r0))"

definition kth_object :: "bool \<Rightarrow> nat \<Rightarrow> chacha8 \<Rightarrow> nat \<Rightarrow> bytes" where
  "kth_object placeholder n r0 k = (let hs = kth_draws placeholder n k r0 in tree_root hs @ be 8 n @ concat hs)"

lemma subtree_step_exact:
  assumes "subtree_doc ob" and "0 < n" "n < 2 ^ 32"
  shows "subtree_step ob n placeholder r0 =
     Some (kth_object placeholder n r0 0, snd (node_hashes placeholder n 0 r0), snd (node_hashes placeholder n 0 r0))"
proof -
  obtain hs r1 where n: "node_hashes placeholder n 0 r0 = (hs, r1)" by (cases "node_hashes placeholder n 0 r0")
  have h: "SubtreeHeaderSize ob = 40" using assms(1) by (simp add: subtree_doc_def)
  have b: "buildSubtree ob r0 n placeholder = Some (kth_object placeholder n r0 0, tree_root hs, r1)"
    using buildSubtree_obj [OF h _ n] assms(2) n by (simp add: kth_object_def)
  then show ?thesis using subtree_step_builds [OF assms, of placeholder r0] n
    by (auto simp: subtree_step_def split: if_splits)
qed

lemma accepted_kth:
  assumes "subtree_doc ob" and "0 < n" "n < 2 ^ 32"
  shows "accepted_objs (subtree_step ob n placeholder) ws r0 =
     map (kth_object placeholder n r0) (filter (\<lambda>k. ws ! k = None) [0..<length ws])"
proof (induction ws arbitrary: r0)
  case (Cons w ws)
  have upt: "[0..<length (w # ws)] = 0 # map Suc [0..<length ws]" by (simp add: map_Suc_upt upt_conv_Cons del: upt_Suc)
  have next_object: "kth_object placeholder n r0 (Suc k) = kth_object placeholder n (snd (node_hashes placeholder n 0 r0)) k" for k
    by (simp add: kth_object_def)
  show ?case
    unfolding upt accepted_objs.simps(2) subtree_step_exact [OF assms, of placeholder r0]
    by (simp add: Cons.IH filter_map comp_def next_object)
qed simp

section \<open>Properties\<close>

text \<open>C32: Whatever the network does, everything the command writes is a well-formed subtree object: the
  merkle root of its own leaves, the leaf count, and exactly \<open>nodes\<close> leaves, the first being the
  coinbase placeholder when asked for; the self-check never fires, a run that ends by its count wrote exactly
  \<open>count\<close> objects and any other run no more, and on a network that does not fail the count is reached. A write
  that fails loses its object and nothing else: with any pattern of accepted writes and of failed ones, each followed
  by any number of failed dials before one that succeeds, what is written is exactly the objects of the iterations whose
  write was accepted, the object of iteration \<open>k\<close> being made of the \<open>k\<close>-th \<open>nodes\<close> draws of the generator, up to the
  count, at which the run ends, and otherwise it goes on.\<close>

theorem subtree_push_objects:
  assumes "subtree_doc ob" and "1 \<le> nodes" "nodes < 2 ^ 32" and "0 < interval"
  shows "(\<forall>o' \<in> set (delivered (subtree_push_main ob interval count nodes placeholder seed es)).
        subtree_obj (nat nodes) placeholder o') \<and>
     (\<forall>out. subtree_push_main ob interval count nodes placeholder seed es \<noteq> Died out) \<and>
     count_ok count (subtree_push_main ob interval count nodes placeholder seed es) \<and>
     (0 < count \<longrightarrow> (\<exists>out. subtree_push_main ob interval count nodes placeholder seed
        (Good # replicate (2 * nat count) Good) = Counted out)) \<and>
     (let got = map (kth_object placeholder (nat nodes) (NewChaCha8 (sha256 seed)))
                  (filter (\<lambda>k. ws ! k = None) [0..<length ws])
      in subtree_push_main ob interval count nodes placeholder seed (Good # concat (map link_evs ws)) =
           (if 0 < count \<and> count \<le> int (length got) then Counted (take (nat count) got) else Running got))"
proof -
  let ?r = "NewChaCha8 (sha256 seed)"
  have main: "subtree_push_main ob interval count nodes placeholder seed es =
      push_main (subtree_step ob (nat nodes) placeholder) interval count ?r es" for es
    using assms(2) by (simp add: subtree_push_main_def)
  have n: "0 < nat nodes" "nat nodes < 2 ^ 32" using assms by (simp_all add: nat_less_iff)
  have i: "subtree_inv ob (nat nodes) placeholder ?r []"
    using assms by (simp add: subtree_inv_def nat_less_iff)
  note weather = subtree_push.main_weather [OF i assms(4), of count ws, unfolded accepted_kth [OF assms(1) n]]
  have "(\<forall>o' \<in> set (delivered (push_main (subtree_step ob (nat nodes) placeholder) interval count ?r es)).
        subtree_obj (nat nodes) placeholder o') \<and>
     (\<forall>out. push_main (subtree_step ob (nat nodes) placeholder) interval count ?r es \<noteq> Died out) \<and>
     count_ok count (push_main (subtree_step ob (nat nodes) placeholder) interval count ?r es) \<and>
     (0 < count \<longrightarrow> (\<exists>out. push_main (subtree_step ob (nat nodes) placeholder) interval count ?r
        (Good # replicate (2 * nat count) Good) = Counted out))"
    using subtree_push.main_inv [OF i] subtree_push.main_reaches [OF i] main_count assms(4)
    by (fastforce simp: subtree_inv_def)
  with weather show ?thesis unfolding main Let_def by (elim conjE, intro conjI)
qed

theorem subtree_push_objects_witness:
  "\<exists>a b. subtree_push_main ref_objfmt 1 2 3 True [97] [Good, Good, Good, Good, Good] = Counted [a, b] \<and>
     subtree_obj 3 True a \<and> subtree_obj 3 True b \<and>
     subtree_push_main ref_objfmt 1 0 3 True [97] [Good, Good, Good, Bad, Bad, Good, Good, Good] =
       Running (map (kth_object True 3 (NewChaCha8 (sha256 [97]))) [0, 2])"
proof -
  let ?run = "subtree_push_main ref_objfmt 1 2 3 True [97] (Good # replicate (2 * nat 2) Good)"
  have p: "(\<forall>o' \<in> set (delivered ?run). subtree_obj (nat 3) True o') \<and> count_ok 2 ?run \<and> (\<exists>out. ?run = Counted out)"
    using subtree_push_objects [OF ref_objfmt_subtree, where nodes = 3 and interval = 1 and placeholder = True
      and seed = "[97]" and count = 2 and es = "Good # replicate (2 * nat 2) Good" and ws = "[]"] by simp
  obtain out where out: "?run = Counted out" using p by auto
  have "count_ok 2 ?run" using p by blast
  then have "length out = 2" unfolding out by simp
  then obtain a b where ab: "out = [a, b]" by (auto simp: numeral_2_eq_2 length_Suc_conv)
  have "\<forall>o' \<in> set (delivered ?run). subtree_obj (nat 3) True o'" using p by blast
  then have "subtree_obj 3 True a \<and> subtree_obj 3 True b" unfolding out ab by simp
  moreover have "subtree_push_main ref_objfmt 1 0 3 True [97] [Good, Good, Good, Bad, Bad, Good, Good, Good] =
       Running (map (kth_object True 3 (NewChaCha8 (sha256 [97]))) [0, 2])"
    using subtree_push_objects [OF ref_objfmt_subtree, where nodes = 3 and interval = 1 and placeholder = True
      and seed = "[97]" and count = 0 and es = "[]" and ws = "[None, Some 1, None]"]
    by (simp add: upt_conv_Cons numeral_2_eq_2)
  ultimately show ?thesis using out unfolding ab by (simp add: numeral_eq_Suc)
qed

end
