(* ===== verification/Send_Block_Push.thy ===== *)
theory Send_Block_Push
  imports Push Block_Hdr Frames
begin

text \<open>
  \<open>cmd/send-block-push\<close>: the block object builder and the command's run over the shared push loop.
  The state of a run is the generator of roots and BUMP bytes, the coinbase builder, the number of
  blocks sent and the hash of the last one.
\<close>

definition appendU64 :: "bytes \<Rightarrow> u64 \<Rightarrow> bytes" where
  "appendU64 b v = b @ be 8 (unat v)"

definition block_header ::
  "(bytes \<Rightarrow> bool) \<Rightarrow> bytes \<Rightarrow> u64 \<Rightarrow> bytes \<Rightarrow> (bytes \<times> bytes) option" where
  "block_header chk roots height prevHash = do {
     hdr \<leftarrow> Some (replicate 80 0);
     hdr \<leftarrow> put hdr 0 (le 4 2);
     hdr \<leftarrow> copy_slice hdr 4 36 prevHash;
     hdr \<leftarrow> copy_slice hdr 36 68 (sha256 (sha256 roots));
     hdr \<leftarrow> put hdr 68 (le 4 (unat (ucast (1700000000 + height) :: u32)));
     hdr \<leftarrow> SetBits hdr BitsRegtest;
     Grind chk hdr (ucast height)
   }"

text \<open>
  The object, the block hash and the coinbase identifier, with the two generators after; \<open>None\<close> is
  the fatal exit of a failed coinbase or the panic of a negative BUMP size.
\<close>

definition buildBlock ::
  "objfmt_pkg \<Rightarrow> (bytes \<Rightarrow> bool) \<Rightarrow> chacha8 \<Rightarrow> Builder \<Rightarrow> nat \<Rightarrow> int \<Rightarrow> int \<Rightarrow> u64 \<Rightarrow> bytes \<Rightarrow>
   (bytes \<times> bytes \<times> bytes \<times> chacha8 \<times> Builder) option" where
  "buildBlock ob chk r0 txb subtrees coinbaseSize bumpSize height prevHash =
     (let (roots, r1) = fillRand r0 (subtrees * 32) in do {
        (hdr, blockHash) \<leftarrow> block_header chk roots height prevHash;
        (coinbase, txb1) \<leftarrow> (case Build txb [] coinbaseSize of
           (Inl e, _) \<Rightarrow> None | (Inr t, b) \<Rightarrow> Some (t, b));
        cbTxID \<leftarrow> obj_TxID ob coinbase;
        (bump, r2) \<leftarrow> (if bumpSize < 0 then None
           else if 0 < bumpSize then Some (fillRand r1 (nat bumpSize)) else Some ([], r1));
        let total = BlockPrefixSize ob + length roots + length coinbase + 16 + length bump;
        let obj = hdr;
        let obj = appendU64 obj (word_of_nat subtrees * 1000 + 1);
        let obj = appendU64 obj (word_of_nat total);
        let obj = appendU64 obj (word_of_nat subtrees);
        let obj = obj @ roots;
        let obj = obj @ coinbase;
        let obj = appendU64 obj height;
        let obj = appendU64 obj (word_of_nat (length bump));
        let obj = obj @ bump;
        Some (obj, blockHash, cbTxID, r2, txb1)
      })"

record block_run =
  br_rng :: chacha8
  br_txb :: Builder
  br_sent :: nat
  br_prevHash :: bytes

definition block_step ::
  "objfmt_pkg \<Rightarrow> (bytes \<Rightarrow> bool) \<Rightarrow> nat \<Rightarrow> int \<Rightarrow> int \<Rightarrow> int \<Rightarrow> block_run \<Rightarrow>
   (bytes \<times> block_run \<times> block_run) option" where
  "block_step ob chk subtrees coinbaseSize bumpSize heightStart s = do {
     let height = heightStart + int (br_sent s);
     (obj, blockHash, cbTxID, r1, txb1) \<leftarrow>
        buildBlock ob chk (br_rng s) (br_txb s) subtrees coinbaseSize bumpSize (word_of_int height) (br_prevHash s);
     if obj_BlockSize ob obj = Size_ok (length obj)
     then Some (obj, s\<lparr>br_rng := r1, br_txb := txb1\<rparr>,
                \<lparr>br_rng = r1, br_txb = txb1, br_sent = br_sent s + 1, br_prevHash = blockHash\<rparr>)
     else None
   }"

definition block_push_main ::
  "objfmt_pkg \<Rightarrow> (bytes \<Rightarrow> bool) \<Rightarrow> int \<Rightarrow> int \<Rightarrow> int \<Rightarrow> int \<Rightarrow> int \<Rightarrow> int \<Rightarrow> bytes \<Rightarrow> net_ev list \<Rightarrow> push_end" where
  "block_push_main ob chk interval count subtrees coinbaseSize bumpSize heightStart seed es =
     (if subtrees < 1 then Died []
      else if coinbaseSize < MinRawSize then Died []
      else push_main (block_step ob chk (nat subtrees) coinbaseSize bumpSize heightStart) interval count
             \<lparr>br_rng = NewChaCha8 (sha256 seed),
              br_txb = tx_New (sha256 (seed @ [58, 99, 111, 105, 110, 98, 97, 115, 101])),
              br_sent = 0, br_prevHash = replicate 32 0\<rparr> es)"

section \<open>The object in closed form\<close>

lemma appendU64_nat: "appendU64 b (word_of_nat v) = b @ be 8 v"
  using be_mod [of 8 v] by (simp add: appendU64_def unat_of_nat)

text \<open>
  A block object of \<open>n\<close> subtrees on top of \<open>prev\<close> at \<open>height\<close>: its size field is its own length, the
  header commits to the roots it carries, and the coinbase is one raw transaction.
\<close>

definition block_obj ::
  "(bytes \<Rightarrow> bool) \<Rightarrow> nat \<Rightarrow> int \<Rightarrow> int \<Rightarrow> bytes \<Rightarrow> u64 \<Rightarrow> bytes \<Rightarrow> bool" where
  "block_obj chk n cbSize bumpSize prev height obj \<longleftrightarrow>
     (\<exists>hdr txs roots cb bump.
        obj = block_body hdr txs (length obj) n roots cb (unat height) bump \<and>
        length hdr = 80 \<and> length roots = 32 * n \<and> raw_obj cb \<and> int (length cb) = cbSize \<and>
        int (length bump) = bumpSize \<and>
        take 72 hdr = le 4 2 @ prev @ sha256d roots @ le 4 (unat (ucast (1700000000 + height) :: u32)) \<and>
        mined chk hdr)"

lemma block_header_mined:
  assumes "length prev = 32"
  shows "\<exists>hdr. block_header chk roots height prev = Some (hdr, sha256d hdr) \<and> length hdr = 80 \<and>
     take 72 hdr = le 4 2 @ prev @ sha256d roots @ le 4 (unat (ucast (1700000000 + height) :: u32)) \<and>
     mined chk hdr"
proof -
  let ?t = "le 4 (unat (ucast (1700000000 + height) :: u32))"
  let ?h0 = "le 4 2 @ prev @ sha256d roots @ ?t @ replicate 8 0"
  have fill: "do {
     hdr \<leftarrow> Some (replicate 80 0);
     hdr \<leftarrow> put hdr 0 (le 4 2);
     hdr \<leftarrow> copy_slice hdr 4 36 prev;
     hdr \<leftarrow> copy_slice hdr 36 68 (sha256 (sha256 roots));
     put hdr 68 ?t } = Some ?h0"
    using assms by (simp add: zero_buffer sha256d_def del: append_assoc)
  obtain h hdr where "SetBits ?h0 BitsRegtest = Some h" "Grind chk h (ucast height) = Some (hdr, Hash hdr)"
    "length hdr = 80" "take 72 hdr = take 72 ?h0" "mined chk hdr"
    using SetBits_Grind [of ?h0 chk "ucast height"] assms by auto
  with fill assms show ?thesis
    by (auto simp: block_header_def Hash_def sha256d_def bind_Some_iff)
qed

lemma word_txs: "word_of_nat n * 1000 + 1 = (word_of_nat (n * 1000 + 1) :: u64)"
  by simp

lemma buildBlock_obj:
  assumes "block_doc ob raw_obj" and "txid_doc ob raw_obj" and "60 \<le> cbSize" "cbSize \<le> 60 + (0xFFFFFFFF + 6)"
    and "0 \<le> bumpSize" and "length prev = 32"
  shows "\<exists>obj cbid r1 txb1. buildBlock ob chk r0 txb n cbSize bumpSize height prev =
      Some (obj, sha256d (take 80 obj), cbid, r1, txb1) \<and> block_obj chk n cbSize bumpSize prev height obj"
proof -
  obtain roots r1 where r: "fillRand r0 (n * 32) = (roots, r1)" "length roots = n * 32"
    using length_fillRand [of r0 "n * 32"] by (cases "fillRand r0 (n * 32)") auto
  obtain hdr where h: "block_header chk roots height prev = Some (hdr, sha256d hdr)" "length hdr = 80"
    "take 72 hdr = le 4 2 @ prev @ sha256d roots @ le 4 (unat (ucast (1700000000 + height) :: u32))"
    "mined chk hdr"
    using block_header_mined [OF assms(6)] by blast
  obtain t txb1 where t: "Build txb [] cbSize = (Inr t, txb1)"
    using Build_total [OF assms(3,4)] by blast
  have raw: "raw_obj t" "int (length t) = cbSize" using Build_ok [OF t] by simp_all
  obtain cbid where id: "obj_TxID ob t = Some cbid"
    using assms(2) raw(1) by (auto simp: txid_doc_def)
  obtain bump r2 where b: "(if 0 < bumpSize then Some (fillRand r1 (nat bumpSize)) else Some ([], r1)) = Some (bump, r2)"
    "length bump = nat bumpSize"
    using length_fillRand [of r1 "nat bumpSize"] by (cases "fillRand r1 (nat bumpSize)"; cases "0 < bumpSize") auto
  let ?total = "104 + length roots + length t + 16 + length bump"
  let ?obj = "block_body hdr (n * 1000 + 1) ?total n roots t (unat height) bump"
  have pre: "BlockPrefixSize ob = 104" using assms(1) by (simp add: block_doc_def)
  have len: "length ?obj = ?total" using h(2) by (simp add: block_body_def)
  have "buildBlock ob chk r0 txb n cbSize bumpSize height prev = Some (?obj, sha256d hdr, cbid, r2, txb1)"
    using assms(5) r(1) h(1) t id b(1)
    by (simp add: buildBlock_def Let_def pre word_txs appendU64_nat block_body_def appendU64_def [of _ height]
        del: of_nat_add of_nat_mult of_nat_Suc)
  moreover have "take 80 ?obj = hdr" using h(2) by (simp add: block_body_def)
  moreover have "block_obj chk n cbSize bumpSize prev height ?obj"
    unfolding block_obj_def len
    using h(2-4) r(2) raw b(2) assms(5)
    by (intro exI [of _ hdr] exI [of _ "n * 1000 + 1"] exI [of _ roots] exI [of _ t] exI [of _ bump]) simp
  ultimately show ?thesis by metis
qed

section \<open>The run\<close>

text \<open>The blocks of a run link up: each header commits to the hash of the one before it.\<close>

fun chained :: "(bytes \<Rightarrow> bool) \<Rightarrow> nat \<Rightarrow> int \<Rightarrow> int \<Rightarrow> bytes \<Rightarrow> int \<Rightarrow> bytes list \<Rightarrow> bool" where
  "chained chk n cb bump prev height [] = True"
| "chained chk n cb bump prev height (obj # objs) =
     (block_obj chk n cb bump prev (word_of_int height) obj \<and>
      chained chk n cb bump (sha256d (take 80 obj)) (height + 1) objs)"

definition tip :: "bytes list \<Rightarrow> bytes" where
  "tip objs = (if objs = [] then replicate 32 0 else sha256d (take 80 (last objs)))"

lemma chained_append:
  "chained chk n cb bump prev height (objs @ [obj]) \<longleftrightarrow>
     chained chk n cb bump prev height objs \<and>
     block_obj chk n cb bump (if objs = [] then prev else tip objs) (word_of_int (height + int (length objs))) obj"
proof (induction objs arbitrary: prev height)
  case Nil
  then show ?case by simp
next
  case (Cons a objs)
  show ?case by (cases "objs = []") (simp_all add: Cons.IH tip_def algebra_simps)
qed

definition block_inv ::
  "objfmt_pkg \<Rightarrow> (bytes \<Rightarrow> bool) \<Rightarrow> nat \<Rightarrow> int \<Rightarrow> int \<Rightarrow> int \<Rightarrow> block_run \<Rightarrow> bytes list \<Rightarrow> bool" where
  "block_inv ob chk n cb bump start s out \<longleftrightarrow>
     block_doc ob raw_obj \<and> txid_doc ob raw_obj \<and> 0 < n \<and> n < 2 ^ 32 \<and>
     60 \<le> cb \<and> cb \<le> 60 + (0xFFFFFFFF + 6) \<and> 0 \<le> bump \<and> bump < 2 ^ 32 \<and>
     br_sent s = length out \<and> br_prevHash s = tip out \<and>
     chained chk n cb bump (replicate 32 0) start out"

lemma length_tip: "length (tip out) = 32"
  by (simp add: tip_def)

lemma tip_start: "(if out = [] then replicate 32 0 else tip out) = tip out"
  by (simp add: tip_def)

lemma tip_snoc: "tip (out @ [obj]) = sha256d (take 80 obj)"
  by (simp add: tip_def)

interpretation block_push: push_source "block_step ob chk n cb bump start" "block_inv ob chk n cb bump start"
  for ob chk n cb bump start
proof unfold_locales
  fix s out
  assume inv: "block_inv ob chk n cb bump start s out"
  let ?h = "word_of_int (start + int (length out)) :: u64"
  have d: "block_doc ob raw_obj" "txid_doc ob raw_obj" "60 \<le> cb" "cb \<le> 60 + (0xFFFFFFFF + 6)" "0 \<le> bump"
    using inv by (simp_all add: block_inv_def)
  obtain obj cbid r1 txb1 where b: "buildBlock ob chk (br_rng s) (br_txb s) n cb bump ?h (tip out) =
      Some (obj, sha256d (take 80 obj), cbid, r1, txb1)"
    "block_obj chk n cb bump (tip out) ?h obj"
    using buildBlock_obj [OF d length_tip] by blast
  have "obj_BlockSize ob obj = Size_ok (length obj)"
  proof -
    obtain hdr txs roots c bp where o: "obj = block_body hdr txs (length obj) n roots c (unat ?h) bp"
      "length hdr = 80" "length roots = 32 * n" "raw_obj c" "int (length bp) = bump"
      using b(2) by (auto simp: block_obj_def simp del: of_int_add)
    have "obj_BlockSize ob (block_body hdr txs (length obj) n roots c (unat ?h) bp) =
        Size_ok (length (block_body hdr txs (length obj) n roots c (unat ?h) bp))"
      using inv o(2-5) unfolding block_inv_def block_doc_def by auto
    with o(1) show ?thesis by simp
  qed
  then show "\<exists>obj s1 s2. block_step ob chk n cb bump start s = Some (obj, s1, s2) \<and>
      block_inv ob chk n cb bump start s1 out \<and> block_inv ob chk n cb bump start s2 (out @ [obj])"
    using inv b by (simp add: block_step_def block_inv_def Let_def chained_append tip_start tip_snoc del: of_int_add)
qed

section \<open>Properties\<close>

text \<open>C31: Whatever the network does, the blocks the command writes form a chain: the first header has
  a zero previous hash, every later one the hash of the block written before it, heights count up
  from the start, so a failed write repeats its height; each object has the documented layout with
  a size field equal to its length, a header that commits to the roots it carries, claims the
  regtest difficulty and passes the proof-of-work check whenever a nonce does, and one raw
  transaction as coinbase. The self-check never fires and the count is exact.\<close>

theorem block_push_chain:
  assumes "block_doc ob raw_obj" and "txid_doc ob raw_obj" and "1 \<le> n" "n < 2 ^ 32"
    and "60 \<le> cb" "cb \<le> 60 + (0xFFFFFFFF + 6)" and "0 \<le> bump" "bump < 2 ^ 32" and "0 < interval"
  shows "chained chk (nat n) cb bump (replicate 32 0) start
        (delivered (block_push_main ob chk interval count n cb bump start seed es)) \<and>
     (\<forall>out. block_push_main ob chk interval count n cb bump start seed es \<noteq> Died out) \<and>
     count_ok count (block_push_main ob chk interval count n cb bump start seed es) \<and>
     (0 < count \<longrightarrow> (\<exists>out. block_push_main ob chk interval count n cb bump start seed
        (Good # replicate (2 * nat count) Good) = Counted out))"
proof -
  let ?s = "\<lparr>br_rng = NewChaCha8 (sha256 seed),
    br_txb = tx_New (sha256 (seed @ [58, 99, 111, 105, 110, 98, 97, 115, 101])),
    br_sent = 0, br_prevHash = replicate 32 0\<rparr>"
  have main: "block_push_main ob chk interval count n cb bump start seed es =
      push_main (block_step ob chk (nat n) cb bump start) interval count ?s es" for es
    using assms(3,5) by (simp add: block_push_main_def MinRawSize_def)
  have i: "block_inv ob chk (nat n) cb bump start ?s []"
    using assms by (simp add: block_inv_def tip_def nat_less_iff)
  show ?thesis
    unfolding main
    using block_push.main_inv [OF i] block_push.main_reaches [OF i] main_count assms(9)
    by (fastforce simp: block_inv_def)
qed

theorem block_push_chain_witness:
  "\<exists>a b. block_push_main ref_objfmt (\<lambda>h. True) 1 2 4 200 0 800000 [97] [Good, Good, Good, Good, Good] = Counted [a, b] \<and>
     block_obj (\<lambda>h. True) 4 200 0 (sha256d (take 80 a)) 800001 b"
proof -
  let ?run = "block_push_main ref_objfmt (\<lambda>h. True) 1 2 4 200 0 800000 [97] (Good # replicate (2 * nat 2) Good)"
  note p = block_push_chain [OF ref_objfmt_block ref_objfmt_txid, where n = 4 and cb = 200 and bump = 0
    and interval = 1 and chk = "\<lambda>h. True" and start = 800000 and count = 2 and seed = "[97]"
    and es = "Good # replicate (2 * nat 2) Good"]
  obtain out where out: "?run = Counted out" using p by auto
  have "count_ok 2 ?run" using p by simp
  then have "length out = 2" unfolding out by simp
  then obtain a b where ab: "out = [a, b]" by (auto simp: numeral_2_eq_2 length_Suc_conv)
  have "chained (\<lambda>h. True) (nat 4) 200 0 (replicate 32 0) 800000 (delivered ?run)" using p by simp
  then have "block_obj (\<lambda>h. True) 4 200 0 (sha256d (take 80 a)) 800001 b" unfolding out ab by simp
  with out show ?thesis unfolding ab by (simp add: numeral_eq_Suc)
qed

end
