(* ===== verification/Sink_Lanes.thy ===== *)
theory Sink_Lanes
  imports Sink_Pump Send_Subtree_Push Send_Block_Push
begin

text \<open>
  The bare lanes and the sink together: what \<open>tunnel-sink\<close> logs, counts and relays of the transactions,
  subtrees and blocks that the builders and the push commands of this repository produce.
\<close>

section \<open>Lane objects\<close>

inductive lane_member :: "obj_class \<Rightarrow> bytes \<Rightarrow> bool" where
  tx: "tx_obj x \<Longrightarrow> lane_member ClassTx x"
| subtree: "subtree_obj n placeholder x \<Longrightarrow> 0 < n \<Longrightarrow> n < 2 ^ 32 \<Longrightarrow> lane_member ClassSubtree x"
| block: "block_obj chk n cb bump prev height x \<Longrightarrow> length prev = 32 \<Longrightarrow> 0 < n \<Longrightarrow> n < 2 ^ 32 \<Longrightarrow> bump < 2 ^ 32 \<Longrightarrow>
    lane_member ClassBlock x"

inductive_cases subtree_memberE: "lane_member ClassSubtree x"
inductive_cases block_memberE: "lane_member ClassBlock x"
inductive_cases tx_memberE: "lane_member ClassTx x"

text \<open>Documented of \<open>objfmt.Size\<close>: objects are self-delimiting, whatever follows them on the lane.\<close>

definition lane_doc :: "objfmt_pkg \<Rightarrow> bool" where
  "lane_doc ob \<longleftrightarrow> (\<forall>c x r. lane_member c x \<longrightarrow> obj_Size ob c (x @ r) = Size_ok (length x))"

lemma subtree_obj_parts:
  assumes "subtree_obj n placeholder x" and "n < 2 ^ 32"
  shows "\<exists>root leaves. x = root @ be 8 n @ leaves \<and> length root = 32 \<and> length leaves = 32 * n"
    and "length x = 40 + 32 * n" and "un_be (take 8 (drop 32 x)) = n"
proof -
  obtain hs where hs: "length hs = n" "\<forall>h \<in> set hs. length h = 32" "x = tree_root hs @ be 8 n @ concat hs"
    using assms(1) by (auto simp: subtree_obj_def)
  have l: "length (tree_root hs) = 32" "length (concat hs) = 32 * n"
    using length_tree_root hs length_concat_32 [OF hs(2)] by simp_all
  then show "\<exists>root leaves. x = root @ be 8 n @ leaves \<and> length root = 32 \<and> length leaves = 32 * n"
    using hs(3) by blast
  show "length x = 40 + 32 * n" using hs(3) l by simp
  show "un_be (take 8 (drop 32 x)) = n" using hs(3) l assms(2) by (simp add: un_be_be)
qed

lemma block_obj_parts:
  assumes "block_obj chk n cb bump prev height x" and "n < 2 ^ 32"
  shows "\<exists>hdr txs roots t bp. x = block_body hdr txs (length x) n roots t (unat height) bp \<and>
      length hdr = 80 \<and> length roots = 32 * n \<and> raw_obj t \<and> int (length bp) = bump"
    and "104 \<le> length x" and "un_be (take 8 (drop 96 x)) = n"
proof -
  obtain hdr txs roots t bp where o: "x = block_body hdr txs (length x) n roots t (unat height) bp"
    "length hdr = 80" "length roots = 32 * n" "raw_obj t" "int (length bp) = bump"
    using assms(1) by (auto simp: block_obj_def)
  then show "\<exists>hdr txs roots t bp. x = block_body hdr txs (length x) n roots t (unat height) bp \<and>
      length hdr = 80 \<and> length roots = 32 * n \<and> raw_obj t \<and> int (length bp) = bump" by blast
  define k where "k = length x"
  have x: "x = hdr @ be 8 txs @ be 8 k @ be 8 n @ roots @ t @ be 8 (unat height) @ be 8 (length bp) @ bp"
    using o(1) unfolding block_body_def k_def .
  show "104 \<le> length x" unfolding x using o(2) by simp
  show "un_be (take 8 (drop 96 x)) = n" unfolding x using o(2) assms(2) by (simp add: un_be_be)
qed

lemma lane_member_bounds:
  assumes "lane_member c x"
  shows "x \<noteq> [] \<and> (c = ClassSubtree \<longrightarrow> 40 \<le> length x) \<and> (c = ClassBlock \<longrightarrow> 104 \<le> length x)"
  using assms
proof cases
  case tx
  then show ?thesis using tx_obj_nonempty by auto
next
  case (subtree n placeholder)
  then have "length x = 40 + 32 * n" using subtree_obj_parts(2) by blast
  then show ?thesis using subtree(1) by auto
next
  case (block chk n cb bump prev height)
  then have "104 \<le> length x" using block_obj_parts(2) by blast
  then show ?thesis using block(1) by auto
qed

section \<open>The pump on a lane\<close>

text \<open>The log entry of an object, by the class of its lane.\<close>

definition bare_log :: "objfmt_pkg \<Rightarrow> string \<Rightarrow> obj_class \<Rightarrow> bytes \<Rightarrow> line \<times> stats_op" where
  "bare_log ob dir c x =
     (case c of
        ClassTx \<Rightarrow>
          ((dir, if obj_IsEF ob x then ''BRC-30'' else ''BRC-12'', ''txn'',
            case obj_TxID ob x of None \<Rightarrow> ''?'' | Some i \<Rightarrow> shortID i, ''size='' @ byteSize (int (length x))),
           Op_record dir ''txn'' (int (length x)) 0 0)
      | ClassSubtree \<Rightarrow>
          let n = un_be (take 8 (drop 32 x)) in
          ((dir, ''BRC-143'', ''subtree'', shortID (take 32 x), ''nodes='' @ dec n),
           Op_record dir ''subtree'' (int (length x)) (word_of_nat n) 0)
      | ClassBlock \<Rightarrow>
          let n = un_be (take 8 (drop 96 x)) in
          ((dir, ''BRC-144'', ''block'', shortID (sha256d (take 80 x)), ''subtrees='' @ dec n),
           Op_record dir ''block'' (int (length x)) 0 (word_of_nat n)))"

lemma logBareObject_bare_log:
  assumes "lane_member c x"
  shows "logBareObject ob dir c x = Some (bare_log ob dir c x)"
  using lane_member_bounds [OF assms]
  by (cases c) (simp_all add: logBareObject_def bare_log_def slice_some Let_def)

definition after_objs ::
  "objfmt_pkg \<Rightarrow> string \<Rightarrow> obj_class \<Rightarrow> bool \<Rightarrow> bytes list \<Rightarrow> pump_out \<Rightarrow> pump_out" where
  "after_objs ob dir c relaying xs out =
     \<lparr>po_ops = po_ops out @ map (snd \<circ> bare_log ob dir c) xs,
      po_lines = po_lines out @ map (fst \<circ> bare_log ob dir c) xs,
      po_fwd = po_fwd out @ (if relaying then xs else [])\<rparr>"

lemma class_loop_objs:
  assumes ob: "lane_doc ob" "reader_doc rd" "reader_size_doc ob rd" and up: "relay_up fwd"
    and "list_all (\<lambda>x. lane_member c x \<and> int (length x) \<le> m) xs"
  shows "pump_loop (class_step ob rd c dir fwd m End_EOF) (concat xs, out) =
     Some (E_EOF, after_objs ob dir c (fwd \<noteq> None) xs out)"
  using assms(5)
proof (induction xs arbitrary: out)
  case Nil
  have "class_step ob rd c dir fwd m End_EOF ([], out) = Some (Inl (E_EOF, out))"
    using ob(2) by (simp add: class_step_def reader_doc_def end_err_def)
  from bare.loop_stop [OF this] show ?case by (simp add: after_objs_def)
next
  case (Cons x xs)
  then have x: "lane_member c x" "int (length x) \<le> m" by simp_all
  have "obj_Size ob c (x @ concat xs) = Size_ok (length x)" using ob(1) x(1) by (simp add: lane_doc_def)
  then have "rd c m (x @ concat xs) End_EOF = Inr (x, concat xs)"
    using ob(3) x(2) lane_member_bounds [OF x(1)] by (simp add: reader_size_doc_def)
  then have "class_step ob rd c dir fwd m End_EOF (concat (x # xs), out) =
      Some (Inr (concat xs, after_objs ob dir c (fwd \<noteq> None) [x] out))"
    using relay_writes_up [OF up, of "[x]" out] logBareObject_bare_log [OF x(1), of ob dir]
    by (simp add: class_step_def logged_def after_objs_def)
  from bare.loop_next [OF this] Cons show ?case by (simp add: after_objs_def)
qed

text \<open>The lanes this repository produces: built transactions, and what the push commands delivered.\<close>

inductive lane_run :: "objfmt_pkg \<Rightarrow> obj_class \<Rightarrow> bytes list \<Rightarrow> bool" where
  txs: "\<forall>t \<in> set ts. \<exists>b dst n b'. Build b dst n = (Inr t, b') \<or> BuildEF b dst n = (Inr t, b') \<Longrightarrow>
    lane_run ob ClassTx ts"
| subtrees: "subtree_doc ob \<Longrightarrow> 1 \<le> nd \<Longrightarrow> nd < 2 ^ 32 \<Longrightarrow>
    lane_run ob ClassSubtree (delivered (subtree_push_main ob interval cnt nd placeholder seed es))"
| blocks: "block_doc ob raw_obj \<Longrightarrow> txid_doc ob raw_obj \<Longrightarrow> 1 \<le> n \<Longrightarrow> n < 2 ^ 32 \<Longrightarrow> 60 \<le> cb \<Longrightarrow>
    cb \<le> 60 + (0xFFFFFFFF + 6) \<Longrightarrow> 0 \<le> bump \<Longrightarrow> bump < 2 ^ 32 \<Longrightarrow>
    lane_run ob ClassBlock (delivered (block_push_main ob chk interval cnt n cb bump start seed es))"

lemma chained_members:
  assumes "chained chk n cb bump prev height xs" and "length prev = 32" and "0 < n" "n < 2 ^ 32" "bump < 2 ^ 32"
  shows "\<forall>x \<in> set xs. lane_member ClassBlock x"
  using assms
proof (induction xs arbitrary: prev height)
  case Nil
  then show ?case by simp
next
  case (Cons x xs)
  then have "lane_member ClassBlock x" by (auto intro: lane_member.block)
  moreover have "\<forall>x \<in> set xs. lane_member ClassBlock x"
    using Cons.prems by (intro Cons.IH [of "sha256d (take 80 x)" "height + 1"]) simp_all
  ultimately show ?case by simp
qed

lemma lane_run_members:
  assumes "lane_run ob c xs"
  shows "\<forall>x \<in> set xs. lane_member c x"
  using assms
proof cases
  case txs
  then show ?thesis by (metis Build_ok BuildEF_ok tx_obj_def lane_member.tx)
next
  case (subtrees nd interval cnt placeholder seed es)
  have "subtree_inv ob (nat nd) placeholder (NewChaCha8 (sha256 seed)) []"
    using subtrees by (simp add: subtree_inv_def nat_less_iff)
  from subtree_push.main_inv(1) [OF this, of interval cnt es] subtrees show ?thesis
    by (auto simp: subtree_push_main_def subtree_inv_def intro: lane_member.subtree)
next
  case (blocks n cb bump chk interval cnt start seed es)
  let ?s = "\<lparr>br_rng = NewChaCha8 (sha256 seed),
    br_txb = tx_New (sha256 (seed @ [58, 99, 111, 105, 110, 98, 97, 115, 101])),
    br_sent = 0, br_prevHash = replicate 32 0\<rparr>"
  have "block_inv ob chk (nat n) cb bump start ?s []"
    using blocks by (simp add: block_inv_def tip_def nat_less_iff)
  from block_push.main_inv(1) [OF this, of interval cnt es] blocks
  have "chained chk (nat n) cb bump (replicate 32 0) start xs"
    by (auto simp: block_push_main_def block_inv_def MinRawSize_def)
  from chained_members [OF this] blocks show ?thesis by (simp add: nat_less_iff)
qed

lemma ref_objfmt_lane: "lane_doc ref_objfmt"
proof -
  have "obj_Size ref_objfmt c (x @ r) = Size_ok (length x)" if "lane_member c x" for c x r
    using that
  proof cases
    case tx
    then show ?thesis by (simp add: ref_objfmt_def ref_tx_size_def walk_tx_obj)
  next
    case (subtree n placeholder)
    obtain root leaves where p: "x = root @ be 8 n @ leaves" "length root = 32" "length leaves = 32 * n"
      using subtree_obj_parts(1) subtree(2,4) by blast
    have "take 8 (drop 32 (x @ r)) = be 8 n" using p by simp
    then show ?thesis using p subtree(1,4) by (simp add: ref_objfmt_def ref_subtree_size_def un_be_be Let_def)
  next
    case (block chk n cb bump prev height)
    obtain hdr txs roots t bp where o: "x = block_body hdr txs (length x) n roots t (unat height) bp"
      "length hdr = 80" "length roots = 32 * n" "raw_obj t" "int (length bp) = bump"
      using block_obj_parts(1) block(2,5) by blast
    define k where "k = length x"
    let ?r = "be 8 (unat height) @ be 8 (length bp) @ bp"
    have x: "x = hdr @ be 8 txs @ be 8 k @ be 8 n @ roots @ t @ ?r"
      using o(1) unfolding block_body_def k_def .
    have d: "take 8 (drop 96 (x @ r)) = be 8 n" "drop (104 + 32 * n) (x @ r) = t @ ?r @ r"
      unfolding x using o(2,3) by simp_all
    have w: "walk_tx (t @ ?r @ r) = Some (?r @ r)"
      using o(4) by (intro walk_tx_obj) (simp add: tx_obj_def)
    have "length bp < 2 ^ 32" using o(5) block(6) by simp
    then have l: "un_be (take 8 (drop 8 (?r @ r))) = length bp" by (simp add: un_be_be)
    have "104 \<le> length (x @ r)" unfolding x using o(2) by simp
    then have "ref_block_size (x @ r) = Size_ok (length (x @ r) - (length (?r @ r) - (16 + length bp)))"
      using d w l block(5) by (simp add: ref_block_size_def un_be_be Let_def)
    moreover have "length (?r @ r) - (16 + length bp) = length r" by simp
    ultimately show ?thesis using block(1) by (simp add: ref_objfmt_def)
  qed
  then show ?thesis unfolding lane_doc_def by blast
qed

text \<open>C33: The bare lanes through the sink. A lane of built transactions, or of the objects a run of either push
  command delivered (whatever its network did), is split again into exactly those objects: the pump
  relays them verbatim, one write each, ends at the end of the stream without an error, and prints one line and
  makes one record per object: a transaction with its format, identifier and size, a subtree with its root
  and node count, a block with the hash of its header and its subtree count.\<close>

theorem lanes_through_sink:
  assumes "lane_doc ob" "reader_doc rd" "reader_size_doc ob rd" and "relay_up fwd"
    and "lane_run ob c xs" and "list_all (\<lambda>x. int (length x) \<le> m) xs"
  shows "\<exists>out. pumpClassStream ob rd c dir fwd m (concat xs) End_EOF = Some (E_EOF, out) \<and>
     po_fwd out = (if fwd \<noteq> None then xs else []) \<and>
     po_lines out = map (fst \<circ> bare_log ob dir c) xs \<and> po_ops out = map (snd \<circ> bare_log ob dir c) xs"
proof -
  have "list_all (\<lambda>x. lane_member c x \<and> int (length x) \<le> m) xs"
    using lane_run_members [OF assms(5)] assms(6) by (auto simp: list_all_iff)
  from class_loop_objs [OF assms(1-4) this] show ?thesis
    by (simp add: pumpClassStream_def after_objs_def nothing_def)
qed

theorem lanes_through_sink_witness:
  "\<exists>t out. fst (Build (tx_New (replicate 32 1)) [] 60) = Inr t \<and>
     pumpClassStream ref_objfmt ref_reader ClassTx dirSent (Some (\<lambda>_. True)) 1000 (concat [t, t]) End_EOF = Some (E_EOF, out) \<and>
     po_fwd out = [t, t]"
proof -
  obtain t b' where t: "Build (tx_New (replicate 32 1)) [] 60 = (Inr t, b')"
    using Build_result [of "tx_New (replicate 32 1)" "[]" 60]
    by (cases "Build (tx_New (replicate 32 1)) [] 60") auto
  have run: "lane_run ref_objfmt ClassTx [t, t]" using t by (intro lane_run.txs) auto
  have len: "list_all (\<lambda>x. int (length x) \<le> 1000) [t, t]" using Build_ok [OF t] by simp
  have up: "relay_up (Some (\<lambda>_. True))" by (simp add: relay_up_def)
  show ?thesis
    using lanes_through_sink [OF ref_objfmt_lane ref_reader_doc ref_reader_size up run len, of dirSent] t by auto
qed

end
