(* ===== verification/Send_Subtree_Data.thy ===== *)
theory Send_Subtree_Data
  imports Send_Anchor Send_Block_Announce Merkle "HOL-Library.Signed_Division"
begin

text \<open>
  \<open>cmd/send-subtree-data\<close>: the BRC-132 payload generator, the frame encoder and the command's run.
  \<open>nodes\<close> is a slice of the payload in the code, so a store into it is a store into the payload at
  an offset of 24 here. Random bytes come from the stream of \<open>Send_Block_Announce\<close>.
\<close>

definition frameVerV5 :: byte where
  "frameVerV5 = 0x05"

definition subtreeMsgHashesOnly :: byte where
  "subtreeMsgHashesOnly = 0x01"

definition subtreeMsgFullNodes :: byte where
  "subtreeMsgFullNodes = 0x02"

definition payloadHeaderSize :: nat where
  "payloadHeaderSize = 24"

definition conflictCountSize :: nat where
  "conflictCountSize = 8"

definition subtreeNodeHashSize :: nat where
  "subtreeNodeHashSize = 32"

definition subtreeNodeFullSize :: nat where
  "subtreeNodeFullSize = 48"

record subtree =
  st_root :: bytes
  st_payload :: bytes

text \<open>The node loop: \<open>m\<close> nodes still to write, the next one with index \<open>i\<close>.\<close>

fun node_loop :: "(nat \<Rightarrow> byte) \<Rightarrow> byte \<Rightarrow> nat \<Rightarrow> nat \<Rightarrow> nat \<Rightarrow> nat \<Rightarrow> bytes \<Rightarrow> bytes option" where
  "node_loop crand msgType nodeSize 0 i k p = Some p"
| "node_loop crand msgType nodeSize (Suc m) i k p = do {
     let off = payloadHeaderSize + i * nodeSize;
     p \<leftarrow> put p off (mustRand crand k 32);
     p \<leftarrow> (if msgType = subtreeMsgFullNodes then do {
             p \<leftarrow> put p (off + 32) (be 8 1);
             put p (off + 40) (be 8 250) }
          else Some p);
     node_loop crand msgType nodeSize m (Suc i) (k + 32) p
   }"

definition newSubtree :: "(nat \<Rightarrow> byte) \<Rightarrow> nat \<Rightarrow> byte \<Rightarrow> nat \<Rightarrow> nat \<Rightarrow> (subtree \<times> nat) option" where
  "newSubtree crand k msgType nodeSize n = do {
     p \<leftarrow> node_loop crand msgType nodeSize n 0 k
            (replicate (payloadHeaderSize + n * nodeSize + conflictCountSize) 0);
     p \<leftarrow> (if msgType = subtreeMsgFullNodes then do {
             p \<leftarrow> put p 0 (be 8 n);
             put p 8 (be 8 (n * 250)) }
          else Some p);
     p \<leftarrow> put p 16 (be 8 n);
     nodes \<leftarrow> slice p payloadHeaderSize (payloadHeaderSize + n * nodeSize);
     root \<leftarrow> Root nodes nodeSize n;
     Some (\<lparr>st_root = root, st_payload = p\<rparr>, k + 32 * n)
   }"

definition encodeSubtreeDataFrame :: "byte \<Rightarrow> bytes \<Rightarrow> bytes \<Rightarrow> bytes option" where
  "encodeSubtreeDataFrame msgType subtreeID payload = do {
     buf \<leftarrow> Some (replicate (headerSize + length payload) 0);
     buf \<leftarrow> put buf 0 (be 4 (unat magicBSV));
     buf \<leftarrow> put buf 4 (be 2 (unat protoVer));
     buf \<leftarrow> put buf 6 [frameVerV5];
     buf \<leftarrow> put buf 7 [msgType];
     buf \<leftarrow> copy_slice buf 8 40 subtreeID;
     buf \<leftarrow> copy_slice buf 56 88 subtreeID;
     buf \<leftarrow> put buf 88 (be 4 (length payload));
     copy_from buf 92 payload
   }"

definition msg_kind :: "string \<Rightarrow> (byte \<times> nat) option" where
  "msg_kind s =
     (if s = ''hashes'' \<or> s = ''hashes-only'' then Some (subtreeMsgHashesOnly, subtreeNodeHashSize)
      else if s = ''full'' \<or> s = ''full-nodes'' then Some (subtreeMsgFullNodes, subtreeNodeFullSize)
      else None)"

definition node_count :: "int \<Rightarrow> int \<Rightarrow> nat \<Rightarrow> nat" where
  "node_count nodeCount payloadSize nodeSize =
     (let nodes = (if 0 < payloadSize
                   then (payloadSize - int payloadHeaderSize - int conflictCountSize) sdiv int nodeSize
                   else nodeCount)
      in if nodes < 1 then 1 else nat nodes)"

fun pool_loop :: "(nat \<Rightarrow> byte) \<Rightarrow> byte \<Rightarrow> nat \<Rightarrow> nat \<Rightarrow> nat \<Rightarrow> nat \<Rightarrow> (subtree list \<times> nat) option" where
  "pool_loop crand msgType nodeSize nodes 0 k = Some ([], k)"
| "pool_loop crand msgType nodeSize nodes (Suc c) k = do {
     (st, k) \<leftarrow> newSubtree crand k msgType nodeSize nodes;
     (sts, k) \<leftarrow> pool_loop crand msgType nodeSize nodes c k;
     Some (st # sts, k)
   }"

fun data_loop ::
  "(nat \<Rightarrow> byte) \<Rightarrow> (nat \<Rightarrow> bool) \<Rightarrow> byte \<Rightarrow> nat \<Rightarrow> nat \<Rightarrow> subtree list \<Rightarrow>
   nat \<Rightarrow> nat \<Rightarrow> nat \<Rightarrow> bytes list \<Rightarrow> outcome" where
  "data_loop crand send_ok msgType nodeSize nodes pool 0 i k out = Finished out"
| "data_loop crand send_ok msgType nodeSize nodes pool (Suc m) i k out =
     (case do {
        (st, k) \<leftarrow> (if 0 < length pool then Some (pool ! (i mod length pool), k)
                    else newSubtree crand k msgType nodeSize nodes);
        frame \<leftarrow> encodeSubtreeDataFrame msgType (st_root st) (st_payload st);
        Some (frame, k) }
      of None \<Rightarrow> Fatal (AtEncode i) out
       | Some (frame, k) \<Rightarrow>
           if send_ok i
           then data_loop crand send_ok msgType nodeSize nodes pool m (Suc i) k (out @ [frame])
           else Fatal (AtSend i) out)"

definition data_main ::
  "(nat \<Rightarrow> byte) \<Rightarrow> bool \<Rightarrow> (nat \<Rightarrow> bool) \<Rightarrow> int \<Rightarrow> string \<Rightarrow> int \<Rightarrow> int \<Rightarrow> int \<Rightarrow> outcome" where
  "data_main crand dial_ok send_ok frameCount msgTypeStr nodeCount payloadSize subtreeCount =
     (case msg_kind msgTypeStr of
        None \<Rightarrow> Fatal AtFlags []
      | Some (msgType, nodeSize) \<Rightarrow>
          let nodes = node_count nodeCount payloadSize nodeSize in
          (case (if 0 < subtreeCount then pool_loop crand msgType nodeSize nodes (nat subtreeCount) 0
                 else Some ([], 0)) of
             None \<Rightarrow> Fatal AtSetup []
           | Some (pool, k) \<Rightarrow>
               if \<not> dial_ok then Fatal AtDial []
               else data_loop crand send_ok msgType nodeSize nodes pool (nat frameCount) 0 k []))"

section \<open>The payload in closed form\<close>

text \<open>One node record, and the payload of a list of hashes.\<close>

definition node_rec :: "byte \<Rightarrow> bytes \<Rightarrow> bytes" where
  "node_rec msgType h = h @ (if msgType = subtreeMsgFullNodes then be 8 1 @ be 8 250 else [])"

definition subtree_payload :: "byte \<Rightarrow> bytes list \<Rightarrow> bytes" where
  "subtree_payload msgType hs =
     (if msgType = subtreeMsgFullNodes then be 8 (length hs) @ be 8 (length hs * 250)
      else replicate 16 0) @
     be 8 (length hs) @ concat (map (node_rec msgType) hs) @ replicate 8 0"

definition rand_hashes :: "(nat \<Rightarrow> byte) \<Rightarrow> nat \<Rightarrow> nat \<Rightarrow> bytes list" where
  "rand_hashes crand k n = map (\<lambda>i. mustRand crand (k + 32 * i) 32) [0..<n]"

lemma rand_hashes_Suc: "rand_hashes crand k (Suc n) = mustRand crand k 32 # rand_hashes crand (k + 32) n"
  by (simp add: rand_hashes_def map_upt_Suc algebra_simps del: upt_Suc)

lemma length_rand_hashes [simp]: "length (rand_hashes crand k n) = n"
  by (simp add: rand_hashes_def)

lemma rand_hashes_32: "h \<in> set (rand_hashes crand k n) \<Longrightarrow> length h = 32"
  by (auto simp: rand_hashes_def)

text \<open>The node size goes with the message type, as \<open>msg_kind\<close> chooses it.\<close>

definition kind_ok :: "byte \<Rightarrow> nat \<Rightarrow> bool" where
  "kind_ok msgType nodeSize \<longleftrightarrow>
     msgType = subtreeMsgHashesOnly \<and> nodeSize = 32 \<or> msgType = subtreeMsgFullNodes \<and> nodeSize = 48"

lemma msg_kind_ok: "msg_kind s = Some (m, z) \<Longrightarrow> kind_ok m z"
  by (auto simp: msg_kind_def kind_ok_def subtreeNodeHashSize_def subtreeNodeFullSize_def split: if_splits)

lemma length_node_rec: "kind_ok m z \<Longrightarrow> length h = 32 \<Longrightarrow> length (node_rec m h) = z"
  by (auto simp: node_rec_def kind_ok_def subtreeMsgHashesOnly_def subtreeMsgFullNodes_def)

lemma length_node_recs:
  "kind_ok m z \<Longrightarrow> \<forall>h \<in> set hs. length h = 32 \<Longrightarrow> length (concat (map (node_rec m) hs)) = length hs * z"
  by (induction hs) (simp_all add: length_node_rec)

lemma node_loop_zeros:
  assumes "kind_ok m z" and "length xs = 24 + i * z" and "n * z \<le> r"
  shows "node_loop crand m z n i k (xs @ replicate r 0) =
     Some (xs @ concat (map (node_rec m) (rand_hashes crand k n)) @ replicate (r - n * z) 0)"
  using assms(2,3)
proof (induction n arbitrary: i k xs r)
  case 0
  then show ?case by (simp add: rand_hashes_def)
next
  case (Suc n)
  let ?h = "mustRand crand k 32"
  have r: "z \<le> r" "n * z \<le> r - z" "32 \<le> z" using Suc.prems(2) assms(1) by (auto simp: kind_ok_def)
  have rec: "length (node_rec m ?h) = z" using assms(1) by (simp add: length_node_rec)
  have ih: "node_loop crand m z n (Suc i) (k + 32) ((xs @ node_rec m ?h) @ replicate (r - z) 0) =
      Some ((xs @ node_rec m ?h) @ concat (map (node_rec m) (rand_hashes crand (k + 32) n)) @
        replicate (r - z - n * z) 0)"
    by (rule Suc.IH) (use Suc.prems rec r in auto)
  show ?case
  proof (cases "m = subtreeMsgFullNodes")
    case True
    then have "z = 48" using assms(1) by (auto simp: kind_ok_def subtreeMsgHashesOnly_def subtreeMsgFullNodes_def)
    moreover have "put (xs @ replicate r 0) (24 + i * z) ?h = Some ((xs @ ?h) @ replicate (r - 32) 0)"
      "put ((xs @ ?h) @ replicate (r - 32) 0) (24 + i * z + 32) (be 8 1) =
         Some ((xs @ ?h @ be 8 1) @ replicate (r - 40) 0)"
      "put ((xs @ ?h @ be 8 1) @ replicate (r - 40) 0) (24 + i * z + 40) (be 8 250) =
         Some ((xs @ node_rec m ?h) @ replicate (r - z) 0)"
      using Suc.prems r \<open>z = 48\<close> True by (simp_all add: put_zeros node_rec_def del: append_assoc)
    ultimately show ?thesis
      using True ih by (simp add: payloadHeaderSize_def rand_hashes_Suc del: append_assoc One_nat_def)
  next
    case False
    then have "z = 32" using assms(1) by (auto simp: kind_ok_def)
    moreover have "node_rec m ?h = ?h" using False by (simp add: node_rec_def)
    ultimately show ?thesis
      using False ih Suc.prems r
      by (simp add: zero_buffer payloadHeaderSize_def rand_hashes_Suc)
  qed
qed

lemma take_concat_recs:
  "\<forall>h \<in> set hs. length h = 32 \<Longrightarrow> map (take 32) (map (node_rec m) hs) = hs"
  by (induction hs) (simp_all add: node_rec_def)

lemma newSubtree_spec:
  assumes "kind_ok m z" and "n \<noteq> 0"
  shows "newSubtree crand k m z n =
     Some (\<lparr>st_root = tree_root (rand_hashes crand k n),
            st_payload = subtree_payload m (rand_hashes crand k n)\<rparr>, k + 32 * n)"
proof -
  let ?hs = "rand_hashes crand k n"
  define recs where "recs = concat (map (node_rec m) ?hs)"
  have len: "length recs = n * z" unfolding recs_def using length_node_recs [OF assms(1), of ?hs] rand_hashes_32 by simp
  have loop: "node_loop crand m z n 0 k (replicate (24 + n * z + 8) 0) =
      Some (replicate 8 0 @ replicate 8 0 @ replicate 8 0 @ recs @ replicate 8 0)"
    using node_loop_zeros [OF assms(1), of "replicate 24 0" 0 n "n * z + 8" crand k]
    by (simp add: recs_def flip: replicate_add append_assoc)
  have put0: "put (replicate 8 0 @ ys) 0 bs = Some (bs @ ys)" if "length bs = 8" for bs ys
    using put_at_end [of 0 "[]" "replicate 8 0" bs ys] that by simp
  have put8: "put (xs @ replicate 8 0 @ ys) 8 bs = Some (xs @ bs @ ys)"
    if "length bs = 8" "length xs = 8" for xs bs ys
    using put_at_end [of 8 xs "replicate 8 0" bs ys] that by simp
  have put16: "put (xs @ ws @ replicate 8 0 @ ys) 16 bs = Some (xs @ ws @ bs @ ys)"
    if "length bs = 8" "length xs = 8" "length ws = 8" for xs ws bs ys
    using put_at_end [of 16 "xs @ ws" "replicate 8 0" bs ys] that by simp
  have nodes: "slice (xs @ ws @ vs @ recs @ ys) 24 (24 + n * z) = Some recs"
    if "length xs = 8" "length ws = 8" "length vs = 8" for xs ws vs ys
    using that len by (simp add: slice_def)
  have "\<forall>r \<in> set (map (node_rec m) ?hs). length r = z"
    using assms(1) by (auto simp: length_node_rec rand_hashes_32)
  moreover have "32 \<le> z" using assms(1) by (auto simp: kind_ok_def)
  moreover have "?hs \<noteq> []" using assms(2) by (simp flip: length_0_conv)
  ultimately have root: "Root recs z n = Some (tree_root ?hs)"
    using Root_records [of "map (node_rec m) ?hs" z] take_concat_recs [of ?hs m] rand_hashes_32 by (simp add: recs_def)
  have pay: "subtree_payload m ?hs =
      (if m = subtreeMsgFullNodes then be 8 n @ be 8 (n * 250) else replicate 8 0 @ replicate 8 0) @
      be 8 n @ recs @ replicate 8 0"
    by (simp add: subtree_payload_def recs_def flip: replicate_add)
  show ?thesis
    unfolding newSubtree_def payloadHeaderSize_def conflictCountSize_def loop
    using root by (simp add: put0 put8 put16 nodes pay)
qed

section \<open>The frame in closed form\<close>

lemma encodeSubtreeDataFrame_layout:
  assumes "length sid = 32"
  shows "encodeSubtreeDataFrame kind sid payload =
     Some (header92 5 kind sid 0 0 sid (length payload) @ payload)"
proof -
  have gap: "copy_slice (xs @ replicate n 0) 56 88 src =
      Some (((xs @ be 8 0 @ be 8 0) @ src) @ replicate (n - 48) 0)"
    if "length xs = 40" "48 \<le> n" "length src = 32" for xs n src
    using that copy_slice_zeros_gap [of 56 xs 16 88 src n]
    by (simp add: be_zero flip: replicate_add append_assoc)
  show ?thesis
    using assms
    by (simp add: encodeSubtreeDataFrame_def headerSize_def magicBSV_def protoVer_def frameVerV5_def
        zero_buffer gap header92_def del: append_assoc)
qed

definition data_ver :: "byte \<times> bytes \<Rightarrow> byte" where
  "data_ver h = frameVerV5"

interpretation data: frame_emitter "\<lambda>(kind, sid). encodeSubtreeDataFrame kind sid" data_ver
  "\<lambda>(kind, sid). length sid = 32"
proof unfold_locales
  fix h :: "byte \<times> bytes" and p :: bytes
  assume h: "case h of (kind, sid) \<Rightarrow> length sid = 32"
  show "\<exists>hdr. (case h of (kind, sid) \<Rightarrow> encodeSubtreeDataFrame kind sid) p = Some (hdr @ p) \<and>
      frame_shape (data_ver h) hdr p"
    using h by (cases h)
      (auto simp: encodeSubtreeDataFrame_layout data_ver_def frameVerV5_def intro!: frame_shape_header92)
next
  show "data_ver h \<noteq> 1 \<and> data_ver h \<noteq> 3" for h
    by (simp add: data_ver_def frameVerV5_def)
qed

section \<open>The run\<close>

definition data_frame :: "byte \<Rightarrow> bytes list \<Rightarrow> bytes" where
  "data_frame m hs =
     header92 5 m (tree_root hs) 0 0 (tree_root hs) (length (subtree_payload m hs)) @ subtree_payload m hs"

lemma encode_subtree:
  "kind_ok m z \<Longrightarrow> encodeSubtreeDataFrame m (tree_root (rand_hashes crand k n)) pay =
     Some (header92 5 m (tree_root (rand_hashes crand k n)) 0 0 (tree_root (rand_hashes crand k n)) (length pay) @ pay)"
  by (simp add: encodeSubtreeDataFrame_layout length_tree_root rand_hashes_32)

lemma length_subtree_payload:
  assumes "kind_ok m z" and "\<forall>h \<in> set hs. length h = 32"
  shows "length (subtree_payload m hs) = 32 + length hs * z"
  using length_node_recs [OF assms] by (simp add: subtree_payload_def)

definition sub_at :: "(nat \<Rightarrow> byte) \<Rightarrow> byte \<Rightarrow> nat \<Rightarrow> nat \<Rightarrow> subtree" where
  "sub_at crand m n k = \<lparr>st_root = tree_root (rand_hashes crand k n),
     st_payload = subtree_payload m (rand_hashes crand k n)\<rparr>"

lemma pool_loop_closed:
  assumes "kind_ok m z" and "n \<noteq> 0"
  shows "pool_loop crand m z n c k =
     Some (map (\<lambda>j. sub_at crand m n (k + 32 * n * j)) [0..<c], k + 32 * n * c)"
proof (induction c arbitrary: k)
  case 0
  then show ?case by simp
next
  case (Suc c)
  then show ?case
    using newSubtree_spec [OF assms, of crand k]
    by (simp add: sub_at_def map_upt_Suc algebra_simps del: upt_Suc)
qed

text \<open>Where in the random stream frame \<open>i\<close> reads its hashes: fresh bytes, or those of its pool slot.\<close>

definition draw_at :: "nat \<Rightarrow> nat \<Rightarrow> nat \<Rightarrow> nat" where
  "draw_at n c i = 32 * n * (if 0 < c then i mod c else i)"

lemma data_loop_finishes:
  assumes "kind_ok m z" and "n \<noteq> 0" and "\<forall>i. send_ok i"
    and "pool = map (\<lambda>j. sub_at crand m n (32 * n * j)) [0..<c]" and "c = 0 \<Longrightarrow> k = 32 * n * i"
  shows "data_loop crand send_ok m z n pool f i k out =
     Finished (out @ map (\<lambda>j. data_frame m (rand_hashes crand (draw_at n c (i + j)) n)) [0..<f])"
  using assms(5)
proof (induction f arbitrary: i k out)
  case 0
  then show ?case by simp
next
  case (Suc f)
  let ?g = "\<lambda>i. data_frame m (rand_hashes crand (draw_at n c i) n)"
  let ?k = "if 0 < c then k else k + 32 * n"
  have ok: "send_ok i" using assms(3) by blast
  have ih: "data_loop crand send_ok m z n pool f (Suc i) ?k (out @ [?g i]) =
      Finished ((out @ [?g i]) @ map (\<lambda>j. ?g (Suc i + j)) [0..<f])"
    by (rule Suc.IH) (use Suc.prems in simp)
  have "data_loop crand send_ok m z n pool (Suc f) i k out =
      data_loop crand send_ok m z n pool f (Suc i) ?k (out @ [?g i])"
    using Suc.prems ok assms(4) newSubtree_spec [OF assms(1,2)]
    by (simp add: sub_at_def encode_subtree [OF assms(1)] data_frame_def draw_at_def)
  with ih show ?case by (simp add: map_upt_Suc del: upt_Suc)
qed

lemma node_count_pos: "node_count nc ps z \<noteq> 0"
  by (simp add: node_count_def Let_def)

section \<open>Properties\<close>

text \<open>Payload sizing: with a requested payload size that has room for at least one node, the payload
  (24 bytes of counts, the nodes, 8 bytes of conflict count) is the longest one that does not exceed
  it; otherwise there is one node, or as many as asked for when that is more than one.\<close>

theorem payload_fits:
  assumes "msg_kind s = Some (m, z)" and "length hs = node_count nc ps z" and "\<forall>h \<in> set hs. length h = 32"
  shows "(0 < ps \<and> 32 + int z \<le> ps \<longrightarrow>
            int (length (subtree_payload m hs)) \<le> ps \<and> ps < int (length (subtree_payload m hs)) + int z) \<and>
     (0 < ps \<and> ps < 32 + int z \<longrightarrow> length hs = 1) \<and> (ps \<le> 0 \<longrightarrow> int (length hs) = max 1 nc)"
proof -
  have z: "kind_ok m z" "0 < z" using msg_kind_ok [OF assms(1)] by (auto simp: kind_ok_def)
  have len: "int (length (subtree_payload m hs)) = 32 + int (length hs) * int z"
    using length_subtree_payload [OF z(1) assms(3)] by simp
  have n: "int (length hs) =
      max 1 (if 0 < ps then (ps - 32) sdiv int z else nc)"
    using assms(2) by (simp add: node_count_def Let_def payloadHeaderSize_def conflictCountSize_def)
  have fit: "int (length hs) = (ps - 32) div int z" "1 \<le> (ps - 32) div int z" if "32 + int z \<le> ps" "0 < ps"
  proof -
    have "int z div int z \<le> (ps - 32) div int z" using z(2) that(1) by (intro zdiv_mono1) simp_all
    then show "1 \<le> (ps - 32) div int z" using z(2) by simp
    then show "int (length hs) = (ps - 32) div int z"
      using n that z(2) by (simp add: signed_divide_int_def)
  qed
  have one: "length hs = 1" if "0 < ps" "ps < 32 + int z"
  proof -
    have "(ps - 32) sdiv int z \<le> 0"
      using that z(2) by (auto simp: signed_divide_int_def sgn_if div_pos_pos_trivial mult_nonneg_nonneg pos_imp_zdiv_nonneg_iff)
    then show ?thesis using n that by simp
  qed
  have "int (length hs) * int z \<le> ps - 32 \<and> ps - 32 < int (length hs) * int z + int z"
    if "32 + int z \<le> ps" "0 < ps"
    unfolding fit(1) [OF that]
    using z(2) div_mult_mod_eq [of "ps - 32" "int z"] pos_mod_bound [of "int z" "ps - 32"]
      pos_mod_sign [of "int z" "ps - 32"] by linarith
  with len one n show ?thesis by auto
qed

theorem payload_fits_witness:
  "length (subtree_payload 2 (replicate 4 (replicate 32 1))) \<le> 240 \<and>
   192 < length (subtree_payload 2 (replicate 4 (replicate 32 1)))"
  using payload_fits [of "''full''" 2 48 "replicate 4 (replicate 32 1)" 16 240]
  by (simp add: msg_kind_def subtreeMsgFullNodes_def subtreeNodeFullSize_def node_count_def
      payloadHeaderSize_def conflictCountSize_def signed_divide_int_def)

text \<open>C40: When dialling and every write succeed, the command finishes with exactly the requested number
  of frames. Each is a BRC-132 frame whose payload is well formed (totals, node count, the node
  records, a zero conflict count) and whose SubtreeID, in both header slots, is the merkle root of
  the node hashes of that payload. Without a pool every frame draws fresh hashes; with a pool of
  \<open>c\<close> subtrees frame \<open>i\<close> repeats pool entry \<open>i mod c\<close>.\<close>

theorem data_main_frames:
  assumes "msg_kind s = Some (m, z)" and "\<forall>i. send_ok i"
  shows "data_main crand True send_ok f s nc ps sc =
     Finished (map (\<lambda>i. data_frame m
        (rand_hashes crand (draw_at (node_count nc ps z) (nat sc) i) (node_count nc ps z))) [0..<nat f])"
proof -
  let ?n = "node_count nc ps z"
  note k = msg_kind_ok [OF assms(1)]
  note fin = data_loop_finishes [OF k node_count_pos [of nc ps z] assms(2), where crand = crand and i = 0 and out = "[]"]
  show ?thesis
    using assms(1) fin [of "map (\<lambda>j. sub_at crand m ?n (32 * ?n * j)) [0..<nat sc]" "nat sc" "32 * ?n * nat sc"]
      fin [of "[]" 0 0]
    by (simp add: data_main_def Let_def pool_loop_closed [OF k node_count_pos])
qed

theorem data_main_frames_witness:
  "data_main (\<lambda>i. word_of_nat i) True (\<lambda>i. True) 3 ''hashes'' 2 0 2 =
     Finished (map (\<lambda>k. data_frame 1 [map word_of_nat [k..<k + 32], map word_of_nat [k + 32..<k + 64]]) [0, 64, 0])"
proof -
  have r: "rand_hashes (\<lambda>i. word_of_nat i) k 2 = [map word_of_nat [k..<k + 32], map word_of_nat [k + 32..<k + 64]]" for k
    by (simp add: rand_hashes_def mustRand_def numeral_2_eq_2 add.commute [of k])
  have n: "node_count 2 0 32 = 2" by (simp add: node_count_def)
  have u: "[0..<3] = [0, 1, 2 :: nat]" by (simp add: upt_rec)
  have m: "msg_kind ''hashes'' = Some (1, 32)"
    by (simp add: msg_kind_def subtreeMsgHashesOnly_def subtreeNodeHashSize_def)
  show ?thesis
    using data_main_frames [OF m, of "\<lambda>i. True" "\<lambda>i. word_of_nat i" 3 2 0 2]
    by (simp add: n u draw_at_def r)
qed

end
