(* ===== verification/Sink_Frames.thy ===== *)
theory Sink_Frames
  imports Sink_Pump Send_Anchor Send_Block_Announce Send_Subtree_Data Sender_Frame Tcp_Lane
begin

text \<open>
  The framed emitters and the sink together: what \<open>tunnel-sink\<close> logs, counts and relays of the frames that
  \<open>send-anchor-frame\<close>, \<open>send-block-announce\<close>, \<open>send-subtree-data\<close> and \<open>subtx-gen -tcp\<close> write.
\<close>

section \<open>One frame\<close>

definition sink_frame :: "int \<Rightarrow> bytes \<times> bytes \<Rightarrow> bool" where
  "sink_frame m hp \<longleftrightarrow>
     (\<exists>ver. frame_shape ver (fst hp) (snd hp) \<and> ver \<noteq> 1 \<and> ver \<noteq> 3) \<and>
     length (snd hp) < 2 ^ 32 \<and> int (length (snd hp)) \<le> m"

lemma framed_header_frame:
  assumes "header_doc P" "length hdr = HeaderSizeV3 P" "frame_shape ver h p" "ver \<noteq> 1" "ver \<noteq> 3"
  shows "framed_header P e hdr (h @ r) = Some (Inr (ver, 92, h @ drop 92 hdr, r))"
proof -
  have h: "length h = 92" "take 4 h = be 4 0xE3E1F3E8" "h ! 6 = ver"
    using assms(3) by (simp_all add: frame_shape_def)
  have "read_full 92 (h @ r) e = Inr (h, r)" using h(1) by (simp add: read_full_def)
  moreover have "take 1 (drop 6 (h @ drop 92 hdr)) = [ver]"
    using h(1,3) by (simp add: take_Suc_conv_app_nth nth_append)
  ultimately show ?thesis
    using assms h
    by (auto simp: framed_header_def header_doc_def slice_some un_be_be)
qed

definition frame_log :: "objfmt_pkg \<Rightarrow> string \<Rightarrow> bytes \<times> bytes \<Rightarrow> line \<times> stats_op" where
  "frame_log ob dir hp = the (logFramed ob dir (fst hp ! 6) (fst hp) (snd hp))"

definition after_frames :: "objfmt_pkg \<Rightarrow> string \<Rightarrow> bool \<Rightarrow> (bytes \<times> bytes) list \<Rightarrow> pump_out \<Rightarrow> pump_out" where
  "after_frames ob dir relaying fs out =
     \<lparr>po_ops = po_ops out @ map (snd \<circ> frame_log ob dir) fs,
      po_lines = po_lines out @ map (fst \<circ> frame_log ob dir) fs,
      po_fwd = po_fwd out @ (if relaying then concat (map (\<lambda>(h, p). [h, p]) fs) else [])\<rparr>"

lemma framed_step_frame:
  assumes P: "header_doc P" and hdr: "length hdr = HeaderSizeV3 P"
    and f: "sink_frame m (h, p)" and up: "relay_up fwd"
  shows "framed_step P ob dir fwd m e (hdr, h @ p @ r, out) =
     Some (Inr (h @ drop 92 hdr, r, after_frames ob dir (fwd \<noteq> None) [(h, p)] out))"
proof -
  obtain ver where v: "frame_shape ver h p" "ver \<noteq> 1" "ver \<noteq> 3" "length p < 2 ^ 32" "int (length p) \<le> m"
    using f by (auto simp: sink_frame_def)
  have h: "length h = 92" "h ! 6 = ver" "drop 88 h = be 4 (length p)"
    using v(1) by (simp_all add: frame_shape_def)
  have len: "take 4 (drop 88 h) = be 4 (length p)" by (simp add: h(3))
  have sl: "slice (h @ drop 92 hdr) 88 92 = Some (be 4 (length p))" "slice (h @ drop 92 hdr) 0 92 = Some h"
    using h len by (simp_all add: slice_some)
  have pl: "un_be (be 4 (length p)) = length p" using v(4) by (simp add: un_be_be)
  obtain lo where lo: "logFramed ob dir ver h p = Some lo"
    using logFramed_records [of h ob dir ver p] h(1) by auto
  have "logged lo (out\<lparr>po_fwd := po_fwd out @ (if fwd \<noteq> None then [h, p] else [])\<rparr>) =
      after_frames ob dir (fwd \<noteq> None) [(h, p)] out"
    using lo h(2) by (simp add: logged_def after_frames_def frame_log_def)
  moreover have "read_full (length p) (p @ r) e = Inr (p, r)" by (simp add: read_full_def)
  ultimately show ?thesis
    using framed_header_frame [OF P hdr v(1-3), of e "p @ r"] v(5) lo sl pl relay_writes_up [OF up, of "[h, p]" out]
    by (simp add: framed_step_def Let_def)
qed

lemma after_frames_Cons:
  "after_frames ob dir b fs (after_frames ob dir b [f] out) = after_frames ob dir b (f # fs) out"
  by (cases f) (simp add: after_frames_def)

lemma framed_loop_frames:
  assumes P: "header_doc P" and up: "relay_up fwd" and "list_all (sink_frame m) fs"
    and "length hdr = HeaderSizeV3 P"
  shows "pump_loop (framed_step P ob dir fwd m End_EOF) (hdr, concat (map (\<lambda>(h, p). h @ p) fs), out) =
     Some (E_EOF, after_frames ob dir (fwd \<noteq> None) fs out)"
  using assms(3,4)
proof (induction fs arbitrary: hdr out)
  case Nil
  have "framed_step P ob dir fwd m End_EOF (hdr, [], out) = Some (Inl (E_EOF, out))"
    using P Nil.prems(2) by (simp add: framed_step_def framed_header_def header_doc_def read_full_def end_err_def)
  from framed.loop_stop [OF this] show ?case by (simp add: after_frames_def)
next
  case (Cons f fs)
  obtain h p where f: "f = (h, p)" by (cases f)
  let ?r = "concat (map (\<lambda>(h, p). h @ p) fs)"
  have s: "framed_step P ob dir fwd m End_EOF (hdr, h @ p @ ?r, out) =
      Some (Inr (h @ drop 92 hdr, ?r, after_frames ob dir (fwd \<noteq> None) [f] out))"
    unfolding f using Cons.prems f by (intro framed_step_frame [OF P _ _ up]) simp_all
  have "length (h @ drop 92 hdr) = HeaderSizeV3 P"
    using Cons.prems f P by (auto simp: sink_frame_def frame_shape_def header_doc_def)
  from Cons.IH [OF _ this] Cons.prems(1)
  have "pump_loop (framed_step P ob dir fwd m End_EOF)
      (h @ drop 92 hdr, ?r, after_frames ob dir (fwd \<noteq> None) [f] out) =
      Some (E_EOF, after_frames ob dir (fwd \<noteq> None) (f # fs) out)"
    by (simp add: after_frames_Cons)
  with framed.loop_next [OF s] show ?case by (simp add: f)
qed

lemma pumpFramed_frames:
  assumes "header_doc P" and "relay_up fwd" and "list_all (sink_frame m) fs"
  shows "pumpFramed P ob dir fwd m (concat (map (\<lambda>(h, p). h @ p) fs)) End_EOF =
     Some (E_EOF, after_frames ob dir (fwd \<noteq> None) fs nothing)"
  unfolding pumpFramed_def by (rule framed_loop_frames [OF assms]) simp

section \<open>What is logged\<close>

lemma sink_frame_header92:
  assumes "length ident = 32" "length sub = 32" "ver \<noteq> 1" "ver \<noteq> 3" "length p < 2 ^ 32" "int (length p) \<le> m"
  shows "sink_frame m (header92 ver kind ident hk sn sub (length p), p)"
  unfolding sink_frame_def using assms frame_shape_header92 [OF assms(1,2), of ver kind hk sn p]
  by (intro conjI exI [of _ ver]) simp_all

lemma header92_fields:
  assumes "length ident = 32" "length sub = 32"
  shows "header92 ver kind ident hk sn sub n ! 6 = ver"
    "slice (header92 ver kind ident hk sn sub n) 8 40 = Some ident"
    "slice (header92 ver kind ident hk sn sub n) 56 88 = Some sub"
    "length (header92 ver kind ident hk sn sub n) = 92"
  using assms by (simp_all add: header92_def nth_append slice_some)

text \<open>The line and the record of a version-2, -4, -5 and -6 frame.\<close>

lemma frame_log_header92:
  assumes "length ident = 32" "length sub = 32"
  shows "frame_log ob dir (header92 2 kind ident hk sn sub n, p) =
      ((dir, if obj_IsEF ob p then ''BRC-128'' else ''BRC-124'', ''txn'',
        shortID (if allZero ident then (case obj_TxID ob p of None \<Rightarrow> ident | Some t \<Rightarrow> t) else ident),
        ''size='' @ byteSize (int (length p))), Op_record dir ''txn'' (int (92 + length p)) 0 0)"
    "frame_log ob dir (header92 4 kind ident hk sn sub n, p) =
      ((dir, ''BRC-131'', ''block'', shortID (if 80 \<le> length p then sha256d (take 80 p) else ident),
        ''size='' @ byteSize (int (length p))), Op_record dir ''block'' (int (92 + length p)) 0 0)"
    "frame_log ob dir (header92 5 kind ident hk sn sub n, p) =
      ((dir, ''BRC-132'', ''subtree'', shortID sub, ''size='' @ byteSize (int (length p))),
       Op_record dir ''subtree'' (int (92 + length p)) 0 0)"
    "frame_log ob dir (header92 6 kind ident hk sn sub n, p) =
      ((dir, ''BRC-134'', ''anchor'', shortID ident, ''size='' @ byteSize (int (length p))),
       Op_record dir ''other'' (int (92 + length p)) 0 0)"
  using header92_fields [OF assms]
  by (simp_all add: frame_log_def logFramed_def slice_some Let_def)

text \<open>A list of frames given by their headers and payloads, as the reader sees it.\<close>

definition framed_as :: "int \<Rightarrow> (bytes \<Rightarrow> bytes \<times> bytes \<Rightarrow> bool) \<Rightarrow> bytes list \<Rightarrow> (bytes \<times> bytes) list \<Rightarrow> bool" where
  "framed_as m R fs hps \<longleftrightarrow>
     list_all2 (\<lambda>f hp. f = fst hp @ snd hp \<and> sink_frame m hp \<and> R f hp) fs hps"

lemma framed_asI:
  assumes "\<forall>f \<in> set fs. \<exists>h p. f = h @ p \<and> sink_frame m (h, p) \<and> R f (h, p)"
  shows "\<exists>hps. framed_as m R fs hps"
  using assms
proof (induction fs)
  case Nil
  then show ?case by (auto simp: framed_as_def)
next
  case (Cons f fs)
  then obtain hps where hps: "framed_as m R fs hps" by auto
  obtain h p where "f = h @ p" "sink_frame m (h, p)" "R f (h, p)" using Cons.prems by auto
  with hps have "framed_as m R (f # fs) ((h, p) # hps)" by (simp add: framed_as_def)
  then show ?case by blast
qed

lemma framed_as_concat: "framed_as m R fs hps \<Longrightarrow> concat fs = concat (map (\<lambda>(h, p). h @ p) hps)"
  unfolding framed_as_def by (induction rule: list_all2_induct) auto

lemma framed_as_all: "framed_as m R fs hps \<Longrightarrow> list_all (sink_frame m) hps"
  unfolding framed_as_def by (induction rule: list_all2_induct) auto

lemma concat_pairs: "concat (concat (map (\<lambda>(h, p). [h, p]) hps)) = concat (map (\<lambda>(h, p). h @ p) hps)"
  by (induction hps) auto

lemma framed_as_logs:
  assumes "framed_as m (\<lambda>f hp. frame_log ob dir hp = g f) fs hps"
  shows "map (frame_log ob dir) hps = map g fs"
  using assms unfolding framed_as_def by (induction rule: list_all2_induct) auto

text \<open>
  Any list of frames, each with a known log entry \<open>g\<close>, is logged entry by entry and relayed verbatim.
\<close>

lemma pump_known_frames:
  assumes "header_doc P" and "relay_up fwd"
    and "\<forall>f \<in> set fs. \<exists>h p. f = h @ p \<and> sink_frame m (h, p) \<and> frame_log ob dir (h, p) = g f"
  shows "\<exists>out. pumpFramed P ob dir fwd m (concat fs) End_EOF = Some (E_EOF, out) \<and>
     po_lines out = map (fst \<circ> g) fs \<and> po_ops out = map (snd \<circ> g) fs \<and>
     concat (po_fwd out) = (if fwd \<noteq> None then concat fs else [])"
proof -
  from framed_asI [OF assms(3)] obtain hps
    where hps: "framed_as m (\<lambda>f hp. frame_log ob dir hp = g f) fs hps" by blast
  have "pumpFramed P ob dir fwd m (concat fs) End_EOF = Some (E_EOF, after_frames ob dir (fwd \<noteq> None) hps nothing)"
    unfolding framed_as_concat [OF hps] by (rule pumpFramed_frames [OF assms(1,2) framed_as_all [OF hps]])
  moreover have "map (fst \<circ> frame_log ob dir) hps = map (fst \<circ> g) fs" "map (snd \<circ> frame_log ob dir) hps = map (snd \<circ> g) fs"
    using arg_cong [OF framed_as_logs [OF hps], of "map fst"] arg_cong [OF framed_as_logs [OF hps], of "map snd"]
    by simp_all
  ultimately show ?thesis
    by (simp add: after_frames_def nothing_def concat_pairs framed_as_concat [OF hps])
qed

section \<open>The framed senders\<close>

text \<open>The log entry of a frame of the three commands, by its version byte.\<close>

definition sent_log :: "string \<Rightarrow> bytes \<Rightarrow> line \<times> stats_op" where
  "sent_log dir f =
     (let sz = ''size='' @ byteSize (int (length f) - 92); i = take 32 (drop 8 f); n = int (length f) in
      if f ! 6 = 6 then ((dir, ''BRC-134'', ''anchor'', shortID i, sz), Op_record dir ''other'' n 0 0)
      else if f ! 6 = 5 then ((dir, ''BRC-132'', ''subtree'', shortID i, sz), Op_record dir ''subtree'' n 0 0)
      else ((dir, ''BRC-131'', ''block'', shortID (sha256d (take 80 (drop 92 f))), sz), Op_record dir ''block'' n 0 0))"

definition sent_frame :: "int \<Rightarrow> bytes \<Rightarrow> bool" where
  "sent_frame m f \<longleftrightarrow>
     (\<exists>ver kind ident hk sn sub p.
        f = header92 ver kind ident hk sn sub (length p) @ p \<and> length ident = 32 \<and> length sub = 32 \<and>
        (ver = 4 \<and> 80 \<le> length p \<or> ver = 5 \<and> sub = ident \<or> ver = 6) \<and>
        length p < 2 ^ 32 \<and> int (length p) \<le> m)"

lemma header92_ident:
  assumes "length ident = 32" "length sub = 32"
  shows "take 32 (drop 8 (header92 ver kind ident hk sn sub n @ p)) = ident"
    "(header92 ver kind ident hk sn sub n @ p) ! 6 = ver"
    "drop 92 (header92 ver kind ident hk sn sub n @ p) = p"
    "length (header92 ver kind ident hk sn sub n @ p) = 92 + length p"
  using assms by (simp_all add: header92_def nth_append)

lemma sent_frame_log:
  assumes "sent_frame m f"
  shows "\<exists>h p. f = h @ p \<and> sink_frame m (h, p) \<and> frame_log ob dir (h, p) = sent_log dir f"
proof -
  obtain ver kind ident hk sn sub p
    where f: "f = header92 ver kind ident hk sn sub (length p) @ p"
      and l: "length ident = 32" "length sub = 32" "length p < 2 ^ 32" "int (length p) \<le> m"
      and v: "ver = 4 \<and> 80 \<le> length p \<or> ver = 5 \<and> sub = ident \<or> ver = 6"
    using assms unfolding sent_frame_def by blast
  have "sink_frame m (header92 ver kind ident hk sn sub (length p), p)"
    using l v by (intro sink_frame_header92) auto
  moreover have "frame_log ob dir (header92 ver kind ident hk sn sub (length p), p) = sent_log dir f"
    using v unfolding f sent_log_def Let_def header92_ident [OF l(1,2)]
    by (auto simp: frame_log_header92 [OF l(1,2)])
  ultimately show ?thesis using f by blast
qed

lemma anchor_sent:
  assumes "anchor_frame ob sz f" and "sz \<le> m" and "sz < 2 ^ 32"
  shows "sent_frame m f"
proof -
  obtain t txid where f: "length txid = 32" "int (length t) = sz"
    "f = header92 6 0 txid 0 0 (replicate 32 0) (length t) @ t"
    using assms(1) by (auto simp: anchor_frame_def)
  have "length t < 2 ^ 32" using f(2) assms(3) by simp
  moreover have "length (replicate 32 0 :: bytes) = 32" by simp
  ultimately show ?thesis unfolding sent_frame_def using f assms(2) by blast
qed

lemma data_sent:
  assumes "\<forall>h \<in> set hs. length h = 32" and "length (subtree_payload k hs) < 2 ^ 32"
    and "int (length (subtree_payload k hs)) \<le> m"
  shows "sent_frame m (data_frame k hs)"
  unfolding sent_frame_def data_frame_def using length_tree_root [OF assms(1)] assms(2,3) by blast

lemma block_sent:
  assumes "block_pair ob chk n (a, c)" and "116 + 32 * n < 2 ^ 32" and "int (116 + 32 * n) \<le> m" and "191 \<le> m"
  shows "sent_frame m a" "sent_frame m c"
proof -
  obtain hdr hs t txid where h: "length hdr = 80" "length hs = n" "\<forall>h \<in> set hs. length h = 32"
    and t: "128 \<le> length t" "length t < 192" "length txid = 32"
    and a: "a = header92 4 1 (sha256d hdr) 0 0 (replicate 32 0) (116 + 32 * n) @ hdr @ txid @ be 4 n @ concat hs"
    and c: "c = header92 4 2 txid 0 0 (replicate 32 0) (length t) @ t"
    using assms(1) unfolding block_pair_def prod.case by blast
  let ?p = "hdr @ txid @ be 4 n @ concat hs"
  have z: "length (replicate 32 0 :: bytes) = 32" by simp
  have l: "length ?p = 116 + 32 * n" using h t(3) length_concat_32 [OF h(3)] by simp
  have "a = header92 4 1 (sha256d hdr) 0 0 (replicate 32 0) (length ?p) @ ?p" unfolding a l ..
  moreover have "80 \<le> length ?p" "length ?p < 2 ^ 32" "int (length ?p) \<le> m" using l assms(2,3) by simp_all
  ultimately show "sent_frame m a" unfolding sent_frame_def using z length_sha256d by blast
  have "80 \<le> length t" "length t < 2 ^ 32" "int (length t) \<le> m" using t assms(4) by simp_all
  then show "sent_frame m c" unfolding sent_frame_def using c z t(3) by blast
qed

text \<open>The frames a run of one of the commands writes.\<close>

inductive framed_run :: "objfmt_pkg \<Rightarrow> int \<Rightarrow> bytes list \<Rightarrow> bool" where
  anchor: "txid_doc ob raw_obj \<Longrightarrow> sz \<le> m \<Longrightarrow> sz < 2 ^ 32 \<Longrightarrow>
    framed_run ob m (written (anchor_main ob dial_ok snd_ok seed cnt sz))"
| data: "msg_kind s = Some (k, z) \<Longrightarrow> int (32 + node_count nc ps z * z) \<le> m \<Longrightarrow>
    32 + node_count nc ps z * z < 2 ^ 32 \<Longrightarrow>
    data_main crand True (\<lambda>_. True) f s nc ps sc = Finished fs \<Longrightarrow> framed_run ob m fs"
| block: "txid_doc ob raw_obj \<Longrightarrow> int (116 + 32 * n) \<le> m \<Longrightarrow> 191 \<le> m \<Longrightarrow> 116 + 32 * n < 2 ^ 32 \<Longrightarrow>
    announce_main ob chk crand True (\<lambda>_. True) blocks n coinbase = Finished fs \<Longrightarrow> framed_run ob m fs"

lemma framed_run_sent:
  assumes "framed_run ob m fs"
  shows "\<forall>f \<in> set fs. sent_frame m f"
  using assms
proof cases
  case (anchor sz dial_ok snd_ok seed cnt)
  have "\<forall>f \<in> set fs. anchor_frame ob sz f"
    unfolding anchor(1) using anchor_loop_frames [OF anchor(2), of "[]" sz] by (simp add: anchor_main_def)
  then show ?thesis using anchor_sent anchor(3,4) by blast
next
  case (data s k z nc ps crand f sc)
  let ?n = "node_count nc ps z"
  note kz = msg_kind_ok [OF data(1)]
  have "fs = map (\<lambda>i. data_frame k (rand_hashes crand (draw_at ?n (nat sc) i) ?n)) [0..<nat f]"
    using data(4) data(1)
      data_loop_finishes [OF kz node_count_pos [of nc ps z], of "\<lambda>_. True"
        "map (\<lambda>j. sub_at crand k ?n (32 * ?n * j)) [0..<nat sc]" crand "nat sc" "32 * ?n * nat sc" 0 "nat f" "[]"]
      data_loop_finishes [OF kz node_count_pos [of nc ps z], of "\<lambda>_. True" "[]" crand 0 0 0 "nat f" "[]"]
    by (simp add: data_main_def Let_def pool_loop_closed [OF kz node_count_pos] split: if_splits)
  moreover have "sent_frame m (data_frame k (rand_hashes crand j ?n))" for j
  proof -
    have h: "\<forall>h \<in> set (rand_hashes crand j ?n). length h = 32" using rand_hashes_32 by blast
    have "length (subtree_payload k (rand_hashes crand j ?n)) = 32 + ?n * z"
      using length_subtree_payload [OF kz h] by (simp add: rand_hashes_def)
    then show ?thesis using data_sent [OF h] data(2,3) by simp
  qed
  ultimately show ?thesis by simp
next
  case (block n chk crand blocks coinbase)
  obtain ps where ps: "fs = concat (map (\<lambda>(a, c). if coinbase then [a, c] else [a]) ps)"
    "\<forall>p \<in> set ps. block_pair ob chk n p"
    using announce_loop_finishes [OF block(1), of "\<lambda>_. True" chk crand n coinbase "nat blocks" 0 32
        "tx_New (mustRand crand 0 32)" "[]"] block(5) by (auto simp: announce_main_def)
  show ?thesis
  proof
    fix f assume "f \<in> set fs"
    then obtain a c where "(a, c) \<in> set ps" "f = a \<or> f = c" unfolding ps(1) by (auto split: if_splits)
    with ps(2) block_sent [OF _ block(4,2,3)] show "sent_frame m f" by blast
  qed
qed

text \<open>C34: The framed senders through the sink. The frames written by any runs of \<open>send-anchor-frame\<close>
  (finished or not), \<open>send-subtree-data\<close> and \<open>send-block-announce\<close>, in any order on one connection, are
  split again into exactly those frames: the pump ends at the end of the stream without an error, relays the
  stream verbatim, and prints one line and makes one record per frame, with the BRC number and class of its
  version, its exact size, and its identifier: the header's for anchor and subtree frames, the double hash of
  the first 80 payload bytes for block frames.\<close>

theorem senders_through_sink:
  assumes "header_doc P" and "relay_up fwd" and "list_all (framed_run ob m) runs"
  shows "\<exists>out. pumpFramed P ob dir fwd m (concat (concat runs)) End_EOF = Some (E_EOF, out) \<and>
     concat (po_fwd out) = (if fwd \<noteq> None then concat (concat runs) else []) \<and>
     po_lines out = map (fst \<circ> sent_log dir) (concat runs) \<and>
     po_ops out = map (snd \<circ> sent_log dir) (concat runs)"
proof -
  have "\<forall>f \<in> set (concat runs). sent_frame m f"
    using assms(3) framed_run_sent by (auto simp: list_all_iff)
  then have "\<forall>f \<in> set (concat runs). \<exists>h p. f = h @ p \<and> sink_frame m (h, p) \<and> frame_log ob dir (h, p) = sent_log dir f"
    using sent_frame_log by blast
  from pump_known_frames [OF assms(1,2) this] show ?thesis by blast
qed

lemma ref_header_doc: "header_doc ref_frame"
  by (simp add: header_doc_def ref_frame_def)

theorem senders_through_sink_witness:
  "\<exists>out. pumpFramed ref_frame ref_objfmt dirSent (Some (\<lambda>_. True)) 1000
       (concat (concat [written (anchor_main ref_objfmt True (\<lambda>_. True) (replicate 32 1) 2 60)])) End_EOF = Some (E_EOF, out) \<and>
     concat (po_fwd out) = concat (written (anchor_main ref_objfmt True (\<lambda>_. True) (replicate 32 1) 2 60))"
proof -
  have "framed_run ref_objfmt 1000 (written (anchor_main ref_objfmt True (\<lambda>_. True) (replicate 32 1) 2 60))"
    by (rule framed_run.anchor [OF ref_objfmt_txid]) simp_all
  then have "list_all (framed_run ref_objfmt 1000) [written (anchor_main ref_objfmt True (\<lambda>_. True) (replicate 32 1) 2 60)]"
    by simp
  moreover have "relay_up (Some (\<lambda>_. True))" by (simp add: relay_up_def)
  ultimately show ?thesis using senders_through_sink [OF ref_header_doc, where dir = dirSent] by fastforce
qed

text \<open>
  A coinbase frame (BRC-131, message type 2) is logged and counted as a block, under the double hash of the
  first 80 bytes of the transaction; its own identifier, in the header, does not appear.
\<close>

lemma coinbase_logged_as_block:
  assumes "length txid = 32" and "128 \<le> length t"
  shows "sent_log dir (header92 4 2 txid 0 0 (replicate 32 0) (length t) @ t) =
     ((dir, ''BRC-131'', ''block'', shortID (sha256d (take 80 t)), ''size='' @ byteSize (int (length t))),
      Op_record dir ''block'' (int (92 + length t)) 0 0)"
  unfolding sent_log_def Let_def using header92_ident [OF assms(1), of "replicate 32 0"] by simp

section \<open>The generator\<close>

definition gen_log :: "objfmt_pkg \<Rightarrow> string \<Rightarrow> bytes \<Rightarrow> line \<times> stats_op" where
  "gen_log ob dir f =
     (let txid = take 32 (drop 8 f); t = drop 92 f in
      ((dir, if obj_IsEF ob t then ''BRC-128'' else ''BRC-124'', ''txn'',
        shortID (if allZero txid then (case obj_TxID ob t of None \<Rightarrow> txid | Some i \<Rightarrow> i) else txid),
        ''size='' @ byteSize (int (length t))),
       Op_record dir ''txn'' (int (length f)) 0 0))"

definition generated :: "objfmt_pkg \<Rightarrow> SendConfig \<Rightarrow> Pool \<Rightarrow> bytes \<Rightarrow> bool" where
  "generated ob cfg pool f \<longleftrightarrow>
     (\<exists>hash src plain n rnd. good_frame ob hash src cfg pool plain n rnd (Built f))"

lemma generated_log:
  assumes "txid_doc ob tx_obj" and "send_ok cfg pool" and "c_FrameVersion cfg = V2" and "c_PayloadSize cfg \<le> m"
    and "generated ob cfg pool f"
  shows "\<exists>h p. f = h @ p \<and> sink_frame m (h, p) \<and> frame_log ob dir (h, p) = gen_log ob dir f"
    "int (length f) = 92 + c_PayloadSize cfg"
proof -
  obtain hash src plain n rnd where "good_frame ob hash src cfg pool plain n rnd (Built f)"
    using assms(5) by (auto simp: generated_def)
  then obtain t cid txid sub sn where tx: "if useEF (c_PayloadFormat cfg) n then ef_obj t else raw_obj t"
    and t2: "int (length t) = c_PayloadSize cfg" "obj_TxID ob t = Some cid"
    and x: "txid = corrupt_txid (c_CorruptTxIDRate cfg) rnd cid"
    and sub: "sub = Pool_Pick pool (word_of_nat (un_be (take 8 txid)))"
    and f0: "frame_result.Built f = frame_result.Built (frame_of cfg txid
         (if c_Mode cfg = ModeDirectMulticast then hash src (groupIdx (c_ShardBits cfg) txid) sub else 0) sn sub t)"
    unfolding good_frame_def by blast
  define hk where "hk = (if c_Mode cfg = ModeDirectMulticast then hash src (groupIdx (c_ShardBits cfg) txid) sub else 0)"
  have t: "tx_obj t" "int (length t) = c_PayloadSize cfg" "obj_TxID ob t = Some cid"
    using tx t2 by (simp_all add: tx_obj_def split: if_splits)
  have f1: "f = frame_of cfg txid hk sn sub t" using f0 by (simp add: hk_def)
  have l: "length txid = 32" "length sub = 32"
  proof -
    have "length cid = 32" using assms(1) t(1,3) unfolding txid_doc_def by fastforce
    then show "length txid = 32" by (simp add: x)
    show "length sub = 32" unfolding sub using assms(2) by (intro Pick_length) (auto simp: send_ok_def)
  qed
  have f: "f = header92 2 0 txid hk sn sub (length t) @ t"
    using f1 assms(3) by (simp add: frame_of_def V1_def V2_def)
  have "c_PayloadSize cfg \<le> 10 * 1024 * 1024" using assms(2) by (simp add: send_ok_def)
  then have "length t < 2 ^ 32" using t(2) by simp
  then have "sink_frame m (header92 2 0 txid hk sn sub (length t), t)"
    using t(2) assms(4) l by (intro sink_frame_header92) simp_all
  moreover have "frame_log ob dir (header92 2 0 txid hk sn sub (length t), t) = gen_log ob dir f"
    unfolding f gen_log_def Let_def header92_ident [OF l] frame_log_header92 [OF l] ..
  ultimately show "\<exists>h p. f = h @ p \<and> sink_frame m (h, p) \<and> frame_log ob dir (h, p) = gen_log ob dir f"
    using f by blast
  show "int (length f) = 92 + c_PayloadSize cfg" unfolding f header92_ident(4) [OF l] using t(2) by simp
qed

lemma gen_ops:
  assumes "txid_doc ob tx_obj" and "send_ok cfg pool" and "c_FrameVersion cfg = V2" and "c_PayloadSize cfg \<le> m"
    and "list_all (generated ob cfg pool) (map fst fs)"
  shows "map (snd \<circ> gen_log ob dir) (map fst fs) =
      replicate (length fs) (Op_record dir ''txn'' (92 + c_PayloadSize cfg) 0 0)"
proof -
  have gen: "generated ob cfg pool f" if "f \<in> set (map fst fs)" for f
    using assms(5) that unfolding list_all_iff by blast
  have "map (snd \<circ> gen_log ob dir) (map fst fs) =
      map (\<lambda>_. Op_record dir ''txn'' (92 + c_PayloadSize cfg) 0 0) (map fst fs)"
    using generated_log(2) [OF assms(1-4) gen] by (intro map_cong) (simp_all add: gen_log_def Let_def)
  then show ?thesis by (simp add: map_replicate_const)
qed

lemma demo_generated:
  "\<exists>f. generated ref_objfmt (demo_cfg ModeUnicast) \<lparr>ids = []\<rparr> f"
  "send_ok (demo_cfg ModeUnicast) \<lparr>ids = []\<rparr>" "c_FrameVersion (demo_cfg ModeUnicast) = V2"
  "c_PayloadSize (demo_cfg ModeUnicast) = 512"
proof -
  let ?cfg = "demo_cfg ModeUnicast" and ?pool = "\<lparr>ids = []\<rparr> :: Pool"
  obtain t b' where t: "Build (tx_New (replicate 32 1)) [] 512 = (Inr t, b')"
    using Build_total [of 512 "tx_New (replicate 32 1)" "[]"] by auto
  have ok: "raw_obj t" "int (length t) = 512" using Build_ok [OF t] by simp_all
  let ?id = "sha256d t"
  let ?sub = "Pool_Pick ?pool (word_of_nat (un_be (take 8 ?id)))"
  have "good_frame ref_objfmt (\<lambda>s g i. 0) [] ?cfg ?pool True 0 None (Built (frame_of ?cfg ?id 0 0 ?sub t))"
    unfolding good_frame_def
    by (rule exI [of _ t], rule exI [of _ ?id], rule exI [of _ ?id], rule exI [of _ ?sub], rule exI [of _ 0])
      (simp add: ok demo_cfg_def useEF_def ref_objfmt_def corrupt_txid_def)
  then show "\<exists>f. generated ref_objfmt ?cfg ?pool f" unfolding generated_def by blast
  show "send_ok ?cfg ?pool" "c_FrameVersion ?cfg = V2" "c_PayloadSize ?cfg = 512"
    by (simp_all add: send_ok_def demo_cfg_def MinPayloadSize_def MinEFSize_def)
qed

text \<open>The generator through the sink. The version-2 frames of workers with an accepted configuration, sent
  over the TCP lane (its buffering included) on a connection that does not fail, reach the pump whole:
  it relays them verbatim, ends without an error, and logs each frame as one transaction of the
  configured size, BRC-128 when the payload is extended, under the TxID of its header (or the payload's
  own when the header has none).\<close>

theorem generator_through_sink:
  assumes "header_doc P" and "relay_up fwd" and "txid_doc ob tx_obj" and "send_ok cfg pool"
    and "c_FrameVersion cfg = V2" and "c_PayloadSize cfg \<le> m"
    and "list_all (generated ob cfg pool) (map fst fs)" and "quiet net" and "tcp_lane net pps fs = (oks, w)"
  shows "\<exists>out. pumpFramed P ob dir fwd m (bw_out w) End_EOF = Some (E_EOF, out) \<and>
     concat (po_fwd out) = (if fwd \<noteq> None then concat (map fst fs) else []) \<and>
     po_ops out = replicate (length fs) (Op_record dir ''txn'' (92 + c_PayloadSize cfg) 0 0) \<and>
     po_lines out = map (fst \<circ> gen_log ob dir \<circ> fst) fs"
proof -
  have out: "bw_out w = concat (map fst fs)" by (rule tcp_lane_quiet [OF assms(8,9)])
  have gen: "generated ob cfg pool f" if "f \<in> set (map fst fs)" for f
    using assms(7) that unfolding list_all_iff by blast
  note log = generated_log [OF assms(3-6) gen]
  note ops = gen_ops [OF assms(3-7)]
  have "\<forall>f \<in> set (map fst fs). \<exists>h p. f = h @ p \<and> sink_frame m (h, p) \<and> frame_log ob dir (h, p) = gen_log ob dir f"
    using log(1) by blast
  from pump_known_frames [OF assms(1,2) this] obtain r
    where r: "pumpFramed P ob dir fwd m (concat (map fst fs)) End_EOF = Some (E_EOF, r)"
      "po_lines r = map (fst \<circ> gen_log ob dir) (map fst fs)" "po_ops r = map (snd \<circ> gen_log ob dir) (map fst fs)"
      "concat (po_fwd r) = (if fwd \<noteq> None then concat (map fst fs) else [])"
    by blast
  have lines: "po_lines r = map (fst \<circ> gen_log ob dir \<circ> fst) fs" unfolding r(2) map_map comp_assoc ..
  show ?thesis unfolding out by (rule exI [of _ r], intro conjI, fact r(1), fact r(4), simp only: r(3) ops, fact lines)
qed

theorem generator_through_sink_witness:
  "\<exists>f out. generated ref_objfmt (demo_cfg ModeUnicast) \<lparr>ids = []\<rparr> f \<and>
     pumpFramed ref_frame ref_objfmt dirRecv None 1000 (bw_out (snd (tcp_lane (\<lambda>_. None) 100 [(f, 1), (f, 0)]))) End_EOF =
       Some (E_EOF, out) \<and>
     po_ops out = [Op_record dirRecv ''txn'' 604 0 0, Op_record dirRecv ''txn'' 604 0 0]"
proof -
  let ?cfg = "demo_cfg ModeUnicast" and ?pool = "\<lparr>ids = []\<rparr> :: Pool"
  obtain f where f: "generated ref_objfmt ?cfg ?pool f" using demo_generated(1) by blast
  obtain oks w where w: "tcp_lane (\<lambda>_. None) 100 [(f, 1), (f, 0)] = (oks, w)"
    by (cases "tcp_lane (\<lambda>_. None) 100 [(f, 1), (f, 0)]")
  have up: "relay_up None" by (simp add: relay_up_def)
  have send: "send_ok ?cfg ?pool" "c_FrameVersion ?cfg = V2" "c_PayloadSize ?cfg \<le> 1000"
    using demo_generated(2-4) by simp_all
  have all: "list_all (generated ref_objfmt ?cfg ?pool) (map fst [(f, 1 :: nat), (f, 0)])" using f by simp
  have quiet: "quiet (\<lambda>_. None)" by (simp add: quiet_def)
  from generator_through_sink [OF ref_header_doc up ref_objfmt_txid send all quiet w, of dirRecv] obtain out
    where "pumpFramed ref_frame ref_objfmt dirRecv None 1000 (bw_out w) End_EOF = Some (E_EOF, out)"
      "po_ops out = replicate 2 (Op_record dirRecv ''txn'' (92 + c_PayloadSize ?cfg) 0 0)"
    by (auto simp: numeral_2_eq_2)
  with f w show ?thesis by (intro exI [of _ f] exI [of _ out]) (simp add: demo_cfg_def numeral_2_eq_2)
qed

end
