(* ===== verification/Sink_Summary.thy ===== *)
theory Sink_Summary
  imports Sink_Stats Sink_Format
begin

text \<open>
  \<open>cmd/tunnel-sink\<close>, the summary printed on exit: the connection and error counters, the submit ports when
  the relay is on, and the table over the two directions and four buckets. The text around them is
  in \<open>Sink_Report\<close>.
\<close>

type_synonym row = "string \<times> string \<times> string \<times> string \<times> string \<times> string \<times> string \<times> string"

definition row_extra :: "string \<Rightarrow> laneTotals \<Rightarrow> string" where
  "row_extra b lt =
     (if b = ''subtree'' then group (unat (nodes lt)) @ '' nodes''
      else if b = ''block'' then group (unat (subtrees lt)) @ '' subtrees''
      else [])"

definition summary_row :: "string \<Rightarrow> string \<Rightarrow> laneTotals \<Rightarrow> row" where
  "summary_row dir b lt =
     (dir, b, group (unat (objects lt)), group (unat (lt_bytes lt)),
      byteSize (sint (lt_bytes lt div objects lt)), byteSize (minSize lt), byteSize (maxSize lt), row_extra b lt)"

definition lane_pairs :: "(string \<times> string) list" where
  "lane_pairs = concat (map (\<lambda>dir. map (\<lambda>b. (dir, b)) statBuckets) statDirs)"

definition nonEmpty :: "stats \<Rightarrow> bool" where
  "nonEmpty s = list_ex (\<lambda>(dir, b).
     case lanes s (lane_key dir b) of None \<Rightarrow> False | Some lt \<Rightarrow> 0 < objects lt) lane_pairs"

text \<open>\<open>None\<close> is the line \<open>no objects observed\<close>.\<close>

definition summary_table :: "stats \<Rightarrow> row list option" where
  "summary_table s =
     (if \<not> nonEmpty s then None
      else Some (List.map_filter (\<lambda>(dir, b).
        case lanes s (lane_key dir b) of
          None \<Rightarrow> None
        | Some lt \<Rightarrow> if objects lt = 0 then None else Some (summary_row dir b lt)) lane_pairs))"

record summary =
  su_conns :: int
  su_open :: int
  su_submit :: "(int \<times> int \<times> int) option"
  su_parseErrs :: int
  su_rows :: "row list option"

definition printSummary :: "stats \<Rightarrow> (int \<times> int \<times> int) option \<Rightarrow> summary" where
  "printSummary s relay =
     \<lparr>su_conns = conns s, su_open = active s, su_submit = relay, su_parseErrs = parseErrs s, su_rows = summary_table s\<rparr>"

section \<open>What the table shows\<close>

text \<open>The objects and sizes of a session fit the counters: below \<open>2 ^ 63\<close> bytes in any lane.\<close>

definition session_fits :: "stats_op list \<Rightarrow> bool" where
  "session_fits ops \<longleftrightarrow> sizes_ok ops \<and>
     (\<forall>k. int (length (objs_of k ops)) < 2 ^ 63 \<and> sum_list (map fst (objs_of k ops)) < 2 ^ 63)"

lemma sum_between:
  fixes os :: "(int \<times> 'a) list"
  assumes "\<forall>x \<in> set os. lo \<le> fst x \<and> fst x \<le> hi"
  shows "int (length os) * lo \<le> sum_list (map fst os)" "sum_list (map fst os) \<le> int (length os) * hi"
  using assms by (induction os) (auto simp: algebra_simps)

lemma mean_between:
  fixes os :: "(int \<times> 'a) list"
  assumes "os \<noteq> []"
  shows "Min (fst ` set os) \<le> sum_list (map fst os) div int (length os)"
    "sum_list (map fst os) div int (length os) \<le> Max (fst ` set os)"
proof -
  let ?n = "int (length os)"
  let ?lo = "Min (fst ` set os)" and ?hi = "Max (fst ` set os)"
  have n: "0 < ?n" using assms by simp
  have b: "\<forall>x \<in> set os. ?lo \<le> fst x \<and> fst x \<le> ?hi" by simp
  note s = sum_between [OF b]
  show "?lo \<le> sum_list (map fst os) div ?n"
    using s(1) n by (metis zdiv_mono1 nonzero_mult_div_cancel_left less_irrefl)
  show "sum_list (map fst os) div ?n \<le> ?hi"
    using s(2) n by (metis zdiv_mono1 nonzero_mult_div_cancel_left less_irrefl)
qed

lemma unat_of_int_small:
  assumes "0 \<le> n" and "n < 2 ^ 63"
  shows "int (unat (word_of_int n :: u64)) = n" "sint (word_of_int n :: u64) = n"
proof -
  show "int (unat (word_of_int n :: u64)) = n"
    using assms by (simp add: unsigned_of_int take_bit_int_eq_self)
  show "sint (word_of_int n :: u64) = n"
    using assms by (simp add: sint_sbintrunc' signed_take_bit_int_eq_self)
qed

lemma map_filter_none: "List.map_filter f xs \<noteq> [] \<longleftrightarrow> list_ex (\<lambda>x. f x \<noteq> None) xs"
  by (auto simp: List.map_filter_def filter_empty_conv list_ex_iff)

lemma row_of_totals:
  assumes "os \<noteq> []" and "\<forall>x \<in> set os. 0 \<le> fst x"
    and len: "int (length os) < 2 ^ 63" and sum: "sum_list (map fst os) < 2 ^ 63"
  shows "objects (totals os) \<noteq> 0"
    "summary_row dir b (totals os) =
       (dir, b, group (length os), group (nat (sum_list (map fst os))),
        byteSize (sum_list (map fst os) div int (length os)),
        byteSize (Min (fst ` set os)), byteSize (Max (fst ` set os)), row_extra b (totals os))"
proof -
  let ?n = "int (length os)" and ?s = "sum_list (map fst os)"
  have n: "0 < ?n" using assms(1) by simp
  have s: "0 \<le> ?s" using assms(2) by (induction os) auto
  have on: "objects (totals os) = word_of_int ?n" "lt_bytes (totals os) = word_of_int ?s"
    by (simp_all add: totals_def)
  note un = unat_of_int_small [of ?n, OF less_imp_le [OF n] len]
  note us = unat_of_int_small [of ?s, OF s sum]
  have q: "0 \<le> ?s div ?n" "?s div ?n < 2 ^ 63"
  proof -
    show "0 \<le> ?s div ?n" using n s by (simp add: pos_imp_zdiv_nonneg_iff)
    have "?s div ?n \<le> ?s div 1" using zdiv_mono2 [OF s zero_less_one, of ?n] n by simp
    then show "?s div ?n < 2 ^ 63" using sum by simp
  qed
  have "uint (word_of_int ?s div word_of_int ?n :: u64) = ?s div ?n"
    using un(1) us(1) by (simp add: uint_div_distrib)
  then have d: "(word_of_int ?s div word_of_int ?n :: u64) = word_of_int (?s div ?n)"
    by (metis word_of_int_uint)
  have ln: "unat (objects (totals os)) = length os" using un(1) unfolding on(1) by (rule of_nat_eq_iff [THEN iffD1])
  then show "objects (totals os) \<noteq> 0" using n by auto
  have "unat (lt_bytes (totals os)) = nat ?s" using us(1) unfolding on(2) by (metis nat_int)
  then show "summary_row dir b (totals os) =
       (dir, b, group (length os), group (nat ?s), byteSize (?s div ?n),
        byteSize (Min (fst ` set os)), byteSize (Max (fst ` set os)), row_extra b (totals os))"
    using ln d unat_of_int_small(2) [OF q] by (simp add: summary_row_def on totals_def [of os])
qed

lemma table_exact:
  assumes "session_fits ops"
  shows "summary_table (sink_session ops) =
     (let rows = List.map_filter (\<lambda>(dir, b).
        let os = objs_of (lane_key dir b) ops; sz = map fst os in
        if os = [] then None
        else Some (dir, b, group (length os), group (nat (sum_list sz)), byteSize (sum_list sz div int (length os)),
                   byteSize (Min (set sz)), byteSize (Max (set sz)), row_extra b (totals os))) lane_pairs
      in if rows = [] then None else Some rows)"
proof -
  let ?f = "\<lambda>(dir, b).
        let os = objs_of (lane_key dir b) ops; sz = map fst os in
        if os = [] then None
        else Some (dir, b, group (length os), group (nat (sum_list sz)), byteSize (sum_list sz div int (length os)),
                   byteSize (Min (set sz)), byteSize (Max (set sz)), row_extra b (totals os))"
  let ?g = "\<lambda>(dir, b).
        case lanes (sink_session ops) (lane_key dir b) of
          None \<Rightarrow> None
        | Some lt \<Rightarrow> if objects lt = 0 then None else Some (summary_row dir b lt)"
  have ok: "sizes_ok ops" using assms by (simp add: session_fits_def)
  have g: "?g = ?f"
  proof
    fix p
    obtain dir b :: string where p: "p = (dir, b)" by (cases p)
    let ?k = "lane_key dir b"
    have nn: "\<forall>x \<in> set (objs_of ?k ops). 0 \<le> fst x" using objs_of_ok [OF ok] by blast
    have "int (length (objs_of ?k ops)) < 2 ^ 63" "sum_list (map fst (objs_of ?k ops)) < 2 ^ 63"
      using assms unfolding session_fits_def by blast+
    note r = row_of_totals [OF _ nn this]
    show "?g p = ?f p"
      unfolding p using r(1) r(2) [of dir b] by (simp add: session_lanes [OF ok] Let_def)
  qed
  have ne: "nonEmpty (sink_session ops) \<longleftrightarrow> List.map_filter ?g lane_pairs \<noteq> []"
    unfolding map_filter_none nonEmpty_def
    by (rule list_ex_cong) (auto simp: word_neq_0_conv summary_row_def split: option.splits if_splits)
  show ?thesis unfolding summary_table_def using ne by (simp only: g Let_def split: if_splits) blast
qed

text \<open>The summary reports the session: the connections opened, those still open and the parse errors; and,
  when no lane saw \<open>2 ^ 63\<close> bytes, the table has exactly one row for
  each direction and class under which an object was recorded, in the fixed order, showing the true number of
  objects, their total size, its true mean (rounded down, and between the minimum and the maximum shown)
  and the true extremes; it is replaced by \<open>no objects observed\<close> exactly when there are none.\<close>

theorem summary_exact:
  assumes "session_fits ops"
  shows "printSummary (sink_session ops) relay =
     (let rows = List.map_filter (\<lambda>(dir, b).
        let os = objs_of (lane_key dir b) ops; sz = map fst os in
        if os = [] then None
        else Some (dir, b, group (length os), group (nat (sum_list sz)), byteSize (sum_list sz div int (length os)),
                   byteSize (Min (set sz)), byteSize (Max (set sz)), row_extra b (totals os))) lane_pairs
      in
      \<lparr>su_conns = count_op Op_open ops, su_open = count_op Op_open ops - count_op Op_close ops, su_submit = relay,
       su_parseErrs = count_op Op_parse ops, su_rows = (if rows = [] then None else Some rows)\<rparr>)"
  unfolding printSummary_def table_exact [OF assms] Let_def by (simp add: session_counts)

theorem summary_exact_witness:
  "printSummary (sink_session [Op_open, Op_record dirRecv ''subtree'' 72 1 0, Op_record dirRecv ''subtree'' 2048 1500 0]) None =
     \<lparr>su_conns = 1, su_open = 1, su_submit = None, su_parseErrs = 0, su_rows =
     Some [(dirRecv, ''subtree'', ''2'', ''2,120'', byteSize 1060, byteSize 72, byteSize 2048, ''1,501 nodes'')]\<rparr>"
proof -
  let ?ops = "[Op_open, Op_record dirRecv ''subtree'' 72 1 0, Op_record dirRecv ''subtree'' 2048 1500 0]"
  have os: "objs_of k ?ops = (if k = ''RECV/subtree'' then [(72, 1, 0), (2048, 1500, 0)] else [])" for k
    by (auto simp: objs_of_def List.map_filter_def lane_key_def dirRecv_def)
  have fits: "session_fits ?ops"
    by (simp add: session_fits_def sizes_ok_def os del: objs_of_def)
  show ?thesis
    unfolding summary_exact [OF fits] os
    by (simp add: lane_pairs_def statDirs_def statBuckets_def dirRecv_def dirSent_def lane_key_def
        List.map_filter_def Let_def count_op_def group_sep3 dec.simps digit_def row_extra_def totals_def)
qed

end
