(* ===== verification/Sink.thy ===== *)
theory Sink
  imports Sink_Sniff Sink_Lanes Sink_Frames Sink_Summary
begin

text \<open>
  \<open>cmd/tunnel-sink\<close>, the connection handlers: delivery (received) and the submit relay (sent), each from the
  sniff through the pump to the end of the connection, and the session they share. A connection is the
  list of its reads and the way it ends after them; the relay's dial and writes are inputs.
\<close>

record conn =
  cn_reads :: "(bytes \<times> read_end) list"
  cn_end :: stream_end

definition cn_bytes :: "(bytes \<times> read_end) list \<Rightarrow> bytes" where
  "cn_bytes reads = concat (map fst reads)"

text \<open>
  What a handler has done: its statistics operations, its log lines, the port it dialled, the bytes relayed,
  and whether it has returned (\<open>False\<close>: still waiting for a read to classify the connection).
\<close>

record handled =
  hd_ops :: "stats_op list"
  hd_lines :: "line list"
  hd_port :: "int option"
  hd_fwd :: "bytes list"
  hd_done :: bool

text \<open>The \<open>-lane\<close> flag; \<open>None\<close> is the fatal exit.\<close>

definition lane_flag :: "string \<Rightarrow> obj_class option option" where
  "lane_flag s =
     (if s = ''auto'' then Some None
      else if s = ''tx'' then Some (Some ClassTx)
      else if s = ''subtree'' then Some (Some ClassSubtree)
      else if s = ''block'' then Some (Some ClassBlock)
      else None)"

text \<open>The common end of both handlers: the pump's effects, the end of the stream, the deferred close.\<close>

definition finished :: "int option \<Rightarrow> stream_err \<times> pump_out \<Rightarrow> handled" where
  "finished port res =
     \<lparr>hd_ops = Op_open # po_ops (snd res) @ logStreamEnd (fst res) @ [Op_close], hd_lines = po_lines (snd res),
      hd_port = port, hd_fwd = po_fwd (snd res), hd_done = True\<rparr>"

definition early :: "stats_op list \<Rightarrow> int option \<Rightarrow> bool \<Rightarrow> handled" where
  "early ops port ended = \<lparr>hd_ops = Op_open # ops, hd_lines = [], hd_port = port, hd_fwd = [], hd_done = ended\<rparr>"

definition handleDelivery ::
  "frame_pkg \<Rightarrow> objfmt_pkg \<Rightarrow> obj_reader \<Rightarrow> obj_class option \<Rightarrow> int \<Rightarrow> conn \<Rightarrow> handled option" where
  "handleDelivery P ob rd forced maxObject c = do {
     (res, left) \<leftarrow> (case forced of
        Some cls \<Rightarrow> Some (SniffClass cls [], cn_reads c)
      | None \<Rightarrow> sniffClass P ob (cn_reads c));
     case res of
       SniffWait _ \<Rightarrow> Some (early [] None False)
     | SniffErr _ \<Rightarrow> Some (early [Op_parse, Op_close] None True)
     | SniffFramed pre \<Rightarrow> do {
         r \<leftarrow> pumpFramed P ob dirRecv None maxObject (pre @ cn_bytes left) (cn_end c);
         Some (finished None r) }
     | SniffClass cls pre \<Rightarrow> do {
         r \<leftarrow> pumpClassStream ob rd cls dirRecv None maxObject (pre @ cn_bytes left) (cn_end c);
         Some (finished None r) }
   }"

record submitRelay =
  txPort :: int
  subtreePort :: int
  blockPort :: int
  maxObject :: int

definition relay_port :: "submitRelay \<Rightarrow> sniff_result \<Rightarrow> int" where
  "relay_port r res =
     (case res of
        SniffClass ClassSubtree _ \<Rightarrow> subtreePort r
      | SniffClass ClassBlock _ \<Rightarrow> blockPort r
      | _ \<Rightarrow> txPort r)"

definition relay_handle ::
  "frame_pkg \<Rightarrow> objfmt_pkg \<Rightarrow> obj_reader \<Rightarrow> submitRelay \<Rightarrow> (int \<Rightarrow> bool) \<Rightarrow> (nat \<Rightarrow> bool) \<Rightarrow> conn \<Rightarrow> handled option" where
  "relay_handle P ob rd r dial_ok net c = do {
     (res, left) \<leftarrow> sniffClass P ob (cn_reads c);
     let port = relay_port r res;
     case res of
       SniffWait _ \<Rightarrow> Some (early [] None False)
     | SniffErr _ \<Rightarrow> Some (early [Op_parse, Op_close] None True)
     | SniffFramed pre \<Rightarrow>
         if \<not> dial_ok port then Some (early [Op_close] (Some port) True)
         else do {
           q \<leftarrow> pumpFramed P ob dirSent (Some net) (maxObject r) (pre @ cn_bytes left) (cn_end c);
           Some (finished (Some port) q) }
     | SniffClass cls pre \<Rightarrow>
         if \<not> dial_ok port then Some (early [Op_close] (Some port) True)
         else do {
           q \<leftarrow> pumpClassStream ob rd cls dirSent (Some net) (maxObject r) (pre @ cn_bytes left) (cn_end c);
           Some (finished (Some port) q) }
   }"

text \<open>
  \<open>ifaceFor\<close>: the interface that owns a local address, remembered per address; the system's interfaces, each
  with its addresses unless they cannot be read, are an input, \<open>None\<close> when they cannot be listed.
\<close>

type_synonym ifaces = "(string \<times> bytes list option) list option"

fun scan_ifaces :: "bytes \<Rightarrow> (string \<times> bytes list option) list \<Rightarrow> string" where
  "scan_ifaces ip [] = ''?''"
| "scan_ifaces ip ((name, addrs) # ifs) =
     (case addrs of
        None \<Rightarrow> scan_ifaces ip ifs
      | Some as \<Rightarrow> if ip \<in> set as then name else scan_ifaces ip ifs)"

definition ifaceFor :: "bytes option \<Rightarrow> ifaces \<Rightarrow> (bytes \<Rightarrow> string option) \<Rightarrow> string \<times> (bytes \<Rightarrow> string option)" where
  "ifaceFor addr ifs cache =
     (case addr of
        None \<Rightarrow> (''?'', cache)
      | Some ip \<Rightarrow>
          (case cache ip of
             Some v \<Rightarrow> (v, cache)
           | None \<Rightarrow>
               let name = (case ifs of None \<Rightarrow> ''?'' | Some l \<Rightarrow> scan_ifaces ip l) in (name, cache(ip \<mapsto> name))))"

text \<open>The first answer for an address is kept, also when the lookup failed.\<close>

lemma ifaceFor_kept:
  "fst (ifaceFor (Some ip) ifs' (snd (ifaceFor (Some ip) ifs cache))) = fst (ifaceFor (Some ip) ifs cache)"
  by (simp add: ifaceFor_def Let_def split: option.split)

section \<open>What a handler does\<close>

text \<open>
  The contract of a finished or waiting handler on a connection with bytes \<open>s\<close>: it opens its connection
  first and closes it last, once; in between are records of whole objects at the front of \<open>s\<close>, in its
  direction, each with a well-formed line, and at most one parse error; what it relays is a prefix of \<open>s\<close> that covers those objects.
\<close>

definition handler_ok :: "string \<Rightarrow> bool \<Rightarrow> bytes \<Rightarrow> handled \<Rightarrow> bool" where
  "handler_ok dir relaying s h \<longleftrightarrow>
     (\<exists>recs errs xs.
        hd_ops h = Op_open # recs @ errs @ (if hd_done h then [Op_close] else []) \<and>
        (errs = [] \<or> errs = [Op_parse] \<and> hd_done h) \<and>
        list_all2 (records dir) (map length xs) recs \<and> length (hd_lines h) = length xs \<and>
        list_all2 (line_op dir) (hd_lines h) recs \<and>
        prefix (concat xs) s \<and> prefix (concat (hd_fwd h)) s \<and>
        (if relaying then prefix (concat xs) (concat (hd_fwd h)) else hd_fwd h = []))"

lemma early_ok:
  assumes "ended \<and> (ops = [Op_parse, Op_close] \<or> ops = [Op_close]) \<or> \<not> ended \<and> ops = []"
  shows "handler_ok dir relaying s (early ops port ended)"
proof -
  have l: "list_all2 (records dir) (map length ([] :: bytes list)) []" by simp
  have p: "prefix (concat ([] :: bytes list)) s" by simp
  consider "ended" "ops = [Op_parse, Op_close]" | "ended" "ops = [Op_close]" | "\<not> ended" "ops = []"
    using assms by blast
  then show ?thesis
  proof cases
    case 1
    then show ?thesis unfolding handler_ok_def
      by (intro exI [of _ "[]"] exI [of _ "[Op_parse]"]) (simp add: early_def)
  next
    case 2
    then show ?thesis unfolding handler_ok_def
      by (intro exI [of _ "[]"]) (simp add: early_def)
  next
    case 3
    then show ?thesis unfolding handler_ok_def
      by (intro exI [of _ "[]"]) (simp add: early_def)
  qed
qed

lemma finished_ok:
  assumes "pumped dir relaying s nothing out"
  shows "handler_ok dir relaying s (finished port (err, out))"
proof -
  obtain xs ops where x: "po_ops out = ops" "list_all2 (records dir) (map length xs) ops"
    "length (po_lines out) = length xs" "prefix (concat xs) s" "prefix (concat (po_fwd out)) s"
    "if relaying then prefix (concat xs) (concat (po_fwd out)) else po_fwd out = []" "list_all2 (line_op dir) (po_lines out) ops"
    using assms unfolding pumped_def nothing_def by auto
  show ?thesis unfolding handler_ok_def
    by (rule exI [of _ ops], rule exI [of _ "logStreamEnd err"], rule exI [of _ xs])
      (use x in \<open>auto simp: finished_def logStreamEnd_def\<close>)
qed

lemma framed_runs:
  assumes "header_doc P"
  shows "\<exists>err out. pumpFramed P ob dir fwd m s e = Some (err, out) \<and> pumped dir (fwd \<noteq> None) s nothing out"
  using framed.pump_runs [where st = "(replicate (HeaderSizeV3 P) 0, s, nothing)" and P = P and ob = ob
      and dir = dir and fwd = fwd and m = m and e = e] assms
  by (auto simp: pumpFramed_def)

lemma class_runs:
  assumes "reader_doc rd"
  shows "\<exists>err out. pumpClassStream ob rd c dir fwd m s e = Some (err, out) \<and> pumped dir (fwd \<noteq> None) s nothing out"
  using bare.pump_runs [where st = "(s, nothing)" and ob = ob and c = c and dir = dir and fwd = fwd
      and m = m and e = e, OF assms]
  by (auto simp: pumpClassStream_def)

lemma sniffed_bytes:
  assumes "size_doc ob"
  shows "\<exists>res left. sniffClass P ob reads = Some (res, left) \<and> sniffed res @ cn_bytes left = cn_bytes reads"
  using sniff_loop_spec [OF assms, of P "[]" False reads]
  by (auto simp: sniffClass_def sniff_spec_def cn_bytes_def)

lemma handleDelivery_ok:
  assumes "size_doc ob" "header_doc P" "reader_doc rd"
  shows "\<exists>h. handleDelivery P ob rd forced m c = Some h \<and> handler_ok dirRecv False (cn_bytes (cn_reads c)) h"
proof -
  have "\<exists>res left. (case forced of Some cls \<Rightarrow> Some (SniffClass cls [], cn_reads c)
      | None \<Rightarrow> sniffClass P ob (cn_reads c)) = Some (res, left) \<and> sniffed res @ cn_bytes left = cn_bytes (cn_reads c)"
    using sniffed_bytes [OF assms(1), of P "cn_reads c"] by (cases forced) simp_all
  then obtain res left where s: "(case forced of Some cls \<Rightarrow> Some (SniffClass cls [], cn_reads c)
      | None \<Rightarrow> sniffClass P ob (cn_reads c)) = Some (res, left)"
    "sniffed res @ cn_bytes left = cn_bytes (cn_reads c)" by blast
  show ?thesis
  proof (cases res)
    case (SniffFramed pre)
    obtain err out where r: "pumpFramed P ob dirRecv None m (pre @ cn_bytes left) (cn_end c) = Some (err, out)"
      "pumped dirRecv False (pre @ cn_bytes left) nothing out"
      using framed_runs [OF assms(2), of ob dirRecv None m "pre @ cn_bytes left" "cn_end c"] by auto
    with finished_ok [OF r(2)] s SniffFramed show ?thesis by (simp add: handleDelivery_def)
  next
    case (SniffClass cls pre)
    obtain err out where r: "pumpClassStream ob rd cls dirRecv None m (pre @ cn_bytes left) (cn_end c) = Some (err, out)"
      "pumped dirRecv False (pre @ cn_bytes left) nothing out"
      using class_runs [OF assms(3), of ob cls dirRecv None m "pre @ cn_bytes left" "cn_end c"] by auto
    with finished_ok [OF r(2)] s SniffClass show ?thesis by (simp add: handleDelivery_def)
  next
    case (SniffErr buf)
    with s early_ok [of True "[Op_parse, Op_close]"] show ?thesis by (simp add: handleDelivery_def)
  next
    case (SniffWait buf)
    with s early_ok [of False "[]"] show ?thesis by (simp add: handleDelivery_def)
  qed
qed

text \<open>The port a connection belongs on, by what its first bytes were found to be.\<close>

definition class_port :: "submitRelay \<Rightarrow> sniff_result \<Rightarrow> int option" where
  "class_port r res =
     (case res of
        SniffErr _ \<Rightarrow> None
      | SniffWait _ \<Rightarrow> None
      | SniffFramed _ \<Rightarrow> Some (txPort r)
      | SniffClass cls _ \<Rightarrow>
          Some (case cls of ClassTx \<Rightarrow> txPort r | ClassSubtree \<Rightarrow> subtreePort r | ClassBlock \<Rightarrow> blockPort r))"

lemma relay_port_class:
  "class_port r (SniffFramed pre) = Some (relay_port r (SniffFramed pre))"
  "class_port r (SniffClass cls pre) = Some (relay_port r (SniffClass cls pre))"
  by (cases cls; simp add: class_port_def relay_port_def)+

lemma relay_handle_ok:
  assumes "size_doc ob" "header_doc P" "reader_doc rd"
  shows "\<exists>h res left. relay_handle P ob rd r dial_ok net c = Some h \<and> sniffClass P ob (cn_reads c) = Some (res, left) \<and>
     handler_ok dirSent True (cn_bytes (cn_reads c)) h \<and>
     hd_port h = class_port r res \<and>
     (case hd_port h of None \<Rightarrow> hd_fwd h = [] | Some p \<Rightarrow> \<not> dial_ok p \<longrightarrow> hd_fwd h = [])"
proof -
  obtain res left where s: "sniffClass P ob (cn_reads c) = Some (res, left)"
    "sniffed res @ cn_bytes left = cn_bytes (cn_reads c)"
    using sniffed_bytes [OF assms(1)] by blast
  let ?p = "relay_port r res"
  have closed: "handler_ok dirSent True t (early [Op_close] (Some ?p) True)" for t by (rule early_ok) simp
  show ?thesis
  proof (cases res)
    case (SniffFramed pre)
    note port = relay_port_class(1) [of r pre, folded SniffFramed]
    obtain err out where q: "pumpFramed P ob dirSent (Some net) (maxObject r) (pre @ cn_bytes left) (cn_end c) = Some (err, out)"
      "pumped dirSent True (pre @ cn_bytes left) nothing out"
      using framed_runs [OF assms(2), of ob dirSent "Some net" "maxObject r" "pre @ cn_bytes left" "cn_end c"] by auto
    let ?h = "if dial_ok ?p then finished (Some ?p) (err, out) else early [Op_close] (Some ?p) True"
    have "relay_handle P ob rd r dial_ok net c = Some ?h"
      using s(1) SniffFramed q(1) by (simp add: relay_handle_def Let_def)
    moreover have "handler_ok dirSent True (cn_bytes (cn_reads c)) ?h"
      using finished_ok [OF q(2)] closed s(2) SniffFramed by simp
    moreover have "hd_port ?h = class_port r res"
      "case hd_port ?h of None \<Rightarrow> hd_fwd ?h = [] | Some p \<Rightarrow> \<not> dial_ok p \<longrightarrow> hd_fwd ?h = []"
      using port by (simp_all add: finished_def early_def)
    ultimately show ?thesis using s(1) by blast
  next
    case (SniffClass cls pre)
    note port = relay_port_class(2) [of r cls pre, folded SniffClass]
    obtain err out where q: "pumpClassStream ob rd cls dirSent (Some net) (maxObject r) (pre @ cn_bytes left) (cn_end c) = Some (err, out)"
      "pumped dirSent True (pre @ cn_bytes left) nothing out"
      using class_runs [OF assms(3), of ob cls dirSent "Some net" "maxObject r" "pre @ cn_bytes left" "cn_end c"] by auto
    let ?h = "if dial_ok ?p then finished (Some ?p) (err, out) else early [Op_close] (Some ?p) True"
    have "relay_handle P ob rd r dial_ok net c = Some ?h"
      using s(1) SniffClass q(1) by (simp add: relay_handle_def Let_def)
    moreover have "handler_ok dirSent True (cn_bytes (cn_reads c)) ?h"
      using finished_ok [OF q(2)] closed s(2) SniffClass by simp
    moreover have "hd_port ?h = class_port r res"
      "case hd_port ?h of None \<Rightarrow> hd_fwd ?h = [] | Some p \<Rightarrow> \<not> dial_ok p \<longrightarrow> hd_fwd ?h = []"
      using port by (simp_all add: finished_def early_def)
    ultimately show ?thesis using s(1) by blast
  next
    case (SniffErr buf)
    with s(1) early_ok [of True "[Op_parse, Op_close]"] show ?thesis
      by (simp add: relay_handle_def early_def class_port_def Let_def)
  next
    case (SniffWait buf)
    with s(1) early_ok [of False "[]"] show ?thesis by (simp add: relay_handle_def early_def class_port_def Let_def)
  qed
qed

text \<open>C18: The submit relay is safe. For any client, however its bytes are chunked and however it, the dial and the
  edge fail, the handler comes to a result; everything it sends to the edge is a prefix, byte for byte, of what
  the client submitted, covering every object it logged. It dials exactly the port of what the sniff decided on:
  framed streams and transactions the transaction port, subtrees and blocks theirs, and when the sniff failed or
  is still waiting no port at all; and without a port, or when its dial fails, nothing is sent. A write to the edge
  that fails ends the relay and is taken to have delivered nothing.\<close>

theorem relay_safe:
  assumes "size_doc ob" "header_doc P" "reader_doc rd"
  shows "\<exists>h res left. relay_handle P ob rd r dial_ok net c = Some h \<and> sniffClass P ob (cn_reads c) = Some (res, left) \<and>
     handler_ok dirSent True (cn_bytes (cn_reads c)) h \<and>
     hd_port h =
       (case res of
          SniffErr _ \<Rightarrow> None
        | SniffWait _ \<Rightarrow> None
        | SniffFramed _ \<Rightarrow> Some (txPort r)
        | SniffClass cls _ \<Rightarrow>
            Some (case cls of ClassTx \<Rightarrow> txPort r | ClassSubtree \<Rightarrow> subtreePort r | ClassBlock \<Rightarrow> blockPort r)) \<and>
     (case hd_port h of None \<Rightarrow> hd_fwd h = [] | Some p \<Rightarrow> \<not> dial_ok p \<longrightarrow> hd_fwd h = [])"
  by (rule relay_handle_ok [OF assms, unfolded class_port_def])

theorem relay_safe_witness:
  "\<exists>h. relay_handle ref_frame ref_objfmt ref_reader \<lparr>txPort = 8725, subtreePort = 8726, blockPort = 8727, maxObject = 1000\<rparr>
       (\<lambda>p. False) (\<lambda>i. True) \<lparr>cn_reads = [([0xE3, 0xE1, 0xF3, 0xE8], R_ok)], cn_end = End_EOF\<rparr> = Some h \<and>
     hd_fwd h = []"
proof -
  let ?r = "\<lparr>txPort = 8725, subtreePort = 8726, blockPort = 8727, maxObject = 1000\<rparr>"
  let ?c = "\<lparr>cn_reads = [([0xE3, 0xE1, 0xF3, 0xE8], R_ok)], cn_end = End_EOF\<rparr>"
  obtain h res left where h: "relay_handle ref_frame ref_objfmt ref_reader ?r (\<lambda>p. False) (\<lambda>i. True) ?c = Some h"
    "case hd_port h of None \<Rightarrow> hd_fwd h = [] | Some p \<Rightarrow> \<not> False \<longrightarrow> hd_fwd h = []"
    using relay_safe [OF ref_objfmt_size ref_header_doc ref_reader_doc, of ?r "\<lambda>p. False" "\<lambda>i. True" ?c] by blast
  then have "hd_fwd h = []" by (cases "hd_port h") auto
  with h(1) show ?thesis by blast
qed

section \<open>The session\<close>

text \<open>
  A session: the handlers of its connections, in either direction, each on its own goroutine; the statistics
  see their operations in some interleaving.
\<close>

inductive handles :: "frame_pkg \<Rightarrow> objfmt_pkg \<Rightarrow> obj_reader \<Rightarrow> conn \<Rightarrow> handled \<Rightarrow> bool" where
  delivery: "handleDelivery P ob rd forced m c = Some h \<Longrightarrow> handles P ob rd c h"
| submit: "relay_handle P ob rd r dial_ok net c = Some h \<Longrightarrow> handles P ob rd c h"

lemma handles_ok:
  assumes "size_doc ob" "header_doc P" "reader_doc rd" and "handles P ob rd c h"
  shows "\<exists>dir relaying. handler_ok dir relaying (cn_bytes (cn_reads c)) h"
  using assms(4)
proof cases
  case (delivery forced m)
  with handleDelivery_ok [OF assms(1-3), of forced m c] show ?thesis by auto
next
  case (submit r dial_ok net)
  with relay_handle_ok [OF assms(1-3), of r dial_ok net c] show ?thesis by auto
qed

lemma records_no_op:
  "list_all2 (records dir) ns ops \<Longrightarrow> op \<in> {Op_open, Op_close, Op_parse} \<Longrightarrow> count (mset ops) op = 0"
  by (induction rule: list_all2_induct) (auto simp: records_def)

lemma records_sizes: "list_all2 (records dir) ns ops \<Longrightarrow> sizes_ok ops"
  by (induction rule: list_all2_induct) (auto simp: records_def sizes_ok_def)

lemma handler_counts:
  assumes "handler_ok dir relaying s h"
  shows "count_op Op_open (hd_ops h) = 1" "count_op Op_close (hd_ops h) = (if hd_done h then 1 else 0)"
    "count_op Op_parse (hd_ops h) \<in> {0, 1}" "sizes_ok (hd_ops h)"
proof -
  obtain recs errs and xs :: "bytes list" where h: "hd_ops h = Op_open # recs @ errs @ (if hd_done h then [Op_close] else [])"
    "errs = [] \<or> errs = [Op_parse] \<and> hd_done h" "list_all2 (records dir) (map length xs) recs"
    using assms unfolding handler_ok_def by blast
  note n = records_no_op [OF h(3)]
  show "count_op Op_open (hd_ops h) = 1" "count_op Op_close (hd_ops h) = (if hd_done h then 1 else 0)"
    "count_op Op_parse (hd_ops h) \<in> {0, 1}"
    using h(2) n [of Op_open] n [of Op_close] n [of Op_parse] unfolding h(1) count_op_def by auto
  show "sizes_ok (hd_ops h)"
    using records_sizes [OF h(3)] h(2) unfolding h(1) sizes_ok_def by auto
qed

lemma count_op_append: "count_op op (xs @ ys) = count_op op xs + count_op op ys"
  by (simp add: count_op_def)

lemma sizes_ok_append: "sizes_ok (xs @ ys) \<longleftrightarrow> sizes_ok xs \<and> sizes_ok ys"
  by (simp add: sizes_ok_def)

lemma session_of_handlers:
  assumes doc: "size_doc ob" "header_doc P" "reader_doc rd" and "list_all2 (handles P ob rd) cs hs"
  shows "count_op Op_open (concat (map hd_ops hs)) = int (length cs) \<and>
     count_op Op_close (concat (map hd_ops hs)) = int (length (filter hd_done hs)) \<and>
     0 \<le> count_op Op_parse (concat (map hd_ops hs)) \<and>
     count_op Op_parse (concat (map hd_ops hs)) \<le> int (length cs) \<and> sizes_ok (concat (map hd_ops hs))"
  using assms(4)
proof (induction rule: list_all2_induct)
  case Nil
  then show ?case by (simp add: count_op_def sizes_ok_def)
next
  case (Cons c cs h hs)
  obtain dir relaying where "handler_ok dir relaying (cn_bytes (cn_reads c)) h"
    using handles_ok [OF doc Cons(1)] by blast
  note k = handler_counts [OF this]
  have "count_op Op_parse (hd_ops h) = 0 \<or> count_op Op_parse (hd_ops h) = 1" using k(3) by simp
  with k(1,2,4) Cons.IH show ?case by (auto simp: count_op_append sizes_ok_append)
qed

lemma count_op_mset: "mset ops = mset ops' \<Longrightarrow> count_op op ops = count_op op ops'"
  by (simp add: count_op_def)

text \<open>The session's books. Whatever connections a session serves, in either direction, and in whatever
  order their handlers took the mutex, the statistics count every connection once, show as open exactly those
  whose handler has not returned, and count at most one parse error per connection; so when every handler
  has returned none is shown as open.\<close>

theorem session_accounting:
  assumes "size_doc ob" "header_doc P" "reader_doc rd"
    and "list_all2 (handles P ob rd) cs hs" and "mset ops = mset (concat (map hd_ops hs))"
  shows "conns (sink_session ops) = int (length cs) \<and>
     active (sink_session ops) = int (length (filter (\<lambda>h. \<not> hd_done h) hs)) \<and>
     0 \<le> parseErrs (sink_session ops) \<and> parseErrs (sink_session ops) \<le> int (length cs) \<and> sizes_ok ops"
proof -
  note c = session_of_handlers [OF assms(1-4)]
  have n: "length cs = length hs" using assms(4) by (rule list_all2_lengthD)
  have "length (filter hd_done hs) + length (filter (\<lambda>h. \<not> hd_done h) hs) = length hs"
    by (rule sum_length_filter_compl)
  moreover have "set ops = set (concat (map hd_ops hs))" by (rule mset_eq_setD [OF assms(5)])
  then have "sizes_ok ops" using c unfolding sizes_ok_def list_all_iff by metis
  ultimately show ?thesis
    using c n unfolding session_counts count_op_mset [OF assms(5)] by auto
qed

theorem session_accounting_witness:
  "\<exists>h. handleDelivery ref_frame ref_objfmt ref_reader None 1000 \<lparr>cn_reads = [], cn_end = End_EOF\<rparr> = Some h \<and>
     conns (sink_session (hd_ops h)) = 1 \<and> active (sink_session (hd_ops h)) = 1 - (if hd_done h then 1 else 0)"
proof -
  let ?c = "\<lparr>cn_reads = [], cn_end = End_EOF\<rparr>"
  obtain h where h: "handleDelivery ref_frame ref_objfmt ref_reader None 1000 ?c = Some h"
    using handleDelivery_ok [OF ref_objfmt_size ref_header_doc ref_reader_doc, of None 1000 ?c] by blast
  have "list_all2 (handles ref_frame ref_objfmt ref_reader) [?c] [h]"
    using handles.delivery [OF h] by simp
  from session_accounting [OF ref_objfmt_size ref_header_doc ref_reader_doc this, of "hd_ops h"] h
  show ?thesis by auto
qed

section \<open>A framed submission, end to end\<close>

text \<open>Reads of a healthy client: any chunking of its bytes, then the end of the stream.\<close>

definition chunked :: "bytes list \<Rightarrow> conn" where
  "chunked chunks = \<lparr>cn_reads = map (\<lambda>b. (b, R_ok)) chunks @ [([], R_fail)], cn_end = End_EOF\<rparr>"

lemma classify_short:
  assumes "size_doc ob" and "length buf < 4"
  shows "classifyBuffer ob buf False = Some None"
  using assms by (simp add: classifyBuffer_def score_loop_filter size_doc_def)

lemma sniff_framed:
  assumes doc: "size_doc ob" and "has_magic P (buf @ concat chunks)"
  shows "\<exists>pre left. sniff_loop P ob buf False (map (\<lambda>b. (b, R_ok)) chunks @ [([], R_fail)]) = Some (SniffFramed pre, left) \<and>
     pre @ cn_bytes left = buf @ concat chunks"
  using assms(2)
proof (induction chunks arbitrary: buf)
  case Nil
  then have "sniff_loop P ob buf False [([], R_fail)] = Some (SniffFramed buf, [([], R_fail)])"
    by (simp add: sniff_loop.simps [of P ob buf] has_magic_def)
  then show ?case by (simp add: cn_bytes_def)
next
  case (Cons b chunks)
  let ?left = "map (\<lambda>b. (b, R_ok)) (b # chunks) @ [([], R_fail)]"
  show ?case
  proof (cases "has_magic P buf")
    case True
    then have "sniff_loop P ob buf False ?left = Some (SniffFramed buf, ?left)"
      by (simp add: sniff_loop.simps [of P ob buf] has_magic_def)
    moreover have "buf @ cn_bytes ?left = buf @ concat (b # chunks)" by (simp add: cn_bytes_def comp_def)
    ultimately show ?thesis by blast
  next
    case False
    have "length buf < 4"
    proof (rule ccontr)
      assume "\<not> length buf < 4"
      then have "take 4 (buf @ concat (b # chunks)) = take 4 buf" by simp
      with False Cons.prems \<open>\<not> length buf < 4\<close> show False by (simp add: has_magic_def)
    qed
    then have "undecided P ob buf False"
      using False classify_short [OF doc] by (simp add: undecided_def sniffCap_def)
    from undecided_reads(2) [OF this, of b] Cons.IH [of "buf @ b"] Cons.prems show ?thesis by simp
  qed
qed

lemma framed_submission:
  assumes "size_doc ob" "header_doc P" "txid_doc ob tx_obj" and "send_ok cfg pool" "c_FrameVersion cfg = V2"
    and "c_PayloadSize cfg \<le> maxObject r" and "fs \<noteq> []" "list_all (generated ob cfg pool) fs"
    and "concat chunks = concat fs" and "dial_ok (txPort r)"
  shows "\<exists>h. relay_handle P ob rd r dial_ok (\<lambda>_. True) (chunked chunks) = Some h \<and>
     hd_port h = Some (txPort r) \<and> concat (hd_fwd h) = concat fs \<and> hd_done h \<and>
     hd_ops h = Op_open # replicate (length fs) (Op_record dirSent ''txn'' (92 + c_PayloadSize cfg) 0 0) @ [Op_close]"
proof -
  have gen: "generated ob cfg pool f" if "f \<in> set fs" for f
    using assms(8) that unfolding list_all_iff by blast
  note log = generated_log [OF assms(3-6) gen]
  have "has_magic P (concat chunks)"
  proof -
    obtain f fs' where f: "fs = f # fs'" using assms(7) by (cases fs) auto
    have "f \<in> set fs" unfolding f by simp
    from log(1) [OF this] obtain h p where hp: "f = h @ p" "sink_frame (maxObject r) (h, p)" by blast
    then have "length h = 92" "take 4 h = be 4 0xE3E1F3E8" by (auto simp: sink_frame_def frame_shape_def)
    then show ?thesis
      using assms(2) unfolding assms(9) f hp(1) by (simp add: has_magic_def header_doc_def un_be_be)
  qed
  from sniff_framed [OF assms(1), where buf = "[]" and P = P and chunks = chunks] this obtain pre left
    where s: "sniffClass P ob (cn_reads (chunked chunks)) = Some (SniffFramed pre, left)"
      "pre @ cn_bytes left = concat chunks"
    by (auto simp: sniffClass_def chunked_def)
  have "\<forall>f \<in> set fs. \<exists>h p. f = h @ p \<and> sink_frame (maxObject r) (h, p) \<and>
      frame_log ob dirSent (h, p) = gen_log ob dirSent f"
    using log(1) by blast
  moreover have "relay_up (Some (\<lambda>_. True))" by (simp add: relay_up_def)
  ultimately obtain o' where o': "pumpFramed P ob dirSent (Some (\<lambda>_. True)) (maxObject r) (concat fs) End_EOF = Some (E_EOF, o')"
    "po_ops o' = map (snd \<circ> gen_log ob dirSent) fs" "concat (po_fwd o') = concat fs"
    using pump_known_frames [OF assms(2), of "Some (\<lambda>_. True)" fs "maxObject r" ob dirSent "gen_log ob dirSent"]
    by auto
  have f0: "map fst (map (\<lambda>f. (f, 0 :: nat)) fs) = fs" by (simp add: comp_def)
  have ops: "po_ops o' = replicate (length fs) (Op_record dirSent ''txn'' (92 + c_PayloadSize cfg) 0 0)"
    using gen_ops [OF assms(3-6), where fs = "map (\<lambda>f. (f, 0 :: nat)) fs" and dir = dirSent] assms(8) o'(2) unfolding f0 by simp
  have "relay_handle P ob rd r dial_ok (\<lambda>_. True) (chunked chunks) = Some (finished (Some (txPort r)) (E_EOF, o'))"
    using s assms(9,10) o'(1) by (simp add: relay_handle_def relay_port_def Let_def chunked_def)
  then show ?thesis using o' ops by (simp add: finished_def logStreamEnd_def)
qed

text \<open>A framed submission end to end. Frames of the generator, sent over its TCP lane to the submit listener in any
  chunking whatever, are recognised by their magic, go to the transaction port, and arrive at the edge
  byte for byte; the session records each of them as one sent transaction of its exact size, and the
  connection ends without a parse error.\<close>

theorem submission_end_to_end:
  assumes "size_doc ob" "header_doc P" "txid_doc ob tx_obj" and "send_ok cfg pool" "c_FrameVersion cfg = V2"
    and "c_PayloadSize cfg \<le> maxObject r" and "fs \<noteq> []" "list_all (generated ob cfg pool) (map fst fs)"
    and "quiet net" "tcp_lane net pps fs = (oks, w)" and "concat chunks = bw_out w" and "dial_ok (txPort r)"
  shows "\<exists>h. relay_handle P ob rd r dial_ok (\<lambda>_. True) (chunked chunks) = Some h \<and>
     hd_port h = Some (txPort r) \<and> concat (hd_fwd h) = concat (map fst fs) \<and> hd_done h \<and>
     hd_ops h = Op_open # replicate (length fs) (Op_record dirSent ''txn'' (92 + c_PayloadSize cfg) 0 0) @ [Op_close]"
  using framed_submission [OF assms(1-6) _ assms(8), of chunks dial_ok rd] assms(7,11,12) tcp_lane_quiet [OF assms(9,10)]
  by simp

theorem submission_end_to_end_witness:
  "\<exists>f h. generated ref_objfmt (demo_cfg ModeUnicast) \<lparr>ids = []\<rparr> f \<and>
     relay_handle ref_frame ref_objfmt ref_reader \<lparr>txPort = 8725, subtreePort = 8726, blockPort = 8727, maxObject = 1000\<rparr>
       (\<lambda>p. True) (\<lambda>_. True) (chunked [take 2 f, drop 2 f]) = Some h \<and>
     hd_port h = Some 8725 \<and> concat (hd_fwd h) = f"
proof -
  let ?r = "\<lparr>txPort = 8725, subtreePort = 8726, blockPort = 8727, maxObject = 1000\<rparr>"
  let ?cfg = "demo_cfg ModeUnicast" and ?pool = "\<lparr>ids = []\<rparr> :: Pool"
  obtain f where f: "generated ref_objfmt ?cfg ?pool f" using demo_generated(1) by blast
  obtain oks w where w: "tcp_lane (\<lambda>_. None) 100 [(f, 0)] = (oks, w)"
    by (cases "tcp_lane (\<lambda>_. None) 100 [(f, 0)]")
  have quiet: "quiet (\<lambda>_. None)" by (simp add: quiet_def)
  have out: "concat [take 2 f, drop 2 f] = bw_out w" using tcp_lane_quiet [OF quiet w] by simp
  have size: "c_PayloadSize ?cfg \<le> maxObject ?r" using demo_generated(4) by simp
  have fs: "[(f, 0 :: nat)] \<noteq> []" "list_all (generated ref_objfmt ?cfg ?pool) (map fst [(f, 0 :: nat)])" using f by simp_all
  obtain h where "relay_handle ref_frame ref_objfmt ref_reader ?r (\<lambda>p. True) (\<lambda>_. True) (chunked [take 2 f, drop 2 f]) = Some h"
    "hd_port h = Some (txPort ?r)" "concat (hd_fwd h) = concat (map fst [(f, 0 :: nat)])"
    using submission_end_to_end [OF ref_objfmt_size ref_header_doc ref_objfmt_txid
        demo_generated(2,3) size fs quiet w out TrueI, of ref_reader] by blast
  with f show ?thesis by auto
qed

end
