(* ===== verification/Sink_Process.thy ===== *)
theory Sink_Process
  imports Sink
begin

text \<open>
  \<open>cmd/tunnel-sink\<close> as a process: the flags, the two listeners with their accept loops, one goroutine per
  connection, the signal, and the summary printed on exit. A handler touches what the connections share in a
  fixed order: it opens, then for every object prints a line and records it, then reports a parse error if
  the stream ended badly, and closes; each of these takes a mutex and is one step. Printing the summary and
  the end of the process are one step too; in between, handlers that are still running may print more lines. The names of
  interfaces and the log of the connections themselves are left out.
\<close>

section \<open>The command line\<close>

record sink_flags =
  sf_lane :: string
  sf_summary :: bool
  sf_maxObject :: int
  sf_submitEdge :: string
  sf_txPort :: int
  sf_subtreePort :: int
  sf_blockPort :: int

datatype sink_err = Bad_lane | Listen_failed | Submit_listen_failed

definition sink_relay :: "sink_flags \<Rightarrow> submitRelay option" where
  "sink_relay fl =
     (if sf_submitEdge fl = [] then None
      else Some \<lparr>txPort = sf_txPort fl, subtreePort = sf_subtreePort fl, blockPort = sf_blockPort fl,
                 maxObject = sf_maxObject fl\<rparr>)"

text \<open>The class forced on deliveries, once the listeners are up.\<close>

definition sink_main :: "sink_flags \<Rightarrow> bool \<Rightarrow> bool \<Rightarrow> sink_err + obj_class option" where
  "sink_main fl listen_ok submit_ok =
     (case lane_flag (sf_lane fl) of
        None \<Rightarrow> Inl Bad_lane
      | Some forced \<Rightarrow>
          if \<not> listen_ok then Inl Listen_failed
          else if sf_submitEdge fl \<noteq> [] \<and> \<not> submit_ok then Inl Submit_listen_failed
          else Inr forced)"

lemma sink_main_starts:
  "(\<exists>forced. sink_main fl listen_ok submit_ok = Inr forced) \<longleftrightarrow>
   sf_lane fl \<in> {''auto'', ''tx'', ''subtree'', ''block''} \<and> listen_ok \<and> (sf_submitEdge fl = [] \<or> submit_ok)"
  by (auto simp: sink_main_def lane_flag_def)

section \<open>The process\<close>

datatype sink_ev = Ev_line line | Ev_op stats_op

text \<open>The shared effects of a handler in the order it performs them.\<close>

fun weave :: "line list \<Rightarrow> stats_op list \<Rightarrow> sink_ev list" where
  "weave (l # ls) (Op_record dir b n nd sub # ops) = Ev_line l # Ev_op (Op_record dir b n nd sub) # weave ls ops"
| "weave ls (op # ops) = Ev_op op # weave ls ops"
| "weave ls [] = map Ev_line ls"

definition handler_events :: "handled \<Rightarrow> sink_ev list" where
  "handler_events h = weave (hd_lines h) (hd_ops h)"

record served =
  sv_conn :: conn
  sv_done :: handled
  sv_todo :: "sink_ev list"

datatype sink_pc = S_wait | S_close | S_close_submit | S_print | S_exit "summary option"

text \<open>\<open>sk_log\<close> lists, for the proofs, every effect performed and the connection it belongs to.\<close>

record sink_sys =
  sk_main :: sink_pc
  sk_listen :: bool
  sk_submit :: bool
  sk_conns :: "served list"
  sk_stats :: stats
  sk_printed :: "line list"
  sk_log :: "(nat \<times> sink_ev) list"

definition sink_init :: "sink_flags \<Rightarrow> sink_sys" where
  "sink_init fl =
     \<lparr>sk_main = S_wait, sk_listen = True, sk_submit = (sf_submitEdge fl \<noteq> []), sk_conns = [], sk_stats = newStats,
      sk_printed = [], sk_log = []\<rparr>"

definition serve :: "conn \<Rightarrow> handled \<Rightarrow> sink_sys \<Rightarrow> sink_sys" where
  "serve c h s = s\<lparr>sk_conns := sk_conns s @ [\<lparr>sv_conn = c, sv_done = h, sv_todo = handler_events h\<rparr>]\<rparr>"

definition perform :: "sink_ev \<Rightarrow> sink_sys \<Rightarrow> sink_sys" where
  "perform e s =
     (case e of
        Ev_line l \<Rightarrow> s\<lparr>sk_printed := sk_printed s @ [l]\<rparr>
      | Ev_op op \<Rightarrow> s\<lparr>sk_stats := stats_apply op (sk_stats s)\<rparr>)"

fun exited :: "sink_pc \<Rightarrow> bool" where
  "exited (S_exit su) \<longleftrightarrow> True"
| "exited _ \<longleftrightarrow> False"

definition sink_ports :: "sink_flags \<Rightarrow> (int \<times> int \<times> int) option" where
  "sink_ports fl = (if sf_submitEdge fl = [] then None else Some (sf_txPort fl, sf_subtreePort fl, sf_blockPort fl))"

inductive sink_step ::
  "frame_pkg \<Rightarrow> objfmt_pkg \<Rightarrow> obj_reader \<Rightarrow> sink_flags \<Rightarrow> obj_class option \<Rightarrow> sink_sys \<Rightarrow> sink_sys \<Rightarrow> bool"
  for P ob rd fl forced where
  accept_delivery: "\<not> exited (sk_main s) \<Longrightarrow> sk_listen s \<Longrightarrow>
     handleDelivery P ob rd forced (sf_maxObject fl) c = Some h \<Longrightarrow> sink_step P ob rd fl forced s (serve c h s)"
| accept_submit: "\<not> exited (sk_main s) \<Longrightarrow> sk_submit s \<Longrightarrow> sink_relay fl = Some r \<Longrightarrow>
     relay_handle P ob rd r dial_ok net c = Some h \<Longrightarrow> sink_step P ob rd fl forced s (serve c h s)"
| effect: "\<not> exited (sk_main s) \<Longrightarrow> i < length (sk_conns s) \<Longrightarrow> sv_todo (sk_conns s ! i) = e # es \<Longrightarrow>
     sink_step P ob rd fl forced s
       ((perform e s)\<lparr>sk_conns := (sk_conns s)[i := (sk_conns s ! i)\<lparr>sv_todo := es\<rparr>], sk_log := sk_log s @ [(i, e)]\<rparr>)"
| signal: "sk_main s = S_wait \<Longrightarrow> sink_step P ob rd fl forced s (s\<lparr>sk_main := S_close\<rparr>)"
| close: "sk_main s = S_close \<Longrightarrow> sink_step P ob rd fl forced s (s\<lparr>sk_main := S_close_submit, sk_listen := False\<rparr>)"
| close_submit: "sk_main s = S_close_submit \<Longrightarrow>
     sink_step P ob rd fl forced s (s\<lparr>sk_main := S_print, sk_submit := False\<rparr>)"
| leave: "sk_main s = S_print \<Longrightarrow>
     sink_step P ob rd fl forced s (s\<lparr>sk_main := S_exit
       (if sf_summary fl then Some (printSummary (sk_stats s) (sink_ports fl)) else None)\<rparr>)"

inductive sink_reach ::
  "frame_pkg \<Rightarrow> objfmt_pkg \<Rightarrow> obj_reader \<Rightarrow> sink_flags \<Rightarrow> obj_class option \<Rightarrow> sink_sys \<Rightarrow> bool"
  for P ob rd fl forced where
  sink_start: "sink_reach P ob rd fl forced (sink_init fl)"
| sink_more: "sink_reach P ob rd fl forced s \<Longrightarrow> sink_step P ob rd fl forced s t \<Longrightarrow> sink_reach P ob rd fl forced t"

section \<open>One connection\<close>

text \<open>How far a connection is, and what it may do next.\<close>

datatype conn_st = C_new | C_open | C_line | C_bad | C_closed

fun conn_next :: "conn_st \<Rightarrow> sink_ev \<Rightarrow> conn_st option" where
  "conn_next C_new (Ev_op Op_open) = Some C_open"
| "conn_next C_open (Ev_line l) = Some C_line"
| "conn_next C_line (Ev_op (Op_record dir b n nd sub)) = (if 0 \<le> n then Some C_open else None)"
| "conn_next C_open (Ev_op Op_parse) = Some C_bad"
| "conn_next C_open (Ev_op Op_close) = Some C_closed"
| "conn_next C_bad (Ev_op Op_close) = Some C_closed"
| "conn_next _ _ = None"

fun conn_run :: "conn_st \<Rightarrow> sink_ev list \<Rightarrow> conn_st option" where
  "conn_run st [] = Some st"
| "conn_run st (e # es) = (case conn_next st e of None \<Rightarrow> None | Some st \<Rightarrow> conn_run st es)"

lemma conn_run_append: "conn_run st (es @ fs) = (case conn_run st es of None \<Rightarrow> None | Some st \<Rightarrow> conn_run st fs)"
  by (induction es arbitrary: st) (auto split: option.split)

lemma weave_records:
  assumes "list_all2 (records dir) ns recs" and "length ls = length recs"
  shows "\<exists>es. weave ls (recs @ ops) = es @ weave [] ops \<and> conn_run C_open es = Some C_open"
  using assms
proof (induction arbitrary: ls rule: list_all2_induct)
  case Nil
  then show ?case by (intro exI [of _ "[]"]) simp
next
  case (Cons n ns op recs)
  then obtain l ls' b nd sub where l: "ls = l # ls'" "op = Op_record dir b (int n) nd sub" "length ls' = length recs"
    by (cases ls) (auto simp: records_def)
  from Cons.IH [OF l(3)] obtain es where "weave ls' (recs @ ops) = es @ weave [] ops" "conn_run C_open es = Some C_open" by blast
  then show ?case by (intro exI [of _ "Ev_line l # Ev_op op # es"]) (simp add: l(1,2))
qed

text \<open>Every handler keeps to the protocol.\<close>

lemma handler_protocol:
  assumes "handler_ok dir relaying s h"
  shows "conn_run C_new (handler_events h) = Some (if hd_done h then C_closed else C_open)"
proof -
  obtain recs errs and xs :: "bytes list" where h: "hd_ops h = Op_open # recs @ errs @ (if hd_done h then [Op_close] else [])"
    "errs = [] \<or> errs = [Op_parse] \<and> hd_done h" "list_all2 (records dir) (map length xs) recs" "length (hd_lines h) = length xs"
    using assms unfolding handler_ok_def by blast
  have "length (hd_lines h) = length recs" using h(3,4) by (metis length_map list_all2_lengthD)
  from weave_records [OF h(3) this, of "errs @ (if hd_done h then [Op_close] else [])"] obtain es where
    es: "weave (hd_lines h) (recs @ errs @ (if hd_done h then [Op_close] else [])) =
      es @ weave [] (errs @ (if hd_done h then [Op_close] else []))" "conn_run C_open es = Some C_open" by blast
  have "weave ls (Op_open # ops) = Ev_op Op_open # weave ls ops" for ls ops by (cases ls) simp_all
  then show ?thesis using h(2) es by (auto simp: handler_events_def h(1) conn_run_append)
qed

fun is_open :: "sink_ev \<Rightarrow> bool" where
  "is_open (Ev_op Op_open) \<longleftrightarrow> True"
| "is_open _ \<longleftrightarrow> False"

fun is_close :: "sink_ev \<Rightarrow> bool" where
  "is_close (Ev_op Op_close) \<longleftrightarrow> True"
| "is_close _ \<longleftrightarrow> False"

fun is_parse :: "sink_ev \<Rightarrow> bool" where
  "is_parse (Ev_op Op_parse) \<longleftrightarrow> True"
| "is_parse _ \<longleftrightarrow> False"

fun is_record :: "sink_ev \<Rightarrow> bool" where
  "is_record (Ev_op (Op_record dir b n nd sub)) \<longleftrightarrow> True"
| "is_record _ \<longleftrightarrow> False"

fun is_line :: "sink_ev \<Rightarrow> bool" where
  "is_line (Ev_line l) \<longleftrightarrow> True"
| "is_line _ \<longleftrightarrow> False"

definition tally :: "(sink_ev \<Rightarrow> bool) \<Rightarrow> sink_ev list \<Rightarrow> nat" where
  "tally p es = length (filter p es)"

lemma tally_simps [simp]:
  "tally p [] = 0" "tally p (e # es) = (if p e then 1 else 0) + tally p es" "tally p (es @ fs) = tally p es + tally p fs"
  by (simp_all add: tally_def)

text \<open>The books of one connection at any point.\<close>

lemma conn_tally:
  "conn_run C_new es = Some st \<Longrightarrow>
   tally is_open es = (if st = C_new then 0 else 1) \<and> tally is_close es = (if st = C_closed then 1 else 0) \<and>
   tally is_parse es \<le> (if st = C_bad \<or> st = C_closed then 1 else 0) \<and>
   tally is_line es = tally is_record es + (if st = C_line then 1 else 0)"
proof (induction es arbitrary: st rule: rev_induct)
  case Nil
  then show ?case by simp
next
  case (snoc e es)
  from snoc.prems obtain q where q: "conn_run C_new es = Some q" "conn_next q e = Some st"
    by (auto simp: conn_run_append split: option.splits)
  from snoc.IH [OF q(1)] q(2) show ?case
    by (cases "(q, e)" rule: conn_next.cases) (auto split: if_splits)
qed

section \<open>All connections\<close>

definition ops_of :: "sink_ev list \<Rightarrow> stats_op list" where
  "ops_of es = concat (map (\<lambda>e. case e of Ev_op op \<Rightarrow> [op] | Ev_line l \<Rightarrow> []) es)"

definition lines_of :: "sink_ev list \<Rightarrow> line list" where
  "lines_of es = concat (map (\<lambda>e. case e of Ev_op op \<Rightarrow> [] | Ev_line l \<Rightarrow> [l]) es)"

definition of_conn :: "nat \<Rightarrow> (nat \<times> sink_ev) list \<Rightarrow> sink_ev list" where
  "of_conn i log = map snd (filter (\<lambda>x. fst x = i) log)"

lemma of_conn_snoc: "of_conn i (log @ [(j, e)]) = of_conn i log @ (if i = j then [e] else [])"
  by (simp add: of_conn_def)

lemma of_conn_fresh: "\<forall>x \<in> set log. fst x < n \<Longrightarrow> of_conn n log = []"
  by (auto simp: of_conn_def filter_empty_conv)

lemma tally_split:
  "\<forall>x \<in> set log. fst x < n \<Longrightarrow> tally p (map snd log) = (\<Sum>i<n. tally p (of_conn i log))"
proof (induction log rule: rev_induct)
  case Nil
  then show ?case by (simp add: of_conn_def)
next
  case (snoc x log)
  obtain j e where x: "x = (j, e)" by (cases x)
  have "(\<Sum>i<n. tally p (of_conn i (log @ [x]))) = (\<Sum>i<n. tally p (of_conn i log) + (if i = j then tally p [e] else 0))"
    unfolding x of_conn_snoc by (intro sum.cong) auto
  also have "\<dots> = (\<Sum>i<n. tally p (of_conn i log)) + tally p [e]"
    using snoc.prems x by (simp add: sum.distrib)
  finally show ?case using snoc x by simp
qed

lemma lines_subseq: "subseq (lines_of (of_conn i log)) (lines_of (map snd log))"
proof (induction log)
  case (Cons x log)
  obtain j e where x: "x = (j, e)" by (cases x)
  show ?case
    using Cons.IH subseq_append [of "case e of Ev_op op \<Rightarrow> [] | Ev_line l \<Rightarrow> [l]"] list_emb_append2
    by (auto simp: x of_conn_def lines_of_def split: sink_ev.split)
qed (simp add: of_conn_def lines_of_def)

lemma lines_weave:
  assumes "list_all2 (records dir) ns recs" and "length ls = length recs" and "\<forall>op \<in> set ops. \<not> is_record (Ev_op op)"
  shows "lines_of (weave ls (recs @ ops)) = ls"
  using assms(1,2)
proof (induction arbitrary: ls rule: list_all2_induct)
  case Nil
  then show ?case using assms(3) by (induction ops) (auto simp: lines_of_def)
next
  case (Cons n ns op recs)
  then obtain l ls' b nd sub where l: "ls = l # ls'" "op = Op_record dir b (int n) nd sub" "length ls' = length recs"
    by (cases ls) (auto simp: records_def)
  with Cons.IH [OF l(3)] show ?case by (simp add: lines_of_def)
qed

lemma handler_lines:
  assumes "handler_ok dir relaying s h"
  shows "lines_of (handler_events h) = hd_lines h"
proof -
  obtain recs errs and xs :: "bytes list" where h: "hd_ops h = Op_open # recs @ errs @ (if hd_done h then [Op_close] else [])"
    "errs = [] \<or> errs = [Op_parse] \<and> hd_done h" "list_all2 (records dir) (map length xs) recs" "length (hd_lines h) = length xs"
    using assms unfolding handler_ok_def by blast
  have n: "length (hd_lines h) = length recs" using h(3,4) by (metis length_map list_all2_lengthD)
  have "\<forall>op \<in> set (errs @ (if hd_done h then [Op_close] else [])). \<not> is_record (Ev_op op)" using h(2) by auto
  from lines_weave [OF h(3) n this] have l: "lines_of (weave (hd_lines h) (recs @ errs @ (if hd_done h then [Op_close] else []))) = hd_lines h" .
  have "weave ls (Op_open # ops) = Ev_op Op_open # weave ls ops" for ls ops by (cases ls) simp_all
  then show ?thesis using l by (simp add: handler_events_def h(1) lines_of_def)
qed

lemma ops_weave: "ops_of (weave ls ops) = ops"
  by (induction ls ops rule: weave.induct) (simp_all add: ops_of_def)

lemma handler_ops: "ops_of (handler_events h) = hd_ops h"
  by (simp add: handler_events_def ops_weave)

lemma parts_append: "ops_of (es @ fs) = ops_of es @ ops_of fs" "lines_of (es @ fs) = lines_of es @ lines_of fs"
  by (simp_all add: ops_of_def lines_of_def)

definition sink_inv :: "sink_flags \<Rightarrow> sink_sys \<Rightarrow> bool" where
  "sink_inv fl s \<longleftrightarrow>
     sk_stats s = sink_session (ops_of (map snd (sk_log s))) \<and> sk_printed s = lines_of (map snd (sk_log s)) \<and>
     (\<forall>x \<in> set (sk_log s). fst x < length (sk_conns s)) \<and>
     (\<forall>i < length (sk_conns s).
        (\<exists>dir relaying. (dir = dirRecv \<or> dir = dirSent) \<and>
           handler_ok dir relaying (cn_bytes (cn_reads (sv_conn (sk_conns s ! i)))) (sv_done (sk_conns s ! i))) \<and>
        handler_events (sv_done (sk_conns s ! i)) = of_conn i (sk_log s) @ sv_todo (sk_conns s ! i)) \<and>
     (\<forall>su. sk_main s = S_exit (Some su) \<longrightarrow> su = printSummary (sk_stats s) (sink_ports fl))"

lemma sink_inv_init: "sink_inv fl (sink_init fl)"
  by (simp add: sink_inv_def sink_init_def ops_of_def lines_of_def sink_session_def)

lemma sink_inv_serve:
  assumes "sink_inv fl s" and "handler_ok dir relaying (cn_bytes (cn_reads c)) h" and "\<not> exited (sk_main s)"
    and "dir = dirRecv \<or> dir = dirSent"
  shows "sink_inv fl (serve c h s)"
proof -
  have log: "\<forall>x \<in> set (sk_log s). fst x < length (sk_conns s)" using assms(1) by (simp add: sink_inv_def)
  note fresh = of_conn_fresh [OF log]
  have "\<exists>dir relaying. (dir = dirRecv \<or> dir = dirSent) \<and> handler_ok dir relaying (cn_bytes (cn_reads c)) h"
    using assms(2,4) by blast
  then show ?thesis using assms(1,3) log fresh
    by (auto simp: sink_inv_def serve_def nth_append less_Suc_eq)
qed

lemma sink_inv_effect:
  assumes "sink_inv fl s" and "\<not> exited (sk_main s)" and i: "i < length (sk_conns s)" "sv_todo (sk_conns s ! i) = e # es"
  shows "sink_inv fl ((perform e s)\<lparr>sk_conns := (sk_conns s)[i := (sk_conns s ! i)\<lparr>sv_todo := es\<rparr>], sk_log := sk_log s @ [(i, e)]\<rparr>)"
proof -
  have "sk_stats (perform e s) = sink_session (ops_of (map snd (sk_log s @ [(i, e)])))"
    "sk_printed (perform e s) = lines_of (map snd (sk_log s @ [(i, e)]))"
    "sk_main (perform e s) = sk_main s"
    using assms(1) by (simp_all add: sink_inv_def perform_def ops_of_def lines_of_def session_snoc split: sink_ev.split)
  moreover have "of_conn j (sk_log s @ [(i, e)]) @ sv_todo ((sk_conns s)[i := (sk_conns s ! i)\<lparr>sv_todo := es\<rparr>] ! j) =
      of_conn j (sk_log s) @ sv_todo (sk_conns s ! j)" if "j < length (sk_conns s)" for j
    using that i by (cases "j = i") (simp_all add: of_conn_snoc)
  moreover have "sv_done ((sk_conns s)[i := (sk_conns s ! i)\<lparr>sv_todo := es\<rparr>] ! j) = sv_done (sk_conns s ! j)"
    "sv_conn ((sk_conns s)[i := (sk_conns s ! i)\<lparr>sv_todo := es\<rparr>] ! j) = sv_conn (sk_conns s ! j)" if "j < length (sk_conns s)" for j
    using that i by (cases "j = i"; simp)+
  ultimately show ?thesis using assms(1,2) i by (auto simp: sink_inv_def)
qed

lemma sink_inv_step:
  assumes "size_doc ob" "header_doc P" "reader_doc rd" and "sink_inv fl s" and "sink_step P ob rd fl forced s t"
  shows "sink_inv fl t"
  using assms(5)
proof cases
  case (accept_delivery c h)
  have "handler_ok dirRecv False (cn_bytes (cn_reads c)) h"
    using handleDelivery_ok [OF assms(1-3), of forced "sf_maxObject fl" c] accept_delivery(4) by simp
  with accept_delivery show ?thesis using sink_inv_serve [OF assms(4)] by simp
next
  case (accept_submit r dial_ok net c h)
  have "handler_ok dirSent True (cn_bytes (cn_reads c)) h"
    using relay_handle_ok [OF assms(1-3), of r dial_ok net c] accept_submit(5) by auto
  with accept_submit show ?thesis using sink_inv_serve [OF assms(4)] by simp
next
  case (effect i e es)
  then show ?thesis using sink_inv_effect [OF assms(4)] by simp
qed (use assms(4) in \<open>auto simp: sink_inv_def\<close>)

lemma sink_reach_inv:
  assumes "size_doc ob" "header_doc P" "reader_doc rd"
  shows "sink_reach P ob rd fl forced s \<Longrightarrow> sink_inv fl s"
proof (induction rule: sink_reach.induct)
  case sink_start
  show ?case by (rule sink_inv_init)
next
  case (sink_more s t)
  then show ?case using sink_inv_step [OF assms] by blast
qed

text \<open>What is served is always the work of one of the two handlers on the connection's bytes.\<close>

definition handled_by ::
  "frame_pkg \<Rightarrow> objfmt_pkg \<Rightarrow> obj_reader \<Rightarrow> sink_flags \<Rightarrow> obj_class option \<Rightarrow> conn \<Rightarrow> handled \<Rightarrow> bool" where
  "handled_by P ob rd fl forced c h \<longleftrightarrow>
     handleDelivery P ob rd forced (sf_maxObject fl) c = Some h \<or>
     (\<exists>r dial_ok net. sink_relay fl = Some r \<and> relay_handle P ob rd r dial_ok net c = Some h)"

lemma served_step:
  assumes "sink_step P ob rd fl forced s t" and "list_all (\<lambda>v. handled_by P ob rd fl forced (sv_conn v) (sv_done v)) (sk_conns s)"
  shows "list_all (\<lambda>v. handled_by P ob rd fl forced (sv_conn v) (sv_done v)) (sk_conns t)"
  using assms
proof cases
  case (accept_delivery c h)
  then show ?thesis using assms(2) by (auto simp: serve_def handled_by_def)
next
  case (accept_submit r dial_ok net c h)
  then show ?thesis using assms(2) by (auto simp: serve_def handled_by_def)
next
  case (effect i e es)
  then have "handled_by P ob rd fl forced (sv_conn (sk_conns s ! i)) (sv_done (sk_conns s ! i))"
    using assms(2) by (simp add: list_all_length)
  then show ?thesis using effect assms(2) by (auto simp: list_all_length nth_list_update)
qed simp_all

lemma served_reach:
  "sink_reach P ob rd fl forced s \<Longrightarrow> list_all (\<lambda>v. handled_by P ob rd fl forced (sv_conn v) (sv_done v)) (sk_conns s)"
  by (induction rule: sink_reach.induct) (simp add: sink_init_def, rule served_step)

section \<open>The books of the process\<close>

text \<open>What a connection has done so far follows the protocol.\<close>

lemma conn_so_far:
  assumes "sink_inv fl s" and "i < length (sk_conns s)"
  shows "\<exists>st. conn_run C_new (of_conn i (sk_log s)) = Some st"
proof -
  obtain dir relaying where h: "handler_ok dir relaying (cn_bytes (cn_reads (sv_conn (sk_conns s ! i)))) (sv_done (sk_conns s ! i))"
    "handler_events (sv_done (sk_conns s ! i)) = of_conn i (sk_log s) @ sv_todo (sk_conns s ! i)"
    using assms unfolding sink_inv_def by blast
  from handler_protocol [OF h(1)] show ?thesis unfolding h(2) by (auto simp: conn_run_append split: option.splits)
qed

lemma tally_ops:
  "int (tally is_open es) = count_op Op_open (ops_of es)" "int (tally is_close es) = count_op Op_close (ops_of es)"
  "int (tally is_parse es) = count_op Op_parse (ops_of es)" "tally is_line es = length (lines_of es)"
proof (induction es)
  case (Cons e es)
  { case 1 show ?case using Cons(1) by (cases e rule: is_open.cases) (auto simp: ops_of_def count_op_def) }
  { case 2 show ?case using Cons(2) by (cases e rule: is_close.cases) (auto simp: ops_of_def count_op_def) }
  { case 3 show ?case using Cons(3) by (cases e rule: is_parse.cases) (auto simp: ops_of_def count_op_def) }
  { case 4 show ?case using Cons(4) by (cases e) (auto simp: lines_of_def) }
qed (simp_all add: ops_of_def lines_of_def count_op_def)

text \<open>The objects recorded in all lanes together.\<close>

definition recorded_objects :: "stats_op list \<Rightarrow> nat" where
  "recorded_objects ops = length (filter (\<lambda>op. is_record (Ev_op op)) ops)"

lemma tally_records: "tally is_record es = recorded_objects (ops_of es)"
  by (induction es) (auto simp: recorded_objects_def ops_of_def split: sink_ev.split)

lemma process_books:
  assumes "sink_inv fl s"
  defines "ops \<equiv> ops_of (map snd (sk_log s))"
  shows "count_op Op_close ops \<le> count_op Op_open ops" "count_op Op_open ops \<le> int (length (sk_conns s))"
    "count_op Op_parse ops \<le> count_op Op_close ops + (count_op Op_open ops - count_op Op_close ops)"
    "recorded_objects ops \<le> length (sk_printed s)"
    "int (length (sk_printed s)) \<le> int (recorded_objects ops) + (count_op Op_open ops - count_op Op_close ops)"
proof -
  let ?n = "length (sk_conns s)"
  let ?es = "\<lambda>i. of_conn i (sk_log s)"
  have log: "\<forall>x \<in> set (sk_log s). fst x < ?n" using assms(1) by (simp add: sink_inv_def)
  have one: "tally is_close (?es i) \<le> tally is_open (?es i) \<and> tally is_open (?es i) \<le> 1 \<and>
      tally is_parse (?es i) \<le> tally is_open (?es i) \<and> tally is_record (?es i) \<le> tally is_line (?es i) \<and>
      tally is_line (?es i) + tally is_close (?es i) \<le> tally is_record (?es i) + tally is_open (?es i)" if i: "i \<in> {..<?n}" for i
  proof -
    obtain st where "conn_run C_new (?es i) = Some st" using conn_so_far [OF assms(1)] i by auto
    from conn_tally [OF this] show ?thesis by (cases st) auto
  qed
  note split = tally_split [OF log]
  have "(\<Sum>i<?n. tally is_open (?es i)) \<le> (\<Sum>i<?n. 1)" by (intro sum_mono) (use one in auto)
  moreover have "(\<Sum>i<?n. tally is_close (?es i)) \<le> (\<Sum>i<?n. tally is_open (?es i))" by (intro sum_mono) (use one in auto)
  moreover have "(\<Sum>i<?n. tally is_parse (?es i)) \<le> (\<Sum>i<?n. tally is_open (?es i))" by (intro sum_mono) (use one in auto)
  moreover have "(\<Sum>i<?n. tally is_record (?es i)) \<le> (\<Sum>i<?n. tally is_line (?es i))" by (intro sum_mono) (use one in auto)
  moreover have "(\<Sum>i<?n. tally is_line (?es i) + tally is_close (?es i)) \<le> (\<Sum>i<?n. tally is_record (?es i) + tally is_open (?es i))"
    by (intro sum_mono) (use one in auto)
  ultimately have t: "tally is_open (map snd (sk_log s)) \<le> ?n"
    "tally is_close (map snd (sk_log s)) \<le> tally is_open (map snd (sk_log s))"
    "tally is_parse (map snd (sk_log s)) \<le> tally is_open (map snd (sk_log s))"
    "tally is_record (map snd (sk_log s)) \<le> tally is_line (map snd (sk_log s))"
    "tally is_line (map snd (sk_log s)) + tally is_close (map snd (sk_log s))
       \<le> tally is_record (map snd (sk_log s)) + tally is_open (map snd (sk_log s))"
    unfolding split sum.distrib by simp_all
  have "length (sk_printed s) = tally is_line (map snd (sk_log s))" using assms(1) by (simp add: sink_inv_def tally_ops(4))
  with t show "count_op Op_close ops \<le> count_op Op_open ops" "count_op Op_open ops \<le> int (length (sk_conns s))"
    "count_op Op_parse ops \<le> count_op Op_close ops + (count_op Op_open ops - count_op Op_close ops)"
    "recorded_objects ops \<le> length (sk_printed s)"
    "int (length (sk_printed s)) \<le> int (recorded_objects ops) + (count_op Op_open ops - count_op Op_close ops)"
    unfolding ops_def tally_records [symmetric] tally_ops(1-3) [symmetric] by linarith+
qed

fun negative_size :: "sink_ev \<Rightarrow> bool" where
  "negative_size (Ev_op (Op_record dir b n nd sub)) \<longleftrightarrow> n < 0"
| "negative_size _ \<longleftrightarrow> False"

lemma conn_sizes: "conn_run C_new es = Some st \<Longrightarrow> tally negative_size es = 0"
proof (induction es arbitrary: st rule: rev_induct)
  case (snoc e es)
  from snoc.prems obtain q where q: "conn_run C_new es = Some q" "conn_next q e = Some st"
    by (auto simp: conn_run_append split: option.splits)
  from snoc.IH [OF q(1)] q(2) show ?case
    by (cases "(q, e)" rule: conn_next.cases) (auto split: if_splits)
qed simp

lemma sizes_tally: "tally negative_size es = 0 \<longleftrightarrow> sizes_ok (ops_of es)"
proof (induction es)
  case (Cons e es)
  then show ?case by (cases e rule: negative_size.cases) (auto simp: ops_of_def sizes_ok_def)
qed (simp add: ops_of_def sizes_ok_def)

lemma process_sizes:
  assumes "sink_inv fl s"
  shows "sizes_ok (ops_of (map snd (sk_log s)))"
proof -
  have log: "\<forall>x \<in> set (sk_log s). fst x < length (sk_conns s)" using assms by (simp add: sink_inv_def)
  have "tally negative_size (of_conn i (sk_log s)) = 0" if "i < length (sk_conns s)" for i
    using conn_so_far [OF assms that] conn_sizes by blast
  then show ?thesis unfolding sizes_tally [symmetric] tally_split [OF log] by simp
qed

text \<open>When every handler is through.\<close>

lemma process_quiet:
  assumes "sink_inv fl s" and "list_all (\<lambda>v. sv_todo v = []) (sk_conns s)"
  defines "ops \<equiv> ops_of (map snd (sk_log s))"
  shows "count_op Op_open ops = int (length (sk_conns s))"
    "count_op Op_open ops - count_op Op_close ops = int (length (filter (\<lambda>v. \<not> hd_done (sv_done v)) (sk_conns s)))"
    "recorded_objects ops = length (sk_printed s)"
proof -
  let ?n = "length (sk_conns s)"
  let ?es = "\<lambda>i. of_conn i (sk_log s)" and ?h = "\<lambda>i. sv_done (sk_conns s ! i)"
  have log: "\<forall>x \<in> set (sk_log s). fst x < ?n" using assms(1) by (simp add: sink_inv_def)
  have one: "tally is_open (?es i) = 1 \<and> tally is_close (?es i) = (if hd_done (?h i) then 1 else 0) \<and>
      tally is_line (?es i) = tally is_record (?es i)" if i: "i \<in> {..<?n}" for i
  proof -
    have "sv_todo (sk_conns s ! i) = []" using assms(2) i by (simp add: list_all_length)
    then obtain dir relaying where h: "handler_ok dir relaying (cn_bytes (cn_reads (sv_conn (sk_conns s ! i)))) (?h i)"
      "handler_events (?h i) = ?es i"
      using assms(1) i unfolding sink_inv_def by auto
    from conn_tally [OF handler_protocol [OF h(1)]] show ?thesis unfolding h(2) by (simp split: if_splits)
  qed
  note split = tally_split [OF log]
  have o: "tally is_open (map snd (sk_log s)) = ?n" unfolding split using one by simp
  have "tally is_close (map snd (sk_log s)) = (\<Sum>i<?n. if hd_done (?h i) then 1 else 0)"
    unfolding split using one by (intro sum.cong) auto
  also have "\<dots> = length (filter (\<lambda>v. hd_done (sv_done v)) (sk_conns s))"
    by (simp add: length_filter_conv_card sum.If_cases Int_def lessThan_def conj_commute)
  finally have c: "tally is_close (map snd (sk_log s)) = length (filter (\<lambda>v. hd_done (sv_done v)) (sk_conns s))" .
  have l: "tally is_line (map snd (sk_log s)) = tally is_record (map snd (sk_log s))"
    unfolding split using one by (intro sum.cong) auto
  have p: "length (sk_printed s) = tally is_line (map snd (sk_log s))" using assms(1) by (simp add: sink_inv_def tally_ops(4))
  show "count_op Op_open ops = int ?n" "recorded_objects ops = length (sk_printed s)"
    using o l p unfolding ops_def tally_records [symmetric] tally_ops(1-3) [symmetric] by simp_all
  show "count_op Op_open ops - count_op Op_close ops = int (length (filter (\<lambda>v. \<not> hd_done (sv_done v)) (sk_conns s)))"
    using o c sum_length_filter_compl [of "\<lambda>v. hd_done (sv_done v)" "sk_conns s"]
    unfolding ops_def tally_ops(1,2) [symmetric] by simp
qed

lemma lines_through:
  assumes "sink_inv fl s" and "v \<in> set (sk_conns s)" and "sv_todo v = []"
  shows "subseq (hd_lines (sv_done v)) (sk_printed s)"
proof -
  obtain i where i: "i < length (sk_conns s)" "v = sk_conns s ! i" using assms(2) by (metis in_set_conv_nth)
  obtain dir relaying where "handler_ok dir relaying (cn_bytes (cn_reads (sv_conn v))) (sv_done v)"
    "handler_events (sv_done v) = of_conn i (sk_log s)"
    using assms(1,3) i unfolding sink_inv_def by auto
  with handler_lines [OF this(1)] lines_subseq [of i "sk_log s"] assms(1) show ?thesis by (simp add: sink_inv_def)
qed

text \<open>
  A log tells the shared effects of the connections in the order they took place: for each connection a first
  part of its handler's operations and lines, all of them once the handler is through.
\<close>

definition tells :: "(nat \<times> sink_ev) list \<Rightarrow> served list \<Rightarrow> bool" where
  "tells log cs \<longleftrightarrow>
     (\<forall>x \<in> set log. fst x < length cs) \<and>
     (\<forall>i < length cs.
        prefix (ops_of (of_conn i log)) (hd_ops (sv_done (cs ! i))) \<and>
        prefix (lines_of (of_conn i log)) (hd_lines (sv_done (cs ! i))) \<and>
        (sv_todo (cs ! i) = [] \<longrightarrow>
           ops_of (of_conn i log) = hd_ops (sv_done (cs ! i)) \<and> lines_of (of_conn i log) = hd_lines (sv_done (cs ! i))))"

lemma log_tells:
  assumes "sink_inv fl s"
  shows "tells (sk_log s) (sk_conns s)"
proof -
  have "prefix (ops_of (of_conn i (sk_log s))) (hd_ops (sv_done v)) \<and> prefix (lines_of (of_conn i (sk_log s))) (hd_lines (sv_done v)) \<and>
      (sv_todo v = [] \<longrightarrow> ops_of (of_conn i (sk_log s)) = hd_ops (sv_done v) \<and> lines_of (of_conn i (sk_log s)) = hd_lines (sv_done v))"
    if i: "i < length (sk_conns s)" and v: "v = sk_conns s ! i" for i v
  proof -
    have evs: "handler_events (sv_done v) = of_conn i (sk_log s) @ sv_todo v" using assms i v unfolding sink_inv_def by blast
    obtain dir relaying where "handler_ok dir relaying (cn_bytes (cn_reads (sv_conn v))) (sv_done v)"
      using assms i v unfolding sink_inv_def by blast
    note parts = handler_ops [of "sv_done v", symmetric] handler_lines [OF this, symmetric]
    have "ops_of [] = []" "lines_of [] = []" by (simp_all add: ops_of_def lines_of_def)
    then show ?thesis unfolding parts evs parts_append by simp
  qed
  then show ?thesis using assms by (simp add: tells_def sink_inv_def)
qed

section \<open>Properties\<close>

text \<open>C19: The sink's books at every moment. Whatever connections arrive on the two listeners, however their handlers
  interleave with each other, with the signal and with the shutdown: every connection is served by one of the two
  handlers on its own bytes; the statistics are those of an interleaving of these handlers' operations, and the
  printed log is the same interleaving of their lines, each connection contributing a first part of its own, in
  order, and all of it when its handler is through; no connection is counted twice, those shown as open are at least none
  and at most all counted, with at most one parse error each; a line has been printed for every object
  recorded, and at most one more per open connection; when all are through, exactly the connections still
  waiting for bytes are shown as open and there is one line per object; and the summary printed on exit is that of
  these statistics.\<close>

theorem sink_process_books:
  assumes "size_doc ob" "header_doc P" "reader_doc rd" and "sink_reach P ob rd fl forced s"
  shows "list_all (\<lambda>v. handled_by P ob rd fl forced (sv_conn v) (sv_done v)) (sk_conns s) \<and>
     (\<exists>log. let ops = ops_of (map snd log) in
     sk_stats s = sink_session ops \<and> sk_printed s = lines_of (map snd log) \<and> tells log (sk_conns s) \<and> sizes_ok ops \<and>
     0 \<le> active (sk_stats s) \<and> active (sk_stats s) \<le> conns (sk_stats s) \<and> conns (sk_stats s) \<le> int (length (sk_conns s)) \<and>
     0 \<le> parseErrs (sk_stats s) \<and> parseErrs (sk_stats s) \<le> conns (sk_stats s) \<and>
     recorded_objects ops \<le> length (sk_printed s) \<and>
     int (length (sk_printed s)) \<le> int (recorded_objects ops) + active (sk_stats s) \<and>
     (\<forall>v \<in> set (sk_conns s). sv_todo v = [] \<longrightarrow> subseq (hd_lines (sv_done v)) (sk_printed s)) \<and>
     (list_all (\<lambda>v. sv_todo v = []) (sk_conns s) \<longrightarrow>
        conns (sk_stats s) = int (length (sk_conns s)) \<and>
        active (sk_stats s) = int (length (filter (\<lambda>v. \<not> hd_done (sv_done v)) (sk_conns s))) \<and>
        recorded_objects ops = length (sk_printed s))) \<and>
     (\<forall>su. sk_main s = S_exit (Some su) \<longrightarrow> su = printSummary (sk_stats s) (sink_ports fl))"
proof -
  let ?ops = "ops_of (map snd (sk_log s))"
  have inv: "sink_inv fl s" by (rule sink_reach_inv [OF assms])
  have st: "sk_stats s = sink_session ?ops" and pr: "sk_printed s = lines_of (map snd (sk_log s))"
    using inv unfolding sink_inv_def by blast+
  note counts = session_counts [of ?ops, folded st]
  have "0 \<le> count_op Op_parse ?ops" "0 \<le> count_op Op_close ?ops" by (simp_all add: count_op_def)
  moreover have "\<forall>v \<in> set (sk_conns s). sv_todo v = [] \<longrightarrow> subseq (hd_lines (sv_done v)) (sk_printed s)"
    using lines_through [OF inv] by blast
  moreover note process_sizes [OF inv] process_books [OF inv] process_quiet [OF inv]
  ultimately have "let ops = ?ops in
     sizes_ok ops \<and>
     0 \<le> active (sk_stats s) \<and> active (sk_stats s) \<le> conns (sk_stats s) \<and> conns (sk_stats s) \<le> int (length (sk_conns s)) \<and>
     0 \<le> parseErrs (sk_stats s) \<and> parseErrs (sk_stats s) \<le> conns (sk_stats s) \<and>
     recorded_objects ops \<le> length (sk_printed s) \<and>
     int (length (sk_printed s)) \<le> int (recorded_objects ops) + active (sk_stats s) \<and>
     (\<forall>v \<in> set (sk_conns s). sv_todo v = [] \<longrightarrow> subseq (hd_lines (sv_done v)) (sk_printed s)) \<and>
     (list_all (\<lambda>v. sv_todo v = []) (sk_conns s) \<longrightarrow>
        conns (sk_stats s) = int (length (sk_conns s)) \<and>
        active (sk_stats s) = int (length (filter (\<lambda>v. \<not> hd_done (sv_done v)) (sk_conns s))) \<and>
        recorded_objects ops = length (sk_printed s))"
    by (simp add: Let_def counts)
  moreover have "\<forall>su. sk_main s = S_exit (Some su) \<longrightarrow> su = printSummary (sk_stats s) (sink_ports fl)"
    using inv unfolding sink_inv_def by blast
  ultimately show ?thesis unfolding Let_def using st pr log_tells [OF inv] served_reach [OF assms(4)] by blast
qed

definition demo_sink :: sink_flags where
  "demo_sink = \<lparr>sf_lane = ''auto'', sf_summary = True, sf_maxObject = 1000, sf_submitEdge = [], sf_txPort = 8725,
     sf_subtreePort = 8726, sf_blockPort = 8727\<rparr>"

lemma first_effect:
  assumes "handler_ok dir relaying b h"
  shows "\<exists>es. handler_events h = Ev_op Op_open # es"
proof -
  have run: "conn_run C_new (handler_events h) = Some (if hd_done h then C_closed else C_open)" by (rule handler_protocol [OF assms])
  then obtain e es where e: "handler_events h = e # es" by (cases "handler_events h") (auto split: if_splits)
  with run have "conn_next C_new e \<noteq> None" by (auto split: option.splits)
  then have "e = Ev_op Op_open" by (cases "(C_new, e)" rule: conn_next.cases) auto
  with e show ?thesis by simp
qed

theorem sink_process_books_witness:
  "\<exists>s ops. sink_reach ref_frame ref_objfmt ref_reader demo_sink None s \<and> length (sk_conns s) = 1 \<and> conns (sk_stats s) = 1 \<and>
     sk_stats s = sink_session ops \<and> recorded_objects ops \<le> length (sk_printed s)"
proof -
  let ?c = "\<lparr>cn_reads = [], cn_end = End_EOF\<rparr>"
  note docs = ref_objfmt_size ref_header_doc ref_reader_doc
  obtain h where h: "handleDelivery ref_frame ref_objfmt ref_reader None (sf_maxObject demo_sink) ?c = Some h"
    "handler_ok dirRecv False (cn_bytes (cn_reads ?c)) h"
    using handleDelivery_ok [OF docs] by blast
  obtain es where es: "handler_events h = Ev_op Op_open # es" using first_effect [OF h(2)] by blast
  let ?s = "serve ?c h (sink_init demo_sink)"
  have "sink_step ref_frame ref_objfmt ref_reader demo_sink None (sink_init demo_sink) ?s"
    by (rule sink_step.accept_delivery [OF _ _ h(1)]) (simp_all add: sink_init_def)
  then have r: "sink_reach ref_frame ref_objfmt ref_reader demo_sink None ?s" using sink_start sink_more by blast
  let ?t = "(perform (Ev_op Op_open) ?s)\<lparr>sk_conns := (sk_conns ?s)[0 := (sk_conns ?s ! 0)\<lparr>sv_todo := es\<rparr>],
      sk_log := sk_log ?s @ [(0, Ev_op Op_open)]\<rparr>"
  have "sink_step ref_frame ref_objfmt ref_reader demo_sink None ?s ?t"
    by (rule sink_step.effect) (simp_all add: sink_init_def serve_def es)
  with r have t: "sink_reach ref_frame ref_objfmt ref_reader demo_sink None ?t" using sink_more by blast
  have n: "length (sk_conns ?t) = 1" "conns (sk_stats ?t) = 1"
    by (simp_all add: sink_init_def serve_def perform_def connOpen_def newStats_def)
  from sink_process_books [OF docs t] have "\<exists>ops. sk_stats ?t = sink_session ops \<and> recorded_objects ops \<le> length (sk_printed ?t)"
    unfolding Let_def by blast
  with t n show ?thesis by blast
qed

end
