(* ===== verification/Sink_Report.thy ===== *)
theory Sink_Report
  imports Sink_Summary Sink_Lines
begin

text \<open>
  \<open>cmd/tunnel-sink\<close>, the text of the summary: \<open>printSummary\<close> with its column padding. The addresses, the edge, the
  start time and the duration are inputs. A row is read back by its columns, the numbers without their commas.
\<close>

section \<open>The text\<close>

text \<open>\<open>%Ns\<close>.\<close>

definition pad_left :: "nat \<Rightarrow> string \<Rightarrow> string" where
  "pad_left n s = replicate (n - rune_count s) blank @ s"

definition row_line :: "row \<Rightarrow> string" where
  "row_line = (\<lambda>(dir, b, objs, octets, avg, least, most, extra).
     pad_right 4 dir @ ''  '' @ pad_right 8 b @ ''  '' @ pad_left 12 objs @ ''  '' @ pad_left 14 octets @ ''  '' @
     pad_left 9 avg @ ''  '' @ pad_left 9 least @ ''  '' @ pad_left 9 most @ ''  '' @ extra @ [newline])"

definition head_line :: string where
  "head_line = row_line (''dir'', ''class'', ''objects'', ''bytes'', ''avg'', ''min'', ''max'', ''totals'')"

text \<open>The characters \<open>U+2500\<close> and \<open>U+2192\<close>.\<close>

definition dash :: string where
  "dash = [char_of (0xE2 :: nat), char_of (0x94 :: nat), char_of (0x80 :: nat)]"

definition arrow :: string where
  "arrow = [char_of (0xE2 :: nat), char_of (0x86 :: nat), char_of (0x92 :: nat)]"

record report_env =
  re_listen :: string
  re_started :: string
  re_duration :: string
  re_submit :: string
  re_edge :: string

definition summary_lines :: "report_env \<Rightarrow> summary \<Rightarrow> string list" where
  "summary_lines env su =
     (let rule = concat (replicate 24 dash) in
      [[newline], rule @ '' tunnel-sink session summary '' @ rule @ [newline],
       ''started       '' @ re_started env @ [newline], ''duration      '' @ re_duration env @ [newline],
       ''delivery      '' @ re_listen env @ ''   (connections: '' @ int_dec (su_conns su) @ '' total, '' @
         int_dec (su_open su) @ '' open at exit)'' @ [newline]] @
      (case su_submit su of
         None \<Rightarrow> []
       | Some (tx, subtree, block) \<Rightarrow>
           [''submit        '' @ re_submit env @ '' '' @ arrow @ '' '' @ re_edge env @ '' (tx '' @ int_dec tx @
            '' / subtree '' @ int_dec subtree @ '' / block '' @ int_dec block @ '')'' @ [newline]]) @
      [''parse errors  '' @ int_dec (su_parseErrs su) @ [newline], [newline]] @
      (case su_rows su of
         None \<Rightarrow> [''no objects observed'' @ [newline]]
       | Some rows \<Rightarrow> head_line # map row_line rows))"

section \<open>Reading a row\<close>

definition read_number :: "string \<Rightarrow> nat" where
  "read_number s = un_dec (filter (\<lambda>c. c \<noteq> CHR '','') s)"

definition read_row :: "string \<Rightarrow> string \<times> string \<times> nat \<times> nat" where
  "read_row s =
     (let (dir, s1) = column s;
          (b, s2) = column s1;
          (objs, s3) = column s2;
          (octets, s4) = column s3
      in (dir, b, read_number objs, read_number octets))"

lemma token_group: "token (group n)"
proof -
  have "set (sep3 s) \<subseteq> insert (CHR '','') (set s)" for s by (induction s rule: sep3.induct) auto
  then have "set (group n) \<subseteq> insert (CHR '','') (set (dec n))" by (simp add: group_sep3) (metis set_rev)
  moreover have "group n \<noteq> []" using sep3_nonempty [of "rev (dec n)"] dec_nonempty [of n] by (simp add: group_sep3)
  ultimately show ?thesis using digits_plain [of n] unfolding token_def by auto
qed

lemma read_number_group: "read_number (group n) = n"
  using sep3_filter [of "rev (dec n)"] dec_no_comma [of n] by (simp add: read_number_def group_sep3 rev_filter [symmetric] un_dec_dec)

text \<open>A left-aligned or right-aligned column followed by a right-aligned one.\<close>

lemma column_left:
  assumes "token w" "token v"
  shows "column (w @ replicate k blank @ ''  '' @ pad_left n v @ s) = (w, v @ s)"
proof -
  have "replicate k b @ [b, b] @ replicate m b = b # replicate (Suc (k + m)) b" for k m and b :: char
    by (induction k) simp_all
  then have eq: "w @ replicate k blank @ ''  '' @ pad_left n v @ s =
      w @ blank # replicate (Suc (k + (n - rune_count v))) blank @ v @ s"
    unfolding pad_left_def by (metis append.assoc append_Cons append_Nil)
  have "v @ s \<noteq> []" "hd (v @ s) \<noteq> blank" using pad_starts [OF assms(2), of 0 s] by (simp_all add: pad_right_def)
  from column_blanks [OF assms(1) this] show ?thesis unfolding eq by metis
qed

lemma read_row_line:
  assumes "token dir" "token b" "token avg"
  shows "read_row (row_line (dir, b, group n, group m, avg @ unit, least, most, extra)) = (dir, b, n, m)"
proof -
  define r5 where "r5 = unit @ ''  '' @ pad_left 9 least @ ''  '' @ pad_left 9 most @ ''  '' @ extra @ [newline]"
  define a where "a = pad_left 9 (avg @ unit) @ ''  '' @ pad_left 9 least @ ''  '' @ pad_left 9 most @ ''  '' @ extra @ [newline]"
  obtain k where a: "a = pad_left k avg @ r5"
  proof
    have "k - rune_count avg = 9 - rune_count (avg @ unit)" if "k = 9 - rune_count (avg @ unit) + rune_count avg" for k
      using that by simp
    then show "a = pad_left (9 - rune_count (avg @ unit) + rune_count avg) avg @ r5" by (simp add: a_def r5_def pad_left_def)
  qed
  have l: "row_line (dir, b, group n, group m, avg @ unit, least, most, extra) =
      pad_right 4 dir @ ''  '' @ pad_right 8 b @ ''  '' @ pad_left 12 (group n) @ ''  '' @ pad_left 14 (group m) @ ''  '' @ a"
    by (simp add: row_line_def a_def)
  have "column (pad_right 4 dir @ ''  '' @ pad_right 8 b @ s) = (dir, pad_right 8 b @ s)" for s
    by (rule column_pads [OF assms(1)]) (rule pad_starts [OF assms(2)])+
  moreover have "column (pad_right 8 b @ ''  '' @ pad_left 12 (group n) @ s) = (b, group n @ s)" for s
    using column_left [OF assms(2) token_group] by (simp add: pad_right_def)
  moreover have "column (group n @ ''  '' @ pad_left 14 (group m) @ s) = (group n, group m @ s)" for s
    using column_left [OF token_group token_group, of n 0 14 m s] by simp
  moreover have "column (group m @ ''  '' @ a) = (group m, avg @ r5)"
    using column_left [OF token_group assms(3), of m 0 k r5] by (simp add: a)
  ultimately show ?thesis unfolding l read_row_def Let_def by (simp add: read_number_group)
qed

text \<open>A rendered size is a number and its unit.\<close>

lemma token_dec: "token (dec n)" "token (int_dec i)" "token (dec n @ ''.'' @ dec m)"
proof -
  have d: "token (dec n)" for n using digits_plain [of n] dec_nonempty [of n] unfolding token_def by auto
  then show "token (dec n)" "token (int_dec i)" "token (dec n @ ''.'' @ dec m)"
    using d by (auto simp: token_def int_dec_def)
qed

lemma byteSize_token: "\<exists>avg unit. token avg \<and> byteSize n = avg @ unit"
  unfolding byteSize_def one_decimal_def using token_dec by (metis append.assoc)

text \<open>The table reads back as the objects and bytes of every lane that has any, in the fixed order, whatever the statistics.\<close>

definition table_numbers :: "stats \<Rightarrow> (string \<times> string \<times> nat \<times> nat) list" where
  "table_numbers s = List.map_filter (\<lambda>(dir, b).
     case lanes s (lane_key dir b) of
       None \<Rightarrow> None
     | Some lt \<Rightarrow> if objects lt = 0 then None else Some (dir, b, unat (objects lt), unat (lt_bytes lt))) lane_pairs"

lemma read_summary_row:
  assumes "token dir" "token b"
  shows "read_row (row_line (summary_row dir b lt)) = (dir, b, unat (objects lt), unat (lt_bytes lt))"
proof -
  obtain avg unit where "token avg" "byteSize (sint (lt_bytes lt div objects lt)) = avg @ unit" using byteSize_token by blast
  with read_row_line [OF assms] show ?thesis by (simp add: summary_row_def)
qed

theorem table_reads_back:
  "(case summary_table s of None \<Rightarrow> [] | Some rows \<Rightarrow> map (\<lambda>x. read_row (row_line x)) rows) = table_numbers s"
proof -
  have tok: "token dir \<and> token b" if "(dir, b) \<in> set lane_pairs" for dir b
    using that by (auto simp: lane_pairs_def statDirs_def statBuckets_def dirRecv_def dirSent_def token_def)
  let ?f = "\<lambda>(dir, b). case lanes s (lane_key dir b) of None \<Rightarrow> None
      | Some lt \<Rightarrow> if objects lt = 0 then None else Some (summary_row dir b lt)"
  have "map (\<lambda>x. read_row (row_line x)) (List.map_filter ?f ps) =
      List.map_filter (\<lambda>(dir, b). case lanes s (lane_key dir b) of None \<Rightarrow> None
        | Some lt \<Rightarrow> if objects lt = 0 then None else Some (dir, b, unat (objects lt), unat (lt_bytes lt))) ps"
    if "set ps \<subseteq> set lane_pairs" for ps
    using that
  proof (induction ps)
    case (Cons p ps)
    obtain dir b where p: "p = (dir, b)" by (cases p)
    then have t: "token dir" "token b" using tok [of dir b] Cons.prems by auto
    show ?case using Cons read_summary_row [OF t] by (simp add: p List.map_filter_simps split: option.split)
  qed (simp add: List.map_filter_simps)
  from this [of lane_pairs] have rows: "map (\<lambda>x. read_row (row_line x)) (List.map_filter ?f lane_pairs) = table_numbers s"
    by (simp add: table_numbers_def)
  have ne: "nonEmpty s \<longleftrightarrow> List.map_filter ?f lane_pairs \<noteq> []"
    unfolding map_filter_none nonEmpty_def
    by (rule list_ex_cong) (auto simp: word_neq_0_conv summary_row_def split: option.splits if_splits)
  show ?thesis
  proof (cases "nonEmpty s")
    case True
    then show ?thesis using rows by (simp add: summary_table_def)
  next
    case False
    then have "List.map_filter ?f lane_pairs = []" using ne by blast
    then have "table_numbers s = []" using rows by simp
    then show ?thesis using False by (simp add: summary_table_def)
  qed
qed

end
