(* ===== verification/Sink_Log.thy ===== *)
theory Sink_Log
  imports Sink_Process Sink_Report
begin

text \<open>
  What the sink prints and what it counts. The lines on its standard output, of all connections in the order
  they were printed, can be taken apart again, and counted lane by lane they give its statistics.
\<close>

section \<open>Lanes of lines and of records\<close>

fun lane_line :: "string \<Rightarrow> string \<Rightarrow> sink_ev \<Rightarrow> bool" where
  "lane_line d b (Ev_line l) \<longleftrightarrow> fst l = d \<and> bucket_of (line_class l) = b"
| "lane_line d b (Ev_op op) \<longleftrightarrow> False"

fun lane_rec :: "string \<Rightarrow> string \<Rightarrow> sink_ev \<Rightarrow> bool" where
  "lane_rec d b (Ev_op (Op_record d' b' n nd sub)) \<longleftrightarrow> d' = d \<and> b' = b"
| "lane_rec d b _ \<longleftrightarrow> False"

text \<open>A log counted by direction and bucket.\<close>

definition recount :: "string \<Rightarrow> string \<Rightarrow> entry list \<Rightarrow> nat" where
  "recount d b es = length (filter (\<lambda>(stamp, iface, l). fst l = d \<and> bucket_of (line_class l) = b) es)"

lemma set_weave: "set (weave ls ops) = Ev_line ` set ls \<union> Ev_op ` set ops"
  by (induction ls ops rule: weave.induct) auto

lemma weave_lanes:
  assumes "list_all2 (line_op dir) ls recs" and "\<forall>op \<in> set ops. \<not> is_record (Ev_op op)"
  shows "tally (lane_line d b) (weave ls (recs @ ops)) = tally (lane_rec d b) (weave ls (recs @ ops))"
  using assms(1)
proof (induction rule: list_all2_induct)
  case Nil
  have "lane_line d b e = lane_rec d b e" if "e \<in> set (weave [] ops)" for e
    using that assms(2) by (cases "(d, b, e)" rule: lane_rec.cases) (auto simp: set_weave)
  then have "filter (lane_line d b) (weave [] ops) = filter (lane_rec d b) (weave [] ops)" by (rule filter_cong [OF refl])
  then show ?case by (simp add: tally_def)
next
  case (Cons l ls op recs)
  obtain n nd sub where "op = Op_record dir (bucket_of (line_class l)) n nd sub" "fst l = dir"
    using Cons(1) by (auto simp: line_op_def line_ok_def)
  with Cons.IH show ?case by simp
qed

lemma handler_parts:
  assumes "handler_ok dir relaying s h"
  shows "\<exists>recs ops. handler_events h = Ev_op Op_open # weave (hd_lines h) (recs @ ops) \<and>
     list_all2 (line_op dir) (hd_lines h) recs \<and> (\<forall>op \<in> set ops. \<not> is_record (Ev_op op))"
proof -
  obtain recs errs where h: "hd_ops h = Op_open # recs @ errs @ (if hd_done h then [Op_close] else [])"
    "errs = [] \<or> errs = [Op_parse] \<and> hd_done h" "list_all2 (line_op dir) (hd_lines h) recs"
    using assms unfolding handler_ok_def by blast
  have "weave ls (Op_open # ops) = Ev_op Op_open # weave ls ops" for ls ops by (cases ls) simp_all
  with h show ?thesis
    by (intro exI [of _ recs] exI [of _ "errs @ (if hd_done h then [Op_close] else [])"]) (auto simp: handler_events_def)
qed

lemma handler_lanes:
  assumes "handler_ok dir relaying s h"
  shows "tally (lane_line d b) (handler_events h) = tally (lane_rec d b) (handler_events h)"
  using handler_parts [OF assms] weave_lanes by force

lemma handler_dirs:
  assumes "handler_ok dir relaying s h" and "e \<in> set (handler_events h)"
  shows "e = Ev_line l \<Longrightarrow> line_ok dir l" "e = Ev_op (Op_record d b n nd sub) \<Longrightarrow> d = dir"
proof -
  obtain recs ops where h: "handler_events h = Ev_op Op_open # weave (hd_lines h) (recs @ ops)"
    "list_all2 (line_op dir) (hd_lines h) recs" "\<forall>op \<in> set ops. \<not> is_record (Ev_op op)"
    using handler_parts [OF assms(1)] by blast
  have lines: "line_ok dir l" if "l \<in> set (hd_lines h)" for l
    using h(2) that by (auto simp: line_op_def list_all2_conv_all_nth in_set_conv_nth)
  have recs: "d = dir" if "Op_record d b n nd sub \<in> set recs" for d b n nd sub
    using h(2) that by (auto simp: line_op_def list_all2_conv_all_nth in_set_conv_nth)
  show "e = Ev_line l \<Longrightarrow> line_ok dir l" using assms(2) lines by (auto simp: h(1) set_weave)
  show "e = Ev_op (Op_record d b n nd sub) \<Longrightarrow> d = dir" using assms(2) recs h(3) by (auto simp: h(1) set_weave)
qed

section \<open>All connections\<close>

lemma log_event:
  assumes "sink_inv fl s" and "e \<in> set (map snd (sk_log s))"
  shows "\<exists>dir relaying b h. (dir = dirRecv \<or> dir = dirSent) \<and> handler_ok dir relaying b h \<and> e \<in> set (handler_events h)"
proof -
  obtain i where i: "(i, e) \<in> set (sk_log s)" using assms(2) by auto
  then have n: "i < length (sk_conns s)" using assms(1) unfolding sink_inv_def by force
  have "e \<in> set (of_conn i (sk_log s))" using i by (force simp: of_conn_def)
  then have "e \<in> set (handler_events (sv_done (sk_conns s ! i)))" using assms(1) n unfolding sink_inv_def by auto
  with assms(1) n show ?thesis unfolding sink_inv_def by blast
qed

lemma printed_ok:
  assumes "sink_inv fl s" and "l \<in> set (sk_printed s)"
  shows "line_ok dirRecv l \<or> line_ok dirSent l"
proof -
  have "sk_printed s = lines_of (map snd (sk_log s))" using assms(1) by (simp add: sink_inv_def)
  then have "Ev_line l \<in> set (map snd (sk_log s))" using assms(2) by (auto simp: lines_of_def split: sink_ev.splits)
  from log_event [OF assms(1) this] show ?thesis using handler_dirs(1) by blast
qed

lemma tally_lane_line: "tally (lane_line d b) es = length (filter (\<lambda>l. fst l = d \<and> bucket_of (line_class l) = b) (lines_of es))"
proof (induction es)
  case (Cons e es)
  then show ?case by (cases e) (simp_all add: lines_of_def)
qed (simp add: lines_of_def)

text \<open>The key of a lane determines it, as both directions have four letters.\<close>

lemma lane_key_inj:
  assumes "d = dirRecv \<or> d = dirSent" "d' = dirRecv \<or> d' = dirSent"
  shows "lane_key d b = lane_key d' b' \<longleftrightarrow> d = d' \<and> b = b'"
  using assms by (auto simp: lane_key_def dirRecv_def dirSent_def)

lemma tally_lane_rec:
  assumes "\<forall>d' b' n nd sub. Ev_op (Op_record d' b' n nd sub) \<in> set es \<longrightarrow> d' = dirRecv \<or> d' = dirSent"
    and d: "d = dirRecv \<or> d = dirSent"
  shows "length (objs_of (lane_key d b) (ops_of es)) = tally (lane_rec d b) es"
  using assms(1)
proof (induction es)
  case Nil
  then show ?case by (simp add: ops_of_def objs_of_def List.map_filter_def)
next
  case (Cons e es)
  have IH: "length (objs_of (lane_key d b) (ops_of es)) = tally (lane_rec d b) es"
    using Cons.prems by (intro Cons.IH) (meson list.set_intros(2))
  have split: "objs_of k (ops_of (e # es)) = objs_of k (ops_of [e]) @ objs_of k (ops_of es)" for k
    by (simp add: ops_of_def objs_of_def List.map_filter_def)
  have "length (objs_of (lane_key d b) (ops_of [e])) = (if lane_rec d b e then 1 else 0)"
  proof (cases "(d, b, e)" rule: lane_rec.cases)
    case (1 d b d' b' n nd sub)
    then have "Ev_op (Op_record d' b' n nd sub) \<in> set (e # es)" by simp
    then have "d' = dirRecv \<or> d' = dirSent" using Cons.prems by blast
    from lane_key_inj [OF this, of d b' b] d 1 show ?thesis
      by (auto simp: ops_of_def objs_of_def List.map_filter_def)
  qed (auto simp: ops_of_def objs_of_def List.map_filter_def)
  with IH show ?case by (simp add: split)
qed

lemma lanes_agree:
  assumes "sink_inv fl s" and "list_all (\<lambda>v. sv_todo v = []) (sk_conns s)" and d: "d = dirRecv \<or> d = dirSent"
  shows "length (objs_of (lane_key d b) (ops_of (map snd (sk_log s)))) =
     length (filter (\<lambda>l. fst l = d \<and> bucket_of (line_class l) = b) (sk_printed s))"
proof -
  let ?n = "length (sk_conns s)"
  have log: "\<forall>x \<in> set (sk_log s). fst x < ?n" using assms(1) by (simp add: sink_inv_def)
  have one: "tally (lane_line d b) (of_conn i (sk_log s)) = tally (lane_rec d b) (of_conn i (sk_log s))" if i: "i < ?n" for i
  proof -
    have "sv_todo (sk_conns s ! i) = []" using assms(2) i by (simp add: list_all_length)
    moreover have "handler_events (sv_done (sk_conns s ! i)) = of_conn i (sk_log s) @ sv_todo (sk_conns s ! i)"
      using assms(1) i unfolding sink_inv_def by blast
    moreover obtain dir relaying where
      "handler_ok dir relaying (cn_bytes (cn_reads (sv_conn (sk_conns s ! i)))) (sv_done (sk_conns s ! i))"
      using assms(1) i unfolding sink_inv_def by blast
    ultimately show ?thesis using handler_lanes by (metis append_Nil2)
  qed
  have "tally (lane_line d b) (map snd (sk_log s)) = tally (lane_rec d b) (map snd (sk_log s))"
    unfolding tally_split [OF log] using one by (intro sum.cong) simp_all
  moreover have "\<forall>d' b' n nd sub. Ev_op (Op_record d' b' n nd sub) \<in> set (map snd (sk_log s)) \<longrightarrow> d' = dirRecv \<or> d' = dirSent"
    using log_event [OF assms(1)] handler_dirs(2) by blast
  moreover have "sk_printed s = lines_of (map snd (sk_log s))" using assms(1) by (simp add: sink_inv_def)
  ultimately show ?thesis using tally_lane_rec [OF _ d] by (simp add: tally_lane_line)
qed

section \<open>A handler run to its end\<close>

lemma drain:
  "sink_reach P ob rd fl forced s \<Longrightarrow> \<not> exited (sk_main s) \<Longrightarrow> i < length (sk_conns s) \<Longrightarrow> sv_todo (sk_conns s ! i) = evs \<Longrightarrow>
   \<exists>t. sink_reach P ob rd fl forced t \<and> sk_conns t = (sk_conns s)[i := (sk_conns s ! i)\<lparr>sv_todo := []\<rparr>] \<and>
     sk_printed t = sk_printed s @ lines_of evs \<and> sk_main t = sk_main s"
proof (induction evs arbitrary: s)
  case Nil
  then have "(sk_conns s)[i := (sk_conns s ! i)\<lparr>sv_todo := []\<rparr>] = sk_conns s"
    by (metis (full_types) list_update_id served.surjective served.update_convs(3))
  then show ?case using Nil(1) by (auto simp: lines_of_def)
next
  case (Cons e es)
  let ?t = "(perform e s)\<lparr>sk_conns := (sk_conns s)[i := (sk_conns s ! i)\<lparr>sv_todo := es\<rparr>], sk_log := sk_log s @ [(i, e)]\<rparr>"
  have r: "sink_reach P ob rd fl forced ?t"
    using sink_more [OF Cons.prems(1) sink_step.effect [OF Cons.prems(2-4)]] .
  have m: "sk_main (perform e s) = sk_main s" "sk_printed (perform e s) = sk_printed s @ lines_of [e]"
    by (simp_all add: perform_def lines_of_def split: sink_ev.split)
  have "lines_of (e # es) = lines_of [e] @ lines_of es" by (simp add: lines_of_def)
  with Cons.IH [OF r] Cons.prems(2,3) m show ?case by simp
qed

text \<open>The way out, once nothing is left to do.\<close>

lemma exit_path:
  assumes "sink_reach P ob rd fl forced s" and "sk_main s = S_wait" and "sf_summary fl"
  shows "\<exists>t su. sink_reach P ob rd fl forced t \<and> sk_main t = S_exit (Some su) \<and> sk_conns t = sk_conns s \<and> sk_printed t = sk_printed s"
proof -
  let ?a = "s\<lparr>sk_main := S_close\<rparr>"
  let ?b = "?a\<lparr>sk_main := S_close_submit, sk_listen := False\<rparr>"
  let ?c = "?b\<lparr>sk_main := S_print, sk_submit := False\<rparr>"
  have "sink_reach P ob rd fl forced ?a" by (rule sink_more [OF assms(1) sink_step.signal [OF assms(2)]])
  then have "sink_reach P ob rd fl forced ?b" by (rule sink_more [OF _ sink_step.close]) simp
  then have "sink_reach P ob rd fl forced ?c" by (rule sink_more [OF _ sink_step.close_submit]) simp
  then have "sink_reach P ob rd fl forced (?c\<lparr>sk_main := S_exit
      (if sf_summary fl then Some (printSummary (sk_stats ?c) (sink_ports fl)) else None)\<rparr>)"
    by (rule sink_more [OF _ sink_step.leave]) simp
  then show ?thesis using assms(3) by (intro exI conjI) (assumption | simp)+
qed

text \<open>A relay on which one frame is submitted.\<close>

definition relay_sink :: sink_flags where
  "relay_sink = demo_sink\<lparr>sf_submitEdge := ''edge''\<rparr>"

lemma relayed_one:
  "\<exists>t l. sink_reach ref_frame ref_objfmt ref_reader relay_sink None t \<and> list_all (\<lambda>v. sv_todo v = []) (sk_conns t) \<and>
     sk_printed t = [l] \<and> sk_main t = S_wait"
proof -
  note docs = ref_objfmt_size ref_header_doc ref_reader_doc
  obtain f where f: "generated ref_objfmt (demo_cfg ModeUnicast) \<lparr>ids = []\<rparr> f" using demo_generated(1) by blast
  define r where "r = the (sink_relay relay_sink)"
  have r: "sink_relay relay_sink = Some r" "maxObject r = 1000"
    by (simp_all add: r_def sink_relay_def relay_sink_def demo_sink_def)
  have "list_all (generated ref_objfmt (demo_cfg ModeUnicast) \<lparr>ids = []\<rparr>) [f]" "c_PayloadSize (demo_cfg ModeUnicast) \<le> maxObject r"
    using f r(2) demo_generated(4) by simp_all
  from framed_submission [OF docs(1,2) ref_objfmt_txid demo_generated(2,3) this(2) _ this(1), of "[f]" "\<lambda>_. True" ref_reader]
  obtain h where h: "relay_handle ref_frame ref_objfmt ref_reader r (\<lambda>_. True) (\<lambda>_. True) (chunked [f]) = Some h"
    "hd_ops h = Op_open # [Op_record dirSent ''txn'' (92 + c_PayloadSize (demo_cfg ModeUnicast)) 0 0] @ [Op_close]"
    "hd_done h" by auto
  have ok: "handler_ok dirSent True (cn_bytes (cn_reads (chunked [f]))) h"
    using relay_handle_ok [OF docs, of r "\<lambda>_. True" "\<lambda>_. True" "chunked [f]"] h(1) by auto
  let ?s = "serve (chunked [f]) h (sink_init relay_sink)"
  have "sink_step ref_frame ref_objfmt ref_reader relay_sink None (sink_init relay_sink) ?s"
    by (rule sink_step.accept_submit [OF _ _ r(1) h(1)]) (simp_all add: sink_init_def relay_sink_def)
  then have "sink_reach ref_frame ref_objfmt ref_reader relay_sink None ?s" using sink_start sink_more by blast
  from drain [OF this, of 0 "handler_events h"] obtain t where
    t: "sink_reach ref_frame ref_objfmt ref_reader relay_sink None t" "list_all (\<lambda>v. sv_todo v = []) (sk_conns t)"
      "sk_printed t = hd_lines h" "sk_main t = S_wait"
    using handler_lines [OF ok] by (auto simp: sink_init_def serve_def)
  have one: "length (hd_lines h) = 1"
    using ok h(2,3) unfolding handler_ok_def by (auto dest!: list_all2_lengthD split: if_splits)
  then obtain l where "hd_lines h = [l]" by (metis One_nat_def length_0_conv length_Suc_conv)
  with t have "sk_printed t = [l]" by simp
  with t(1,2,4) show ?thesis by blast
qed

section \<open>Numbers of a table\<close>

lemma numbers_filter:
  assumes "\<And>d b. (d, b) \<in> set ps \<Longrightarrow> (case L (lane_key d b) of None \<Rightarrow> 0 | Some lt \<Rightarrow> unat (objects lt)) = f d b"
  shows "map (\<lambda>(d, b, n, octets). (d, b, n)) (List.map_filter (\<lambda>(d, b).
       case L (lane_key d b) of None \<Rightarrow> None
       | Some lt \<Rightarrow> if objects lt = 0 then None else Some (d, b, unat (objects lt), unat (lt_bytes lt))) ps) =
     List.map_filter (\<lambda>(d, b). let n = f d b in if n = 0 then None else Some (d, b, n)) ps"
  using assms
proof (induction ps)
  case (Cons p ps)
  obtain d b where p: "p = (d, b)" by (cases p)
  have IH: "map (\<lambda>(d, b, n, octets). (d, b, n)) (List.map_filter (\<lambda>(d, b).
       case L (lane_key d b) of None \<Rightarrow> None
       | Some lt \<Rightarrow> if objects lt = 0 then None else Some (d, b, unat (objects lt), unat (lt_bytes lt))) ps) =
     List.map_filter (\<lambda>(d, b). let n = f d b in if n = 0 then None else Some (d, b, n)) ps"
    using Cons by simp
  have "(case L (lane_key d b) of None \<Rightarrow> 0 | Some lt \<Rightarrow> unat (objects lt)) = f d b" using Cons.prems p by simp
  then have "f d b = (case L (lane_key d b) of None \<Rightarrow> 0 | Some lt \<Rightarrow> unat (objects lt))" by (rule sym)
  then show ?case using IH by (cases "L (lane_key d b)") (simp_all add: p Let_def unat_eq_zero)
qed simp

text \<open>Every class falls into one of four buckets, so the lanes share out the entries.\<close>

definition all_lanes :: "(string \<times> string) list" where
  "all_lanes = List.product [dirRecv, dirSent] [''txn'', ''subtree'', ''block'', ''other'']"

lemma lane_pairs_all: "lane_pairs = all_lanes"
  by (simp add: lane_pairs_def all_lanes_def statDirs_def statBuckets_def)

lemma recount_all:
  assumes "list_all (\<lambda>e. fst (snd (snd e)) = dirRecv \<or> fst (snd (snd e)) = dirSent) es"
  shows "(\<Sum>p\<leftarrow>all_lanes. recount (fst p) (snd p) es) = length es"
  using assms
proof (induction es)
  case Nil
  then show ?case by (simp add: recount_def all_lanes_def)
next
  case (Cons e es)
  obtain t i l where e: "e = (t, i, l)" by (cases e)
  have one: "recount d b (e # es) = (if fst l = d \<and> bucket_of (line_class l) = b then 1 else 0) + recount d b es" for d b
    by (simp add: recount_def e)
  have "dirRecv \<noteq> dirSent" by (simp add: dirRecv_def dirSent_def)
  moreover have "fst l = dirRecv \<or> fst l = dirSent" using Cons.prems e by simp
  moreover have "bucket_of (line_class l) \<in> {''txn'', ''subtree'', ''block'', ''other''}" by (simp add: bucket_of_def)
  ultimately have "(\<Sum>p\<leftarrow>all_lanes. (if fst l = fst p \<and> bucket_of (line_class l) = snd p then 1 else 0 :: nat)) = 1"
    by (auto simp: all_lanes_def)
  then show ?case using Cons by (simp add: one sum_list_addf)
qed

lemma sum_shown:
  "sum_list (map (\<lambda>(d, b, n). n) (List.map_filter (\<lambda>(d, b). let n = f d b in if n = 0 then None else Some (d, b, n)) ps)) =
     (\<Sum>p\<leftarrow>ps. f (fst p) (snd p) :: nat)"
proof (induction ps)
  case (Cons p ps)
  then show ?case by (cases p) (simp add: Let_def)
qed simp

section \<open>Properties\<close>

lemma log_lanes:
  assumes "size_doc ob" "header_doc P" "reader_doc rd" and "sink_reach P ob rd fl forced s"
    and "map (\<lambda>e. snd (snd e)) es = sk_printed s" "list_all stamp_ok es"
  shows "read_log (concat (map logLine es)) = es \<and>
     (list_all (\<lambda>v. sv_todo v = []) (sk_conns s) \<and> (d = dirRecv \<or> d = dirSent) \<longrightarrow>
        (case lanes (sk_stats s) (lane_key d b) of None \<Rightarrow> 0 | Some lt \<Rightarrow> objects lt) =
          word_of_nat (recount d b (read_log (concat (map logLine es)))))"
proof -
  have inv: "sink_inv fl s" by (rule sink_reach_inv [OF assms(1-4)])
  have "token dirRecv" "token dirSent" by (simp_all add: token_def dirRecv_def dirSent_def)
  moreover have "line_ok dirRecv (snd (snd e)) \<or> line_ok dirSent (snd (snd e))" if "e \<in> set es" for e
    using printed_ok [OF inv] that unfolding assms(5) [symmetric] by simp
  ultimately have "list_all (\<lambda>e. stamp_ok e \<and> (\<exists>dir. token dir \<and> line_ok dir (snd (snd e)))) es"
    using assms(6) unfolding list_all_iff by blast
  then have read: "read_log (concat (map logLine es)) = es" by (rule read_log_entries)
  have count: "recount d b es = length (filter (\<lambda>l. fst l = d \<and> bucket_of (line_class l) = b) (sk_printed s))"
    unfolding assms(5) [symmetric] by (auto simp: recount_def filter_map o_def intro!: arg_cong [where f = length] filter_cong)
  have "sk_stats s = sink_session (ops_of (map snd (sk_log s)))" using inv by (simp add: sink_inv_def)
  then have "(case lanes (sk_stats s) (lane_key d b) of None \<Rightarrow> 0 | Some lt \<Rightarrow> objects lt) =
      word_of_nat (length (objs_of (lane_key d b) (ops_of (map snd (sk_log s)))))"
    by (simp add: session_lanes [OF process_sizes [OF inv]] totals_def)
  with lanes_agree [OF inv] read count show ?thesis by simp
qed

lemma table_recounts:
  assumes inv: "sink_inv fl s" and "sk_main s = S_exit (Some su)" "list_all (\<lambda>v. sv_todo v = []) (sk_conns s)"
    and "map (\<lambda>e. snd (snd e)) es = sk_printed s" "length es < 2 ^ 64"
    and log: "\<And>d b. d = dirRecv \<or> d = dirSent \<Longrightarrow>
      (case lanes (sk_stats s) (lane_key d b) of None \<Rightarrow> 0 | Some lt \<Rightarrow> objects lt) = word_of_nat (recount d b es)"
  shows "map (\<lambda>x. case read_row (row_line x) of (d, b, n, octets) \<Rightarrow> (d, b, n)) (case su_rows su of None \<Rightarrow> [] | Some rows \<Rightarrow> rows) =
      List.map_filter (\<lambda>(d, b). let n = recount d b es in if n = 0 then None else Some (d, b, n)) all_lanes"
proof -
  have su: "su_rows su = summary_table (sk_stats s)" using inv assms(2) by (simp add: sink_inv_def printSummary_def)
  have lane: "(case lanes (sk_stats s) (lane_key d b) of None \<Rightarrow> 0 | Some lt \<Rightarrow> unat (objects lt)) = recount d b es"
    if "(d, b) \<in> set lane_pairs" for d b
  proof -
    have "d = dirRecv \<or> d = dirSent" using that by (auto simp: lane_pairs_def statDirs_def)
    then have "(case lanes (sk_stats s) (lane_key d b) of None \<Rightarrow> 0 | Some lt \<Rightarrow> objects lt) = word_of_nat (recount d b es)"
      by (rule log)
    moreover have "recount d b es < 2 ^ 64"
      using assms(5) length_filter_le unfolding recount_def by (rule order.strict_trans1 [rotated])
    ultimately have "unat (case lanes (sk_stats s) (lane_key d b) of None \<Rightarrow> 0 | Some lt \<Rightarrow> objects lt) = recount d b es"
      by (simp add: unat_of_nat)
    then show ?thesis by (cases "lanes (sk_stats s) (lane_key d b)") simp_all
  qed
  have "map (\<lambda>x. case read_row (row_line x) of (d, b, n, octets) \<Rightarrow> (d, b, n)) (case su_rows su of None \<Rightarrow> [] | Some rows \<Rightarrow> rows) =
      map (\<lambda>(d, b, n, octets). (d, b, n)) (table_numbers (sk_stats s))"
    unfolding table_reads_back [of "sk_stats s", symmetric] su by (simp add: o_def split: option.split)
  also have "\<dots> = List.map_filter (\<lambda>(d, b). let n = recount d b es in if n = 0 then None else Some (d, b, n)) lane_pairs"
    unfolding table_numbers_def by (rule numbers_filter) (rule lane)
  finally show ?thesis unfolding lane_pairs_all .
qed

text \<open>C20: The log of the sink can be read back and recounted. Whatever connections arrived and however their handlers
  interleaved, the text on standard output, taken apart at its newlines and columns, gives exactly the time
  stamp, interface and line of every object printed, in order; and once all handlers are through, the lines of a
  direction whose class falls into a bucket are exactly as many as the statistics show for that lane.\<close>

theorem log_recounts:
  assumes "size_doc ob" "header_doc P" "reader_doc rd" and "sink_reach P ob rd fl forced s"
    and "map (\<lambda>e. snd (snd e)) es = sk_printed s" "list_all stamp_ok es"
  shows "read_log (concat (map logLine es)) = es \<and>
     (list_all (\<lambda>v. sv_todo v = []) (sk_conns s) \<and> (d = dirRecv \<or> d = dirSent) \<longrightarrow>
        (case lanes (sk_stats s) (lane_key d b) of None \<Rightarrow> 0 | Some lt \<Rightarrow> objects lt) =
          word_of_nat (recount d b (read_log (concat (map logLine es)))))"
  by (rule log_lanes [OF assms])

theorem log_recounts_witness:
  "\<exists>s es. sink_reach ref_frame ref_objfmt ref_reader relay_sink None s \<and> length es = 1 \<and>
     read_log (concat (map logLine es)) = es \<and>
     (case lanes (sk_stats s) (lane_key dirSent ''txn'') of None \<Rightarrow> 0 | Some lt \<Rightarrow> objects lt) =
       word_of_nat (recount dirSent ''txn'' (read_log (concat (map logLine es))))"
proof -
  note docs = ref_objfmt_size ref_header_doc ref_reader_doc
  obtain t l where t: "sink_reach ref_frame ref_objfmt ref_reader relay_sink None t" "list_all (\<lambda>v. sv_todo v = []) (sk_conns t)"
    "sk_printed t = [l]" using relayed_one by blast
  define es :: "entry list" where "es = [(replicate 23 (CHR ''0''), ''wg0'', l)]"
  have e: "map (\<lambda>e. snd (snd e)) es = sk_printed t" "list_all stamp_ok es" "length es = 1"
    by (simp_all add: es_def t(3) stamp_ok_def token_def)
  from log_recounts [OF docs t(1) e(1,2), of dirSent "''txn''"] t(2) t(1) e(3) show ?thesis by blast
qed

text \<open>C21: The summary agrees with the log. When the process has exited with its summary after all handlers were
  through, the printed table, read back column by column, has exactly the directions, received before sent, and in each
  the buckets \<open>txn\<close>, \<open>subtree\<close>, \<open>block\<close> and \<open>other\<close>, in this order, under which the printed log has lines, and
  shows for each the number of these lines; and no line is missed: the numbers of the rows add up to the
  number of lines printed. This is for fewer than \<open>2 ^ 64\<close> lines.\<close>

theorem summary_recounts:
  assumes "size_doc ob" "header_doc P" "reader_doc rd" and "sink_reach P ob rd fl forced s"
    and "sk_main s = S_exit (Some su)" "list_all (\<lambda>v. sv_todo v = []) (sk_conns s)"
    and "map (\<lambda>e. snd (snd e)) es = sk_printed s" "list_all stamp_ok es" "length es < 2 ^ 64"
  shows "let shown = map (\<lambda>x. case read_row (row_line x) of (d, b, n, octets) \<Rightarrow> (d, b, n))
                       (case su_rows su of None \<Rightarrow> [] | Some rows \<Rightarrow> rows);
             logged = read_log (concat (map logLine es)) in
     shown = List.map_filter (\<lambda>(d, b). let n = recount d b logged in if n = 0 then None else Some (d, b, n))
               (List.product [dirRecv, dirSent] [''txn'', ''subtree'', ''block'', ''other'']) \<and>
     sum_list (map (\<lambda>(d, b, n). n) shown) = length (sk_printed s)"
proof -
  have inv: "sink_inv fl s" by (rule sink_reach_inv [OF assms(1-4)])
  note log = log_lanes [OF assms(1-4,7,8)]
  then have es: "read_log (concat (map logLine es)) = es" by blast
  have lane: "(case lanes (sk_stats s) (lane_key d b) of None \<Rightarrow> 0 | Some lt \<Rightarrow> objects lt) = word_of_nat (recount d b es)"
    if "d = dirRecv \<or> d = dirSent" for d b
    using log [of d b] assms(6) that unfolding es by blast
  have table: "map (\<lambda>x. case read_row (row_line x) of (d, b, n, octets) \<Rightarrow> (d, b, n)) (case su_rows su of None \<Rightarrow> [] | Some rows \<Rightarrow> rows) =
      List.map_filter (\<lambda>(d, b). let n = recount d b es in if n = 0 then None else Some (d, b, n)) all_lanes"
    by (rule table_recounts [OF inv assms(5-7,9)]) (rule lane)
  have "fst (snd (snd e)) = dirRecv \<or> fst (snd (snd e)) = dirSent" if "e \<in> set es" for e
  proof -
    have "snd (snd e) \<in> set (sk_printed s)" using that unfolding assms(7) [symmetric] by simp
    from printed_ok [OF inv this] show ?thesis by (auto simp: line_ok_def split: prod.splits)
  qed
  then have "(\<Sum>p\<leftarrow>all_lanes. recount (fst p) (snd p) es) = length es"
    by (intro recount_all) (simp add: list_all_iff)
  moreover have "length es = length (sk_printed s)" unfolding assms(7) [symmetric] by simp
  ultimately have "sum_list (map (\<lambda>(d, b, n). n) (map (\<lambda>x. case read_row (row_line x) of (d, b, n, octets) \<Rightarrow> (d, b, n))
      (case su_rows su of None \<Rightarrow> [] | Some rows \<Rightarrow> rows))) = length (sk_printed s)"
    unfolding table sum_shown by simp
  with table [unfolded Let_def] show ?thesis unfolding Let_def es all_lanes_def by (rule conjI)
qed

theorem summary_recounts_witness:
  "\<exists>s su. sink_reach ref_frame ref_objfmt ref_reader relay_sink None s \<and> sk_main s = S_exit (Some su) \<and> length (sk_printed s) = 1 \<and>
     sum_list (map (\<lambda>(d, b, n). n) (map (\<lambda>x. case read_row (row_line x) of (d, b, n, octets) \<Rightarrow> (d, b, n))
       (case su_rows su of None \<Rightarrow> [] | Some rows \<Rightarrow> rows))) = 1"
proof -
  note docs = ref_objfmt_size ref_header_doc ref_reader_doc
  obtain t l where t: "sink_reach ref_frame ref_objfmt ref_reader relay_sink None t" "list_all (\<lambda>v. sv_todo v = []) (sk_conns t)"
    "sk_printed t = [l]" "sk_main t = S_wait" using relayed_one by blast
  have "sf_summary relay_sink" by (simp add: relay_sink_def demo_sink_def)
  from exit_path [OF t(1,4) this] obtain s su where s: "sink_reach ref_frame ref_objfmt ref_reader relay_sink None s"
    "sk_main s = S_exit (Some su)" "sk_conns s = sk_conns t" "sk_printed s = [l]" using t(3) by auto
  define es :: "entry list" where "es = [(replicate 23 (CHR ''0''), ''wg0'', l)]"
  have e: "map (\<lambda>e. snd (snd e)) es = sk_printed s" "list_all stamp_ok es" "length es < 2 ^ 64" "length es = 1"
    by (simp_all add: es_def s(4) stamp_ok_def token_def)
  have "list_all (\<lambda>v. sv_todo v = []) (sk_conns s)" using t(2) s(3) by simp
  from summary_recounts [OF docs s(1,2) this e(1-3)] have "sum_list (map (\<lambda>(d, b, n). n) (map (\<lambda>x. case read_row (row_line x) of
      (d, b, n, octets) \<Rightarrow> (d, b, n)) (case su_rows su of None \<Rightarrow> [] | Some rows \<Rightarrow> rows))) = 1"
    unfolding Let_def s(4) by (auto simp only: list.size)
  moreover have "length (sk_printed s) = 1" using s(4) by simp
  ultimately show ?thesis using s(1,2) by (intro exI [of _ s] exI [of _ su] conjI)
qed

end
