(* ===== verification/Announce.thy ===== *)
theory Announce
  imports Subtree_Pool Shard_Common
begin

unbundle bit_operations_syntax

text \<open>
  \<open>internal/announce\<close>: group-id parsing and the periodic announcer. Strings are byte lists, as in Go.
  \<open>frame.EncodeSubtreeGroupAnnounce\<close> is the package parameter; the outcome of write \<open>n\<close> is \<open>ok n\<close>.
\<close>

section \<open>Parsing group ids\<close>

definition hexNibble :: "byte \<Rightarrow> byte" where
  "hexNibble c =
     (if 0x30 \<le> c \<and> c \<le> 0x39 then c - 0x30
      else if 0x61 \<le> c \<and> c \<le> 0x66 then c - 0x61 + 10
      else if 0x41 \<le> c \<and> c \<le> 0x46 then c - 0x41 + 10
      else 0xFF)"

text \<open>The byte loop of \<open>hexDecode\<close>, two characters at a time.\<close>

fun hex_loop :: "bytes \<Rightarrow> bytes option" where
  "hex_loop (a # b # s) =
     (let hi = hexNibble a; lo = hexNibble b in
      if hi = 0xFF \<or> lo = 0xFF then None
      else map_option (Cons (push_bit 4 hi OR lo)) (hex_loop s))"
| "hex_loop _ = Some []"

definition hexDecode :: "bytes \<Rightarrow> bytes option" where
  "hexDecode s = (if odd (length s) then None else hex_loop s)"

text \<open>\<open>cur\<close> is \<open>s[start:i]\<close>, what was read since the last comma.\<close>

fun split_loop :: "bytes \<Rightarrow> bytes \<Rightarrow> bytes list \<Rightarrow> bytes list" where
  "split_loop [] cur out = out @ [cur]"
| "split_loop (c # s) cur out =
     (if c = 0x2C then split_loop s [] (out @ [cur]) else split_loop s (cur @ [c]) out)"

definition splitComma :: "bytes \<Rightarrow> bytes list" where
  "splitComma s = split_loop s [] []"

text \<open>A failed parse names the offending part.\<close>

fun parse_parts :: "bytes list \<Rightarrow> bytes list \<Rightarrow> bytes + bytes list" where
  "parse_parts [] out = Inr out"
| "parse_parts (part # parts) out =
     (if part = [] then parse_parts parts out
      else case hexDecode part of
             None \<Rightarrow> Inl part
           | Some b \<Rightarrow> if length b \<noteq> 16 then Inl part else parse_parts parts (out @ [b]))"

definition ParseGroupIDs :: "bytes \<Rightarrow> bytes + bytes list" where
  "ParseGroupIDs s = (if s = [] then Inr [] else parse_parts (splitComma s) [])"

section \<open>The announcer\<close>

record announcer =
  an_groups :: "bytes list"
  an_pool :: Pool
  an_ttl :: u16
  an_phaseSize :: int
  an_phaseInterval :: int

datatype send_err = EncodeErr | WriteErr | AtPanic

text \<open>One subtree: a datagram per group. The buffer is reused; \<open>out\<close> is everything written so far.\<close>

fun send_groups ::
  "frame_pkg \<Rightarrow> bytes \<Rightarrow> u32 \<Rightarrow> u16 \<Rightarrow> (nat \<Rightarrow> bool) \<Rightarrow> bytes list \<Rightarrow> bytes \<Rightarrow> bytes list \<Rightarrow>
   send_err option \<times> bytes \<times> bytes list" where
  "send_groups P sid epoch ttl ok [] buf out = (None, buf, out)"
| "send_groups P sid epoch ttl ok (gid # gids) buf out =
     (case pkg_EncodeAnnounce P sid gid epoch ttl buf of
        None \<Rightarrow> (Some EncodeErr, buf, out)
      | Some buf \<Rightarrow>
          if ok (length out) then send_groups P sid epoch ttl ok gids buf (out @ [buf])
          else (Some WriteErr, buf, out))"

fun send_subtrees ::
  "frame_pkg \<Rightarrow> announcer \<Rightarrow> u32 \<Rightarrow> (nat \<Rightarrow> bool) \<Rightarrow> nat \<Rightarrow> nat \<Rightarrow> bytes \<Rightarrow> bytes list \<Rightarrow>
   send_err option \<times> bytes list" where
  "send_subtrees P a epoch ok 0 i buf out = (None, out)"
| "send_subtrees P a epoch ok (Suc m) i buf out =
     (case Pool_At (an_pool a) (int i) of
        None \<Rightarrow> (Some AtPanic, out)
      | Some sid \<Rightarrow>
          (case send_groups P sid epoch (an_ttl a) ok (an_groups a) buf out of
             (Some e, _, out) \<Rightarrow> (Some e, out)
           | (None, buf, out) \<Rightarrow> send_subtrees P a epoch ok m (Suc i) buf out))"

definition sendUpTo ::
  "frame_pkg \<Rightarrow> announcer \<Rightarrow> u32 \<Rightarrow> (nat \<Rightarrow> bool) \<Rightarrow> int \<Rightarrow> bytes list \<Rightarrow> send_err option \<times> bytes list" where
  "sendUpTo P a epoch ok limit out =
     (if limit \<le> 0 then (None, out)
      else send_subtrees P a epoch ok (nat limit) 0 (replicate (SubtreeGroupAnnounceSize P) 0) out)"

text \<open>The next phase, on the 32-bit counter.\<close>

definition phase_next :: "announcer \<Rightarrow> u32 \<Rightarrow> u32" where
  "phase_next a cur =
     (let nxt = cur + word_of_int (an_phaseSize a);
          len = word_of_int (int (Pool_Len (an_pool a)))
      in if sint len < sint nxt then len else nxt)"

section \<open>Lemmas on parsing\<close>

definition hex_char :: "nat \<Rightarrow> byte" where
  "hex_char n = word_of_nat (if n < 10 then 48 + n else 87 + n)"

definition hex_text :: "bytes \<Rightarrow> bytes" where
  "hex_text bs = concat (map (\<lambda>b. [hex_char (unat b div 16), hex_char (unat b mod 16)]) bs)"

lemma hex_chars:
  "list_all (\<lambda>n. hexNibble (hex_char n) = word_of_nat n \<and> hexNibble (hex_char n) \<noteq> 0xFF \<and> hex_char n \<noteq> 0x2C) [0..<16]"
  by code_simp

lemma hexNibble_char:
  assumes "n < 16"
  shows "hexNibble (hex_char n) = word_of_nat n" "hexNibble (hex_char n) \<noteq> 0xFF" "hex_char n \<noteq> 0x2C"
proof -
  have "n \<in> set [0..<16]" using assms by simp
  with hex_chars have "hexNibble (hex_char n) = word_of_nat n \<and> hexNibble (hex_char n) \<noteq> 0xFF \<and> hex_char n \<noteq> 0x2C"
    unfolding list_all_iff by blast
  then show "hexNibble (hex_char n) = word_of_nat n" "hexNibble (hex_char n) \<noteq> 0xFF" "hex_char n \<noteq> 0x2C"
    by blast+
qed

lemma nibbles_join:
  fixes b :: byte
  shows "push_bit 4 (word_of_nat (unat b div 16)) OR word_of_nat (unat b mod 16) = b"
proof -
  have d: "unat b div 16 = drop_bit 4 (unat b)" by (simp add: drop_bit_eq_div)
  have m: "unat b mod 16 = take_bit 4 (unat b)" by (simp add: take_bit_eq_mod)
  show ?thesis
    unfolding d m
    by (rule bit_word_eqI) (auto simp: bit_simps)
qed

lemma hex_text_Cons: "hex_text (b # bs) = hex_char (unat b div 16) # hex_char (unat b mod 16) # hex_text bs"
  by (simp add: hex_text_def)

lemma unat_byte_div16: "unat (b :: byte) div 16 < 16"
  using unsigned_less [of b, where ?'a = nat] by simp

lemma hex_loop_text: "hex_loop (hex_text bs) = Some bs"
proof (induction bs)
  case Nil
  then show ?case by (simp add: hex_text_def)
next
  case (Cons b bs)
  then show ?case
    using hexNibble_char [OF unat_byte_div16 [of b]] hexNibble_char [of "unat b mod 16"] nibbles_join [of b]
    by (simp add: hex_text_Cons Let_def)
qed

lemma length_hex_text: "length (hex_text bs) = 2 * length bs"
  by (induction bs) (simp_all add: hex_text_def)

lemma hexDecode_text: "hexDecode (hex_text bs) = Some bs"
  by (simp add: hexDecode_def length_hex_text hex_loop_text)

lemma hex_text_no_comma: "0x2C \<notin> set (hex_text bs)"
  by (induction bs)
    (simp_all add: hex_text_def hexNibble_char(3) [symmetric] unat_byte_div16)

lemma hex_loop_length: "hex_loop s = Some b \<Longrightarrow> length b = length s div 2"
  by (induction s arbitrary: b rule: hex_loop.induct) (auto simp: Let_def split: if_splits)

text \<open>\<open>splitComma\<close> inverts joining with commas.\<close>

fun join_comma :: "bytes list \<Rightarrow> bytes" where
  "join_comma [] = []"
| "join_comma [p] = p"
| "join_comma (p # ps) = p @ 0x2C # join_comma ps"

lemma split_loop_part: "0x2C \<notin> set p \<Longrightarrow> split_loop (p @ s) cur out = split_loop s (cur @ p) out"
  by (induction p arbitrary: cur) auto

lemma split_loop_join:
  "ps \<noteq> [] \<Longrightarrow> \<forall>p \<in> set ps. 0x2C \<notin> set p \<Longrightarrow> split_loop (join_comma ps) [] out = out @ ps"
proof (induction ps arbitrary: out rule: join_comma.induct)
  case (2 p)
  then show ?case using split_loop_part [of p "[]" "[]" out] by simp
next
  case (3 p q ps)
  then show ?case using split_loop_part [of p "0x2C # join_comma (q # ps)" "[]" out] by simp
qed simp

lemma splitComma_join:
  "ps \<noteq> [] \<Longrightarrow> \<forall>p \<in> set ps. 0x2C \<notin> set p \<Longrightarrow> splitComma (join_comma ps) = ps"
  by (simp add: splitComma_def split_loop_join)

lemma split_loop_spec:
  "split_loop s cur out = out @ ps \<Longrightarrow> 0x2C \<notin> set cur \<Longrightarrow>
   ps \<noteq> [] \<and> join_comma ps = cur @ s \<and> (\<forall>p \<in> set ps. 0x2C \<notin> set p)"
proof (induction s cur out arbitrary: ps rule: split_loop.induct)
  case (1 cur out)
  then show ?case by auto
next
  case (2 c s cur out)
  show ?case
  proof (cases "c = 0x2C")
    case True
    have "\<exists>qs. split_loop s [] (out @ [cur]) = (out @ [cur]) @ qs"
    proof -
      have "\<exists>qs. split_loop s c' o' = o' @ qs" for c' o'
        by (induction s c' o' rule: split_loop.induct) auto
      then show ?thesis .
    qed
    then obtain qs where qs: "split_loop s [] (out @ [cur]) = (out @ [cur]) @ qs" ..
    with "2.IH"(1) [OF True qs] True "2.prems" show ?thesis by (cases qs) auto
  next
    case False
    with "2.IH"(2) [OF False, of ps] "2.prems" show ?thesis by simp
  qed
qed

lemma splitComma_spec:
  "splitComma s \<noteq> [] \<and> join_comma (splitComma s) = s \<and> (\<forall>p \<in> set (splitComma s). 0x2C \<notin> set p)"
  using split_loop_spec [of s "[]" "[]" "splitComma s"] by (simp add: splitComma_def)

lemma parse_parts_Inr:
  "parse_parts parts out = Inr gs \<longleftrightarrow>
   (\<exists>new. gs = out @ new \<and> (\<forall>i \<in> set new. length i = 16) \<and>
      map hexDecode (filter (\<lambda>p. p \<noteq> []) parts) = map Some new)"
proof (induction parts out rule: parse_parts.induct)
  case (2 part parts out)
  show ?case
  proof (cases "part = []")
    case True
    with "2.IH"(1) show ?thesis by simp
  next
    case False
    show ?thesis
    proof (cases "hexDecode part")
      case None
      with False show ?thesis by (auto simp: Cons_eq_map_conv)
    next
      case (Some b)
      show ?thesis
      proof (cases "length b = 16")
        case True
        with "2.IH"(2) [OF False Some] False Some show ?thesis
          by (auto simp: Cons_eq_map_conv map_eq_Cons_conv)
      next
        case no: False
        with False Some show ?thesis by (auto simp: Cons_eq_map_conv)
      qed
    qed
  qed
qed auto

section \<open>Lemmas on sending\<close>

definition datagrams ::
  "(bytes \<Rightarrow> bytes \<Rightarrow> u32 \<Rightarrow> u16 \<Rightarrow> bytes) \<Rightarrow> announcer \<Rightarrow> u32 \<Rightarrow> nat \<Rightarrow> nat \<Rightarrow> bytes list" where
  "datagrams enc a epoch i m =
     concat (map (\<lambda>j. map (\<lambda>g. enc (ids (an_pool a) ! j) g epoch (an_ttl a)) (an_groups a)) [i..<i + m])"

text \<open>The writes of a list of datagrams: up to the first that fails.\<close>

fun writes :: "(nat \<Rightarrow> bool) \<Rightarrow> bytes list \<Rightarrow> bytes list \<Rightarrow> send_err option \<times> bytes list" where
  "writes ok [] out = (None, out)"
| "writes ok (d # ds) out = (if ok (length out) then writes ok ds (out @ [d]) else (Some WriteErr, out))"

lemma writes_append:
  "writes ok (ds @ es) out =
     (case writes ok ds out of (None, out') \<Rightarrow> writes ok es out' | r \<Rightarrow> r)"
  by (induction ds arbitrary: out) simp_all

lemma writes_prefix:
  "\<exists>k. writes ok ds out = (if k = length ds then None else Some WriteErr, out @ take k ds) \<and> k \<le> length ds \<and>
     (k < length ds \<longrightarrow> \<not> ok (length out + k))"
proof (induction ds arbitrary: out)
  case Nil
  then show ?case by simp
next
  case (Cons d ds)
  show ?case
  proof (cases "ok (length out)")
    case True
    from Cons.IH [of "out @ [d]"] obtain k where
      "writes ok ds (out @ [d]) = (if k = length ds then None else Some WriteErr, (out @ [d]) @ take k ds)"
      "k \<le> length ds" "k < length ds \<longrightarrow> \<not> ok (length (out @ [d]) + k)" by blast
    with True show ?thesis by (intro exI [of _ "Suc k"]) auto
  next
    case False
    then show ?thesis by (intro exI [of _ 0]) simp
  qed
qed

definition announcer_ok :: "announcer \<Rightarrow> bool" where
  "announcer_ok a \<longleftrightarrow> (\<forall>i \<in> set (ids (an_pool a)). length i = 32) \<and> (\<forall>g \<in> set (an_groups a). length g = 16)"

lemma send_groups_writes:
  assumes "announce_doc P enc" and "length sid = 32" and "length buf = SubtreeGroupAnnounceSize P"
    and "\<forall>g \<in> set gids. length g = 16"
  shows "\<exists>buf'. send_groups P sid epoch ttl ok gids buf out =
     (fst (writes ok (map (\<lambda>g. enc sid g epoch ttl) gids) out), buf',
      snd (writes ok (map (\<lambda>g. enc sid g epoch ttl) gids) out)) \<and> length buf' = SubtreeGroupAnnounceSize P"
  using assms(3,4)
proof (induction gids arbitrary: buf out)
  case Nil
  then show ?case by simp
next
  case (Cons g gids)
  have e: "pkg_EncodeAnnounce P sid g epoch ttl buf = Some (enc sid g epoch ttl)"
    "length (enc sid g epoch ttl) = SubtreeGroupAnnounceSize P"
    using assms(1,2) Cons.prems unfolding announce_doc_def by auto
  then show ?case using Cons.IH [OF e(2)] Cons.prems by auto
qed

lemma send_subtrees_writes:
  assumes "announce_doc P enc" and "announcer_ok a" and "length buf = SubtreeGroupAnnounceSize P"
    and "i + m \<le> length (ids (an_pool a))"
  shows "send_subtrees P a epoch ok m i buf out = writes ok (datagrams enc a epoch i m) out"
  using assms(3,4)
proof (induction m arbitrary: i buf out)
  case 0
  then show ?case by (simp add: datagrams_def)
next
  case (Suc m)
  let ?sid = "ids (an_pool a) ! i"
  have at: "Pool_At (an_pool a) (int i) = Some ?sid" using Suc.prems by (simp add: Pool_At_def)
  have "length ?sid = 32" using assms(2) Suc.prems by (simp add: announcer_ok_def)
  then obtain buf' where g: "send_groups P ?sid epoch (an_ttl a) ok (an_groups a) buf out =
      (fst (writes ok (map (\<lambda>g. enc ?sid g epoch (an_ttl a)) (an_groups a)) out), buf',
       snd (writes ok (map (\<lambda>g. enc ?sid g epoch (an_ttl a)) (an_groups a)) out))"
    "length buf' = SubtreeGroupAnnounceSize P"
    using send_groups_writes [OF assms(1) _ Suc.prems(1)] assms(2) unfolding announcer_ok_def by blast
  have d: "datagrams enc a epoch i (Suc m) =
      map (\<lambda>g. enc ?sid g epoch (an_ttl a)) (an_groups a) @ datagrams enc a epoch (Suc i) m"
    by (simp add: datagrams_def upt_conv_Cons del: upt_Suc)
  have ih: "send_subtrees P a epoch ok m (Suc i) buf' o' = writes ok (datagrams enc a epoch (Suc i) m) o'" for o'
    by (rule Suc.IH) (use g(2) Suc.prems in auto)
  show ?case
    by (simp add: at g(1) d writes_append ih split: prod.split option.split)
qed

lemma sendUpTo_writes:
  assumes "announce_doc P enc" and "announcer_ok a" and "limit \<le> int (Pool_Len (an_pool a))"
  shows "sendUpTo P a epoch ok limit out = writes ok (datagrams enc a epoch 0 (nat limit)) out"
proof (cases "limit \<le> 0")
  case True
  then show ?thesis by (simp add: sendUpTo_def datagrams_def)
next
  case False
  then show ?thesis
    using send_subtrees_writes [OF assms(1,2), of _ 0 "nat limit"] assms(3)
    by (simp add: sendUpTo_def Pool_Len_def)
qed

section \<open>Lemmas on phases\<close>

lemma sint_small: "0 \<le> v \<Longrightarrow> v < 2 ^ 31 \<Longrightarrow> sint (word_of_int v :: u32) = v"
  by (simp add: sint_sbintrunc' signed_take_bit_int_eq_self)

lemma phase_next_min:
  assumes "0 < an_phaseSize a" "an_phaseSize a + int (Pool_Len (an_pool a)) < 2 ^ 31"
    and "0 \<le> c" "c \<le> int (Pool_Len (an_pool a))"
  shows "phase_next a (word_of_int c) = word_of_int (min (c + an_phaseSize a) (int (Pool_Len (an_pool a))))"
  using assms sint_small [of "c + an_phaseSize a"] sint_small [of "int (Pool_Len (an_pool a))"]
  by (simp add: phase_next_def Let_def min_def)

text \<open>Without the bound on the phase size the 32-bit counter goes negative and no phase is ever sent.\<close>

lemma phase_overflow:
  assumes "an_phaseSize a = 2 ^ 31" and "Pool_Len (an_pool a) < 2 ^ 31"
  shows "sint (phase_next a 0) < 0 \<and> sint (phase_next a (phase_next a 0)) = 0"
proof -
  have len: "sint (word_of_int (int (Pool_Len (an_pool a))) :: u32) = int (Pool_Len (an_pool a))"
    using assms(2) by (intro sint_small) simp_all
  have m: "sint (0x80000000 :: u32) = - 2147483648" by simp
  show ?thesis using assms(1) len m by (simp add: phase_next_def Let_def)
qed

section \<open>Properties\<close>

text \<open>Group-id parsing is exact: the comma-separated parts, empty ones skipped, are accepted
  precisely when each decodes from hexadecimal to 16 bytes, and then the ids are those bytes in order;
  any list of 16-byte ids written in hexadecimal and joined with commas parses back to itself.\<close>

theorem ParseGroupIDs_exact:
  "(ParseGroupIDs s = Inr gs \<longleftrightarrow>
      (\<forall>g \<in> set gs. length g = 16) \<and>
      map hexDecode (filter (\<lambda>p. p \<noteq> []) (splitComma s)) = map Some gs) \<and>
   join_comma (splitComma s) = s \<and> (\<forall>p \<in> set (splitComma s). 0x2C \<notin> set p) \<and>
   ((\<forall>g \<in> set gs. length g = 16) \<longrightarrow> ParseGroupIDs (join_comma (map hex_text gs)) = Inr gs)"
proof (intro conjI impI)
  have empty: "splitComma [] = [[]]" by (simp add: splitComma_def)
  have iff: "ParseGroupIDs s = Inr gs \<longleftrightarrow>
      (\<forall>g \<in> set gs. length g = 16) \<and>
      map hexDecode (filter (\<lambda>p. p \<noteq> []) (splitComma s)) = map Some gs" for s gs
    by (auto simp: ParseGroupIDs_def parse_parts_Inr empty)
  then show "ParseGroupIDs s = Inr gs \<longleftrightarrow>
      (\<forall>g \<in> set gs. length g = 16) \<and>
      map hexDecode (filter (\<lambda>p. p \<noteq> []) (splitComma s)) = map Some gs" .
  show "join_comma (splitComma s) = s" "\<forall>p \<in> set (splitComma s). 0x2C \<notin> set p"
    using splitComma_spec [of s] by simp_all
  assume g: "\<forall>g \<in> set gs. length g = 16"
  show "ParseGroupIDs (join_comma (map hex_text gs)) = Inr gs"
  proof (cases "gs = []")
    case True
    then show ?thesis by (simp add: ParseGroupIDs_def)
  next
    case False
    then have "splitComma (join_comma (map hex_text gs)) = map hex_text gs"
      using hex_text_no_comma by (intro splitComma_join) auto
    moreover have "filter (\<lambda>p. p \<noteq> []) (map hex_text gs) = map hex_text gs"
      using g length_hex_text by (intro filter_True) (metis (no_types, lifting) imageE length_0_conv list.set_map mult_eq_0_iff zero_neq_numeral)
    ultimately show ?thesis
      unfolding iff using g by (simp add: hexDecode_text comp_def)
  qed
qed

theorem ParseGroupIDs_exact_witness:
  "ParseGroupIDs (join_comma [hex_text (replicate 16 0xAB), hex_text (replicate 16 0x0F)]) =
     Inr [replicate 16 0xAB, replicate 16 0x0F]"
  using ParseGroupIDs_exact [of "[]" "[replicate 16 0xAB, replicate 16 0x0F]"] by simp

text \<open>One announce pass sends, in order, exactly one datagram per pair of an active subtree and a
  group, each the encoding of that pair with the pass's epoch and TTL; it stops at the first failed
  write with everything before it sent, and never reads outside the pool.\<close>

theorem sendUpTo_exact:
  assumes "announce_doc P enc" and "announcer_ok a" and "limit \<le> int (Pool_Len (an_pool a))"
  shows "\<exists>k. k \<le> length (datagrams enc a epoch 0 (nat limit)) \<and>
     sendUpTo P a epoch ok limit out =
       (if k = length (datagrams enc a epoch 0 (nat limit)) then None else Some WriteErr,
        out @ take k (datagrams enc a epoch 0 (nat limit))) \<and>
     (k < length (datagrams enc a epoch 0 (nat limit)) \<longrightarrow> \<not> ok (length out + k))"
  using writes_prefix [of ok "datagrams enc a epoch 0 (nat limit)" out]
  by (auto simp: sendUpTo_writes [OF assms])

theorem sendUpTo_exact_witness:
  "sendUpTo ref_frame \<lparr>an_groups = [replicate 16 1], an_pool = \<lparr>ids = [replicate 32 2, replicate 32 3]\<rparr>,
      an_ttl = 9, an_phaseSize = 0, an_phaseInterval = 0\<rparr> 7 (\<lambda>i. True) 2 [] =
   (None, [ref_announce (replicate 32 2) (replicate 16 1) 7 9, ref_announce (replicate 32 3) (replicate 16 1) 7 9])"
proof -
  let ?a = "\<lparr>an_groups = [replicate 16 1], an_pool = \<lparr>ids = [replicate 32 2, replicate 32 3]\<rparr>,
      an_ttl = 9, an_phaseSize = 0, an_phaseInterval = 0\<rparr> :: announcer"
  have "announcer_ok ?a" "2 \<le> int (Pool_Len (an_pool ?a))"
    by (simp_all add: announcer_ok_def Pool_Len_def)
  from sendUpTo_exact [OF ref_announce_doc this, of 7 "\<lambda>i. True" "[]"]
  obtain k where k: "k \<le> length (datagrams ref_announce ?a 7 0 2)"
    "sendUpTo ref_frame ?a 7 (\<lambda>i. True) 2 [] =
       (if k = length (datagrams ref_announce ?a 7 0 2) then None else Some WriteErr,
        take k (datagrams ref_announce ?a 7 0 2))"
    "\<not> k < length (datagrams ref_announce ?a 7 0 2)" by auto
  then have "k = length (datagrams ref_announce ?a 7 0 2)" by simp
  with k(2) show ?thesis by (simp add: datagrams_def numeral_2_eq_2)
qed

end
