(* ===== verification/Announce_Run.thy ===== *)
theory Announce_Run
  imports Announce
begin

text \<open>
  \<open>internal/announce\<close>, second part: \<open>Sender.Run\<close> from the dial to its return, as atomic steps of its three
  goroutines: \<open>Run\<close> itself, the one that closes the connection when the context ends, and in phased mode
  the one that advances the phase. A pass of \<open>sendUpTo\<close> holds \<open>writeMu\<close> throughout and is one step; the
  outcome of its write \<open>n\<close> is \<open>ok n\<close>, always a failure on a closed connection, and its epoch is read anew. The
  connection is closed on cancellation and when \<open>Run\<close> returns; the phase goroutine outlives \<open>Run\<close> until the
  context ends. Times are left out: a tick may come whenever its ticker runs.
\<close>

section \<open>The run\<close>

datatype run_result = R_dial | R_send send_err | R_ctx

datatype main_pc = M_dial | M_first | M_loop | M_return run_result | M_done run_result

datatype phase_pc = P_none | P_wait | P_send u32 | P_gone

record ann_run =
  ar_main :: main_pc
  ar_ph :: phase_pc
  ar_phase :: u32
  ar_advances :: nat
  ar_cancelled :: bool
  ar_closed :: bool
  ar_crashed :: bool
  ar_sent :: "bytes list"

definition phased :: "announcer \<Rightarrow> bool" where
  "phased a \<longleftrightarrow> 0 < an_phaseSize a \<and> 0 < an_phaseInterval a"

definition ann_init :: ann_run where
  "ann_init = \<lparr>ar_main = M_dial, ar_ph = P_none, ar_phase = 0, ar_advances = 0, ar_cancelled = False,
     ar_closed = False, ar_crashed = False, ar_sent = []\<rparr>"

definition dialled :: "ann_run \<Rightarrow> bool" where
  "dialled s \<longleftrightarrow> ar_main s \<noteq> M_dial \<and> ar_main s \<noteq> M_done R_dial"

datatype ann_label =
  A_dial bool | A_cancel | A_closer | A_first u32 "nat \<Rightarrow> bool" | A_tick u32 "nat \<Rightarrow> bool" | A_ctx | A_defer
  | A_advance | A_phase u32 "nat \<Rightarrow> bool" | A_leave

text \<open>One pass over the connection, as the goroutine that makes it sees its outcome.\<close>

definition ann_pass ::
  "frame_pkg \<Rightarrow> announcer \<Rightarrow> u32 \<Rightarrow> (nat \<Rightarrow> bool) \<Rightarrow> int \<Rightarrow> ann_run \<Rightarrow> send_err option \<times> ann_run" where
  "ann_pass P a epoch ok limit s =
     (case sendUpTo P a epoch (\<lambda>n. \<not> ar_closed s \<and> ok n) limit (ar_sent s) of
        (r, out) \<Rightarrow> (r, s\<lparr>ar_sent := out, ar_crashed := (r = Some AtPanic)\<rparr>))"

definition main_pass ::
  "frame_pkg \<Rightarrow> announcer \<Rightarrow> u32 \<Rightarrow> (nat \<Rightarrow> bool) \<Rightarrow> int \<Rightarrow> ann_run \<Rightarrow> ann_run" where
  "main_pass P a epoch ok limit s =
     (case ann_pass P a epoch ok limit s of
        (None, s) \<Rightarrow> s\<lparr>ar_main := M_loop\<rparr>
      | (Some e, s) \<Rightarrow> s\<lparr>ar_main := M_return (R_send e)\<rparr>)"

definition ann_step :: "frame_pkg \<Rightarrow> announcer \<Rightarrow> ann_label \<Rightarrow> ann_run \<Rightarrow> ann_run option" where
  "ann_step P a l s =
     (if ar_crashed s then None else
      case l of
        A_dial up \<Rightarrow>
          if ar_main s \<noteq> M_dial then None
          else if \<not> up then Some (s\<lparr>ar_main := M_done R_dial\<rparr>)
          else if phased a then Some (s\<lparr>ar_main := M_loop, ar_ph := P_wait, ar_phase := 0\<rparr>)
          else Some (s\<lparr>ar_main := M_first, ar_phase := word_of_int (int (Pool_Len (an_pool a)))\<rparr>)
      | A_cancel \<Rightarrow> Some (s\<lparr>ar_cancelled := True\<rparr>)
      | A_closer \<Rightarrow> if ar_cancelled s \<and> dialled s then Some (s\<lparr>ar_closed := True\<rparr>) else None
      | A_first epoch ok \<Rightarrow>
          if ar_main s = M_first then Some (main_pass P a epoch ok (int (Pool_Len (an_pool a))) s) else None
      | A_tick epoch ok \<Rightarrow>
          if ar_main s \<noteq> M_loop then None
          else if sint (ar_phase s) \<le> 0 then Some s
          else Some (main_pass P a epoch ok (sint (ar_phase s)) s)
      | A_ctx \<Rightarrow> if ar_main s = M_loop \<and> ar_cancelled s then Some (s\<lparr>ar_main := M_return R_ctx\<rparr>) else None
      | A_defer \<Rightarrow>
          (case ar_main s of M_return r \<Rightarrow> Some (s\<lparr>ar_main := M_done r, ar_closed := True\<rparr>) | _ \<Rightarrow> None)
      | A_advance \<Rightarrow>
          if ar_ph s = P_wait
          then let n = phase_next a (ar_phase s)
               in Some (s\<lparr>ar_phase := n, ar_advances := Suc (ar_advances s), ar_ph := P_send n\<rparr>)
          else None
      | A_phase epoch ok \<Rightarrow>
          (case ar_ph s of
             P_send n \<Rightarrow> Some ((snd (ann_pass P a epoch ok (sint n) s))\<lparr>ar_ph := P_wait\<rparr>)
           | _ \<Rightarrow> None)
      | A_leave \<Rightarrow> if ar_ph s = P_wait \<and> ar_cancelled s then Some (s\<lparr>ar_ph := P_gone\<rparr>) else None)"

fun ann_path :: "frame_pkg \<Rightarrow> announcer \<Rightarrow> ann_label list \<Rightarrow> ann_run \<Rightarrow> ann_run option" where
  "ann_path P a [] s = Some s"
| "ann_path P a (l # ls) s = (case ann_step P a l s of None \<Rightarrow> None | Some t \<Rightarrow> ann_path P a ls t)"

definition announce_run :: "frame_pkg \<Rightarrow> announcer \<Rightarrow> ann_label list \<Rightarrow> ann_run option" where
  "announce_run P a ls = ann_path P a ls ann_init"

section \<open>Passes\<close>

definition phase_at :: "announcer \<Rightarrow> nat \<Rightarrow> int" where
  "phase_at a k = min (int k * an_phaseSize a) (int (Pool_Len (an_pool a)))"


text \<open>What has been sent is a sequence of passes, each over at most \<open>m\<close> subtrees and perhaps cut short.\<close>

definition passes ::
  "(bytes \<Rightarrow> bytes \<Rightarrow> u32 \<Rightarrow> u16 \<Rightarrow> bytes) \<Rightarrow> announcer \<Rightarrow> nat \<Rightarrow> bytes list \<Rightarrow> bool" where
  "passes enc a m out \<longleftrightarrow>
     (\<exists>ps. out = concat (map (\<lambda>(epoch, n, k). take k (datagrams enc a epoch 0 n)) ps) \<and> list_all (\<lambda>(epoch, n, k). n \<le> m) ps)"

lemma passes_Nil [simp]: "passes enc a m []"
  unfolding passes_def by (rule exI [of _ "[]"]) simp

lemma passes_snoc:
  assumes "passes enc a m out" and "n \<le> m"
  shows "passes enc a m (out @ take k (datagrams enc a epoch 0 n))"
proof -
  obtain ps where "out = concat (map (\<lambda>(epoch, n, k). take k (datagrams enc a epoch 0 n)) ps)" "list_all (\<lambda>(epoch, n, k). n \<le> m) ps"
    using assms(1) by (auto simp: passes_def)
  then show ?thesis unfolding passes_def using assms(2) by (intro exI [of _ "ps @ [(epoch, n, k)]"]) simp
qed

lemma passes_mono: "passes enc a m out \<Longrightarrow> m \<le> n \<Longrightarrow> passes enc a n out"
  unfolding passes_def list_all_iff by (fastforce elim: order_trans)

text \<open>The subtrees announced in phased mode after so many advances, in plain mode, before a dial.\<close>

definition active_subtrees :: "announcer \<Rightarrow> ann_run \<Rightarrow> int" where
  "active_subtrees a s =
     (if \<not> dialled s then 0 else if phased a then phase_at a (ar_advances s) else int (Pool_Len (an_pool a)))"

definition ann_fits :: "announcer \<Rightarrow> bool" where
  "ann_fits a \<longleftrightarrow> int (Pool_Len (an_pool a)) < 2 ^ 31 \<and>
     (phased a \<longrightarrow> an_phaseSize a + int (Pool_Len (an_pool a)) < 2 ^ 31)"

text \<open>\<open>Run\<close> returns the error of the dial, of a failed write, or of the context.\<close>

fun result_ok :: "bool \<Rightarrow> run_result \<Rightarrow> bool" where
  "result_ok cancelled R_dial \<longleftrightarrow> True"
| "result_ok cancelled (R_send e) \<longleftrightarrow> e = WriteErr"
| "result_ok cancelled R_ctx \<longleftrightarrow> cancelled"

lemma result_ok_mono: "result_ok b r \<Longrightarrow> result_ok True r"
  by (cases r) simp_all

definition main_ok :: "announcer \<Rightarrow> ann_run \<Rightarrow> bool" where
  "main_ok a s \<longleftrightarrow>
     (case ar_main s of
        M_first \<Rightarrow> \<not> phased a
      | M_return r \<Rightarrow> result_ok (ar_cancelled s) r \<and> r \<noteq> R_dial
      | M_done r \<Rightarrow> result_ok (ar_cancelled s) r \<and> (r \<noteq> R_dial \<longrightarrow> ar_closed s)
      | _ \<Rightarrow> True)"

definition ann_inv :: "(bytes \<Rightarrow> bytes \<Rightarrow> u32 \<Rightarrow> u16 \<Rightarrow> bytes) \<Rightarrow> announcer \<Rightarrow> ann_run \<Rightarrow> bool" where
  "ann_inv enc a s \<longleftrightarrow>
     \<not> ar_crashed s \<and> ar_phase s = word_of_int (active_subtrees a s) \<and>
     passes enc a (nat (active_subtrees a s)) (ar_sent s) \<and>
     (ar_ph s = P_none \<longleftrightarrow> \<not> (phased a \<and> dialled s)) \<and> ar_ph s \<in> {P_none, P_wait, P_gone, P_send (ar_phase s)} \<and>
     (\<not> dialled s \<longrightarrow> ar_sent s = [] \<and> ar_advances s = 0) \<and>
     main_ok a s"

lemma active_bounds:
  assumes "ann_fits a"
  shows "0 \<le> active_subtrees a s" "active_subtrees a s \<le> int (Pool_Len (an_pool a))"
    "sint (word_of_int (active_subtrees a s) :: u32) = active_subtrees a s"
proof -
  show b: "0 \<le> active_subtrees a s" "active_subtrees a s \<le> int (Pool_Len (an_pool a))"
    by (simp_all add: active_subtrees_def phase_at_def phased_def)
  show "sint (word_of_int (active_subtrees a s) :: u32) = active_subtrees a s"
    using b assms by (intro sint_small) (simp_all add: ann_fits_def)
qed

lemma ann_invD:
  assumes "ann_inv enc a s" and "ann_fits a"
  shows "\<not> ar_crashed s" "passes enc a (nat (active_subtrees a s)) (ar_sent s)" "sint (ar_phase s) = active_subtrees a s"
    "ar_ph s = P_send n \<Longrightarrow> n = ar_phase s" "ar_ph s = P_send n \<Longrightarrow> phased a \<and> dialled s"
    "ar_ph s = P_wait \<Longrightarrow> phased a \<and> dialled s" "main_ok a s"
proof -
  have ph: "ar_phase s = word_of_int (active_subtrees a s)" using assms(1) unfolding ann_inv_def by blast
  show "sint (ar_phase s) = active_subtrees a s" unfolding ph by (rule active_bounds(3) [OF assms(2)])
  show "\<not> ar_crashed s" "passes enc a (nat (active_subtrees a s)) (ar_sent s)" "main_ok a s"
    using assms(1) unfolding ann_inv_def by blast+
  have p: "ar_ph s = P_none \<longleftrightarrow> \<not> (phased a \<and> dialled s)" "ar_ph s \<in> {P_none, P_wait, P_gone, P_send (ar_phase s)}"
    using assms(1) unfolding ann_inv_def by blast+
  show "n = ar_phase s" if "ar_ph s = P_send n" using p(2) that by simp
  show "phased a \<and> dialled s" if "ar_ph s = P_send n" using p(1) that by simp
  show "phased a \<and> dialled s" if "ar_ph s = P_wait" using p(1) that by simp
qed

text \<open>A pass over the active subtrees only adds a pass.\<close>

lemma ann_pass_good:
  assumes "announce_doc P enc" "announcer_ok a" and "limit \<le> int (Pool_Len (an_pool a))"
    and "ann_pass P a epoch ok limit s = (r, t)" and "passes enc a m (ar_sent s)" "nat limit \<le> m" "\<not> ar_crashed s"
  obtains out where "t = s\<lparr>ar_sent := out\<rparr>" "r = None \<or> r = Some WriteErr" "passes enc a m out"
    "ar_closed s \<longrightarrow> out = ar_sent s"
proof -
  let ?ok = "\<lambda>n. \<not> ar_closed s \<and> ok n" and ?ds = "datagrams enc a epoch 0 (nat limit)"
  obtain k where k: "writes ?ok ?ds (ar_sent s) = (if k = length ?ds then None else Some WriteErr, ar_sent s @ take k ?ds)"
    using writes_prefix by blast
  have "writes (\<lambda>n. False) ds out = (if ds = [] then None else Some WriteErr, out)" for ds out by (cases ds) simp_all
  then have "ar_closed s \<longrightarrow> ar_sent s @ take k ?ds = ar_sent s" using k by (auto split: if_splits)
  moreover have "t = s\<lparr>ar_sent := ar_sent s @ take k ?ds\<rparr>" "r = None \<or> r = Some WriteErr"
    using assms(4,7) by (auto simp: ann_pass_def sendUpTo_writes [OF assms(1-3)] k split: if_splits)
  ultimately show thesis using passes_snoc [OF assms(5,6)] that by blast
qed


lemma main_pass_good:
  assumes "announce_doc P enc" "announcer_ok a" and "limit \<le> int (Pool_Len (an_pool a))"
    and "passes enc a m (ar_sent s)" "nat limit \<le> m" "\<not> ar_crashed s"
  obtains out where "passes enc a m out" "ar_closed s \<longrightarrow> out = ar_sent s"
    "main_pass P a epoch ok limit s = s\<lparr>ar_sent := out, ar_main := M_loop\<rparr> \<or>
     main_pass P a epoch ok limit s = s\<lparr>ar_sent := out, ar_main := M_return (R_send WriteErr)\<rparr>"
proof -
  obtain r t where p: "ann_pass P a epoch ok limit s = (r, t)" by (cases "ann_pass P a epoch ok limit s")
  from ann_pass_good [OF assms(1-3) p assms(4-6)] obtain out where
    t: "t = s\<lparr>ar_sent := out\<rparr>" and r: "r = None \<or> r = Some WriteErr" and out: "passes enc a m out"
    "ar_closed s \<longrightarrow> out = ar_sent s" by blast
  show thesis
    by (rule that [OF out]) (use r p t in \<open>auto simp: main_pass_def\<close>)
qed

lemma ann_inv_init: "ann_inv enc a ann_init"
  by (simp add: ann_inv_def ann_init_def dialled_def active_subtrees_def main_ok_def)

lemma advance_good:
  assumes "ann_fits a" "phased a"
  shows "phase_next a (word_of_int (phase_at a k)) = word_of_int (phase_at a (Suc k))" "phase_at a k \<le> phase_at a (Suc k)"
proof -
  have "0 < an_phaseSize a" "an_phaseSize a + int (Pool_Len (an_pool a)) < 2 ^ 31"
    using assms by (simp_all add: ann_fits_def phased_def)
  then show "phase_next a (word_of_int (phase_at a k)) = word_of_int (phase_at a (Suc k))" "phase_at a k \<le> phase_at a (Suc k)"
    by (simp_all add: phase_next_min phase_at_def algebra_simps min_def)
qed

text \<open>A step that leaves the phase alone.\<close>

lemma ann_inv_keep:
  assumes "ann_inv enc a s" and "dialled s" "dialled t" and "ar_phase t = ar_phase s" "ar_advances t = ar_advances s"
    and "ar_crashed t = ar_crashed s" and "passes enc a (nat (active_subtrees a s)) (ar_sent t)"
    and "ar_ph t = ar_ph s \<or> ar_ph s \<noteq> P_none \<and> ar_ph t \<in> {P_wait, P_gone}" and "main_ok a t"
  shows "ann_inv enc a t"
proof -
  have act: "active_subtrees a t = active_subtrees a s" using assms(2,3,5) by (simp add: active_subtrees_def)
  have "\<not> ar_crashed t" "ar_phase t = word_of_int (active_subtrees a s)" "ar_ph s = P_none \<longleftrightarrow> \<not> (phased a \<and> dialled s)"
    "ar_ph s \<in> {P_none, P_wait, P_gone, P_send (ar_phase t)}"
    using assms(1) unfolding ann_inv_def assms(4,6) by blast+
  then show ?thesis using assms(2,3,7-9) unfolding ann_inv_def act by auto
qed

lemma main_step:
  assumes "announce_doc P enc" "announcer_ok a" "ann_fits a" and inv: "ann_inv enc a s"
    and "ar_main s \<in> {M_first, M_loop}" and "limit \<le> active_subtrees a s"
  shows "ann_inv enc a (main_pass P a epoch ok limit s)"
proof -
  note D = ann_invD [OF inv assms(3)]
  have lim: "limit \<le> int (Pool_Len (an_pool a))" using assms(6) active_bounds(2) [OF assms(3), of s] by linarith
  from main_pass_good [OF assms(1,2) lim D(2) nat_mono [OF assms(6)] D(1), of epoch ok] obtain out where
    o: "passes enc a (nat (active_subtrees a s)) out"
    "main_pass P a epoch ok limit s = s\<lparr>ar_sent := out, ar_main := M_loop\<rparr> \<or>
     main_pass P a epoch ok limit s = s\<lparr>ar_sent := out, ar_main := M_return (R_send WriteErr)\<rparr>" by blast
  have "dialled s" using assms(5) by (auto simp: dialled_def)
  with o(2) show ?thesis
    by (elim disjE) (rule ann_inv_keep [OF inv], auto simp: o(1) dialled_def main_ok_def)+
qed

lemma ann_step_inv:
  assumes "announce_doc P enc" "announcer_ok a" "ann_fits a" and inv: "ann_inv enc a s" and "ann_step P a l s = Some t"
  shows "ann_inv enc a t"
proof (cases l)
  case (A_first epoch ok)
  then have m: "ar_main s = M_first" and t: "t = main_pass P a epoch ok (int (Pool_Len (an_pool a))) s"
    using assms(5) by (auto simp: ann_step_def split: if_splits)
  then have "int (Pool_Len (an_pool a)) \<le> active_subtrees a s"
    using ann_invD(7) [OF inv assms(3)] by (simp add: active_subtrees_def dialled_def main_ok_def)
  then show ?thesis unfolding t using m by (intro main_step [OF assms(1-4)]) simp_all
next
  case (A_tick epoch ok)
  then have "t = s \<or> ar_main s = M_loop \<and> t = main_pass P a epoch ok (sint (ar_phase s)) s"
    using assms(5) by (auto simp: ann_step_def split: if_splits)
  then show ?thesis
    using inv main_step [OF assms(1-4), of "sint (ar_phase s)" epoch ok] ann_invD(3) [OF inv assms(3)] by auto
next
  case A_advance
  then have w: "ar_ph s = P_wait" and t: "t = s\<lparr>ar_phase := phase_next a (ar_phase s), ar_advances := Suc (ar_advances s),
      ar_ph := P_send (phase_next a (ar_phase s))\<rparr>"
    using assms(5) by (auto simp: ann_step_def Let_def split: if_splits)
  note D = ann_invD [OF inv assms(3)]
  have d: "dialled s" "phased a" using D(6) [OF w] by simp_all
  note adv = advance_good [OF assms(3) d(2), of "ar_advances s"]
  have act: "active_subtrees a s = phase_at a (ar_advances s)" using d by (simp add: active_subtrees_def)
  have ph: "ar_phase s = word_of_int (phase_at a (ar_advances s))" using inv unfolding ann_inv_def act by blast
  have pa: "passes enc a (nat (phase_at a (Suc (ar_advances s)))) (ar_sent s)"
    by (rule passes_mono [OF D(2)]) (simp add: nat_mono adv(2) act)
  have t: "t = s\<lparr>ar_phase := word_of_int (phase_at a (Suc (ar_advances s))), ar_advances := Suc (ar_advances s),
      ar_ph := P_send (word_of_int (phase_at a (Suc (ar_advances s))))\<rparr>"
    unfolding t ph adv(1) ..
  have "active_subtrees a t = phase_at a (Suc (ar_advances s))" "dialled t" "main_ok a t"
    using d D(7) by (simp_all add: t active_subtrees_def dialled_def main_ok_def cong: main_pc.case_cong)
  then show ?thesis unfolding ann_inv_def using pa d(2) D(1) by (simp add: t)
next
  case (A_phase epoch ok)
  then obtain n where w: "ar_ph s = P_send n" and t: "t = (snd (ann_pass P a epoch ok (sint n) s))\<lparr>ar_ph := P_wait\<rparr>"
    using assms(5) by (auto simp: ann_step_def split: if_splits phase_pc.splits)
  note D = ann_invD [OF inv assms(3)]
  have n: "sint n = active_subtrees a s" using D(3,4) w by simp
  have lim: "sint n \<le> int (Pool_Len (an_pool a))" "nat (sint n) \<le> nat (active_subtrees a s)"
    using active_bounds(2) [OF assms(3)] by (simp_all add: n)
  obtain r u where p: "ann_pass P a epoch ok (sint n) s = (r, u)" by (cases "ann_pass P a epoch ok (sint n) s")
  from ann_pass_good [OF assms(1,2) lim(1) p D(2) lim(2) D(1)]
  obtain out where u: "u = s\<lparr>ar_sent := out\<rparr>" "passes enc a (nat (active_subtrees a s)) out" by blast
  have t: "t = s\<lparr>ar_sent := out, ar_ph := P_wait\<rparr>" by (simp add: t p u(1))
  show ?thesis
    using D(7) D(5) [OF w] w u(2) unfolding t
    by (intro ann_inv_keep [OF inv]) (auto simp: dialled_def main_ok_def cong: main_pc.case_cong)
next
  case (A_dial up)
  then show ?thesis using assms(3,5) inv
    by (auto simp: ann_step_def ann_inv_def dialled_def active_subtrees_def phase_at_def phased_def main_ok_def split: if_splits)
next
  case A_cancel
  then have t: "t = s\<lparr>ar_cancelled := True\<rparr>" using assms(5) by (simp add: ann_step_def split: if_splits)
  have "main_ok a t" using ann_invD(7) [OF inv assms(3)] result_ok_mono by (auto simp: t main_ok_def split: main_pc.splits)
  moreover have "active_subtrees a t = active_subtrees a s" "dialled t = dialled s" by (simp_all add: t active_subtrees_def dialled_def)
  ultimately show ?thesis using inv unfolding ann_inv_def by (auto simp: t)
next
  case A_closer
  then have t: "t = s\<lparr>ar_closed := True\<rparr>" "dialled s" using assms(5) by (simp_all add: ann_step_def split: if_splits)
  then show ?thesis using ann_invD [OF inv assms(3)]
    by (intro ann_inv_keep [OF inv]) (auto simp: dialled_def main_ok_def split: main_pc.splits)
next
  case A_ctx
  then have t: "t = s\<lparr>ar_main := M_return R_ctx\<rparr>" "ar_main s = M_loop" "ar_cancelled s"
    using assms(5) by (simp_all add: ann_step_def split: if_splits)
  then show ?thesis using ann_invD [OF inv assms(3)]
    by (intro ann_inv_keep [OF inv]) (auto simp: dialled_def main_ok_def)
next
  case A_defer
  then obtain r where t: "t = s\<lparr>ar_main := M_done r, ar_closed := True\<rparr>" "ar_main s = M_return r"
    using assms(5) by (auto simp: ann_step_def split: if_splits main_pc.splits)
  then show ?thesis using ann_invD [OF inv assms(3)]
    by (intro ann_inv_keep [OF inv]) (auto simp: dialled_def main_ok_def)
next
  case A_leave
  then have t: "t = s\<lparr>ar_ph := P_gone\<rparr>" "ar_ph s = P_wait" using assms(5) by (simp_all add: ann_step_def split: if_splits)
  then show ?thesis using ann_invD [OF inv assms(3)]
    by (intro ann_inv_keep [OF inv]) (auto simp: dialled_def main_ok_def cong: main_pc.case_cong)
qed

lemma ann_path_inv:
  assumes "announce_doc P enc" "announcer_ok a" "ann_fits a"
  shows "ann_path P a ls s = Some t \<Longrightarrow> ann_inv enc a s \<Longrightarrow> ann_inv enc a t"
proof (induction ls arbitrary: s)
  case (Cons l ls)
  then show ?case using ann_step_inv [OF assms] by (auto split: option.splits)
qed simp

lemma announce_run_inv:
  assumes "announce_doc P enc" "announcer_ok a" "ann_fits a" and "announce_run P a ls = Some s"
  shows "ann_inv enc a s"
  using ann_path_inv [OF assms(1-3) assms(4) [unfolded announce_run_def] ann_inv_init] .

section \<open>After the return\<close>

lemma closed_step:
  assumes "announce_doc P enc" "announcer_ok a" "ann_fits a" and inv: "ann_inv enc a s" and "ar_closed s"
    and "ann_step P a l s = Some t"
  shows "ar_closed t \<and> ar_sent t = ar_sent s"
proof -
  note D = ann_invD [OF inv assms(3)]
  note s = D(2,1)
  note ph = D(3)
  have lim: "sint (ar_phase s) \<le> int (Pool_Len (an_pool a))" using active_bounds(2) [OF assms(3)] by (simp add: ph)
  have full: "nat (int (Pool_Len (an_pool a))) \<le> Pool_Len (an_pool a)" "nat (sint (ar_phase s)) \<le> Pool_Len (an_pool a)"
    using lim by simp_all
  have p: "passes enc a (Pool_Len (an_pool a)) (ar_sent s)"
    using passes_mono [OF s(1), of "Pool_Len (an_pool a)"] active_bounds(2) [OF assms(3), of s] by simp
  have main: "ar_closed (main_pass P a epoch ok m s) \<and> ar_sent (main_pass P a epoch ok m s) = ar_sent s"
    if m: "m \<le> int (Pool_Len (an_pool a))" "nat m \<le> Pool_Len (an_pool a)" for epoch ok m
  proof -
    obtain out where "ar_closed s \<longrightarrow> out = ar_sent s"
      "main_pass P a epoch ok m s = s\<lparr>ar_sent := out, ar_main := M_loop\<rparr> \<or>
       main_pass P a epoch ok m s = s\<lparr>ar_sent := out, ar_main := M_return (R_send WriteErr)\<rparr>"
      using main_pass_good [OF assms(1,2) m(1) p m(2) s(2), of epoch ok] by metis
    then show ?thesis using assms(5) by auto
  qed
  show ?thesis
  proof (cases l)
    case (A_phase epoch ok)
    then obtain k where w: "ar_ph s = P_send k" and t: "t = (snd (ann_pass P a epoch ok (sint k) s))\<lparr>ar_ph := P_wait\<rparr>"
      using assms(6) by (auto simp: ann_step_def split: if_splits phase_pc.splits)
    then have k: "k = ar_phase s" using D(4) by simp
    obtain r u where q: "ann_pass P a epoch ok (sint k) s = (r, u)" by (cases "ann_pass P a epoch ok (sint k) s")
    from ann_pass_good [OF assms(1,2) lim [folded k] q p full(2) [folded k] s(2)]
    obtain out where u: "u = s\<lparr>ar_sent := out\<rparr>" "ar_closed s \<longrightarrow> out = ar_sent s" by blast
    then show ?thesis using assms(5) by (simp add: t q)
  qed (use assms(5,6) main lim full in \<open>auto simp: ann_step_def Let_def split: if_splits main_pc.splits phase_pc.splits\<close>)
qed

lemma closed_path:
  assumes "announce_doc P enc" "announcer_ok a" "ann_fits a"
  shows "ann_path P a ls s = Some t \<Longrightarrow> ann_inv enc a s \<Longrightarrow> ar_closed s \<Longrightarrow> ar_closed t \<and> ar_sent t = ar_sent s"
proof (induction ls arbitrary: s)
  case (Cons l ls)
  from Cons.prems(1) obtain u where u: "ann_step P a l s = Some u" "ann_path P a ls u = Some t"
    by (auto split: option.splits)
  show ?case
    using closed_step [OF assms Cons.prems(2,3) u(1)] Cons.IH [OF u(2) ann_step_inv [OF assms Cons.prems(2) u(1)]] by simp
qed simp


lemma no_dial_path:
  assumes "announce_doc P enc" "announcer_ok a" "ann_fits a"
  shows "ann_path P a ls s = Some t \<Longrightarrow> ann_inv enc a s \<Longrightarrow> ar_main s = M_done R_dial \<Longrightarrow> ar_sent t = []"
proof (induction ls arbitrary: s)
  case Nil
  then show ?case by (simp add: ann_inv_def dialled_def)
next
  case (Cons l ls)
  from Cons.prems(1) obtain u where u: "ann_step P a l s = Some u" "ann_path P a ls u = Some t"
    by (auto split: option.splits)
  have "ar_ph s = P_none" using Cons.prems(2,3) unfolding ann_inv_def dialled_def by blast
  then have "ar_main u = M_done R_dial"
    using u(1) Cons.prems(3) by (cases l) (auto simp: ann_step_def dialled_def split: if_splits)
  with Cons.IH [OF u(2) ann_step_inv [OF assms Cons.prems(2) u(1)]] show ?case .
qed

lemma returned_path:
  assumes "announce_doc P enc" "announcer_ok a" "ann_fits a" and inv: "ann_inv enc a s" and "ar_main s = M_done r"
    and "ann_path P a ls s = Some t"
  shows "ar_sent t = ar_sent s"
proof (cases "r = R_dial")
  case True
  then have "ar_sent s = []" using inv assms(5) unfolding ann_inv_def dialled_def by blast
  then show ?thesis using no_dial_path [OF assms(1-3,6) inv] assms(5) True by simp
next
  case False
  then have "ar_closed s" using ann_invD(7) [OF inv assms(3)] assms(5) by (simp add: main_ok_def)
  then show ?thesis using closed_path [OF assms(1-3,6) inv] by simp
qed

text \<open>
  \<open>Run\<close>'s own steps, ticks apart, only ever go forward: each lowers the rank of where it is, and no step of the
  other goroutines or tick raises it. Once the context has ended one of them is always possible, whatever the
  dial and the writes give.
\<close>

definition own_label :: "ann_label \<Rightarrow> bool" where
  "own_label l \<longleftrightarrow> (\<exists>up epoch ok. l \<in> {A_dial up, A_first epoch ok, A_ctx, A_defer})"

fun main_rank :: "main_pc \<Rightarrow> nat" where
  "main_rank M_dial = 4"
| "main_rank M_first = 3"
| "main_rank M_loop = 2"
| "main_rank (M_return r) = 1"
| "main_rank (M_done r) = 0"

lemma main_rank_0: "main_rank m = 0 \<longleftrightarrow> (\<exists>r. m = M_done r)"
  by (cases m) simp_all

lemma main_pass_main:
  "ar_main (main_pass P a epoch ok m s) = M_loop \<or> (\<exists>r. ar_main (main_pass P a epoch ok m s) = M_return r)"
  "ar_cancelled (main_pass P a epoch ok m s) = ar_cancelled s"
  by (auto simp: main_pass_def ann_pass_def split: prod.splits option.splits)

lemma main_pass_rank: "main_rank (ar_main (main_pass P a epoch ok m s)) \<le> 2"
  using main_pass_main(1) [of P a epoch ok m s] by auto

lemma ann_pass_main: "ar_main (snd (ann_pass P a epoch ok m s)) = ar_main s"
  "ar_cancelled (snd (ann_pass P a epoch ok m s)) = ar_cancelled s"
  by (auto simp: ann_pass_def split: prod.splits)

lemma own_step_rank:
  assumes "ann_step P a l s = Some t"
  shows "main_rank (ar_main t) + (if own_label l then 1 else 0) \<le> main_rank (ar_main s)"
proof (cases l)
  case (A_first epoch ok)
  then have "t = main_pass P a epoch ok (int (Pool_Len (an_pool a))) s" "ar_main s = M_first"
    using assms by (auto simp: ann_step_def split: if_splits)
  then show ?thesis using main_pass_rank [of P a epoch ok "int (Pool_Len (an_pool a))" s] by simp
next
  case (A_tick epoch ok)
  then have "t = s \<or> t = main_pass P a epoch ok (sint (ar_phase s)) s" "ar_main s = M_loop"
    using assms by (auto simp: ann_step_def split: if_splits)
  moreover have "\<not> own_label l" using A_tick by (simp add: own_label_def)
  ultimately show ?thesis using main_pass_rank [of P a epoch ok "sint (ar_phase s)" s] by auto
qed (use assms in \<open>auto simp: ann_step_def own_label_def Let_def ann_pass_main
      split: if_splits main_pc.splits phase_pc.splits\<close>)

lemma own_steps_rank:
  "ann_path P a ls s = Some t \<Longrightarrow> main_rank (ar_main t) + length (filter own_label ls) \<le> main_rank (ar_main s)"
proof (induction ls arbitrary: s)
  case (Cons l ls)
  from Cons.prems obtain u where u: "ann_step P a l s = Some u" "ann_path P a ls u = Some t"
    by (auto split: option.splits)
  show ?case using own_step_rank [OF u(1)] Cons.IH [OF u(2)] by (auto split: if_splits)
qed simp

lemma cancelled_step: "ann_step P a l s = Some t \<Longrightarrow> ar_cancelled s \<Longrightarrow> ar_cancelled t"
  by (cases l) (auto simp: ann_step_def Let_def ann_pass_main main_pass_main
      split: if_splits main_pc.splits phase_pc.splits)

lemma cancelled_path: "ann_path P a ls s = Some t \<Longrightarrow> ar_cancelled s \<Longrightarrow> ar_cancelled t"
  by (induction ls arbitrary: s) (auto dest: cancelled_step split: option.splits)

lemma own_step_possible:
  assumes "\<not> ar_crashed s" "ar_cancelled s" and "main_rank (ar_main s) \<noteq> 0"
  shows "\<exists>l\<in>{A_dial up, A_first epoch ok, A_ctx, A_defer}. ann_step P a l s \<noteq> None"
  using assms by (cases "ar_main s") (auto simp: ann_step_def)

text \<open>So, with any outcomes of the dial and of the first pass, \<open>Run\<close>'s own steps alone take it to its return.\<close>

lemma cancelled_returns:
  assumes "announce_doc P enc" "announcer_ok a" "ann_fits a" and "ann_inv enc a s" and "ar_cancelled s"
  shows "\<exists>ls t r. set ls \<subseteq> {A_dial up, A_first epoch ok, A_ctx, A_defer} \<and> length ls \<le> main_rank (ar_main s) \<and>
     ann_path P a ls s = Some t \<and> ar_main t = M_done r"
  using assms(4,5)
proof (induction "main_rank (ar_main s)" arbitrary: s rule: less_induct)
  case less
  show ?case
  proof (cases "main_rank (ar_main s) = 0")
    case True
    then show ?thesis by (intro exI [of _ "[]"]) (simp add: main_rank_0)
  next
    case False
    from own_step_possible [OF ann_invD(1) [OF less.prems(1) assms(3)] less.prems(2) False]
    obtain l where l: "l \<in> {A_dial up, A_first epoch ok, A_ctx, A_defer}" and step: "ann_step P a l s \<noteq> None" by (rule bexE)
    from step obtain u where u: "ann_step P a l s = Some u" by (rule not_None_eq [THEN iffD1, THEN exE])
    have "own_label l" using l by (auto simp: own_label_def)
    then have rank: "main_rank (ar_main u) < main_rank (ar_main s)" using own_step_rank [OF u] by simp
    note next_state = ann_step_inv [OF assms(1-3) less.prems(1) u] cancelled_step [OF u less.prems(2)]
    from less.hyps [OF rank next_state] obtain ls t r where "set ls \<subseteq> {A_dial up, A_first epoch ok, A_ctx, A_defer}" "length ls \<le> main_rank (ar_main u)"
      "ann_path P a ls u = Some t" "ar_main t = M_done r" by blast
    with l u rank show ?thesis by (intro exI [of _ "l # ls"] exI [of _ t] exI [of _ r]) simp
  qed
qed

lemma main_rank_le: "main_rank m \<le> 4"
  by (cases m) simp_all

section \<open>Properties\<close>

text \<open>C38: The membership ramp. In every interleaving of the three goroutines with the end of the context, and
  whatever writes fail, the phase counter is exactly the number of advances times the phase size, capped at
  the pool size (the pool size without phases); what has been sent is a sequence of whole passes, never
  interleaved, each in order over at most that many subtrees and cut short only at its end; and no pass reads
  outside the pool. This needs the phase size plus the pool size to fit the 32-bit counter.\<close>

theorem phase_ramp:
  assumes "announce_doc P enc" "announcer_ok a" "ann_fits a" and "announce_run P a ls = Some s"
  shows "let m = (if \<not> dialled s then 0
                  else if phased a then min (int (ar_advances s) * an_phaseSize a) (int (Pool_Len (an_pool a)))
                  else int (Pool_Len (an_pool a))) in
     sint (ar_phase s) = m \<and> passes enc a (nat m) (ar_sent s) \<and> \<not> ar_crashed s"
  using ann_invD(1-3) [OF announce_run_inv [OF assms] assms(3)]
  unfolding active_subtrees_def phase_at_def Let_def by simp

definition demo_ann :: announcer where
  "demo_ann = \<lparr>an_groups = [replicate 16 1], an_pool = \<lparr>ids = [replicate 32 2, replicate 32 3, replicate 32 4]\<rparr>, an_ttl = 9,
     an_phaseSize = 2, an_phaseInterval = 5\<rparr>"

lemma demo_ann_ok: "announcer_ok demo_ann" "ann_fits demo_ann"
  by (simp_all add: announcer_ok_def ann_fits_def demo_ann_def Pool_Len_def)

lemma demo_pass:
  "\<not> ar_closed s \<Longrightarrow> \<not> ar_crashed s \<Longrightarrow> ann_pass ref_frame demo_ann 7 (\<lambda>_. True) 2 s =
     (None, s\<lparr>ar_sent := ar_sent s @ [ref_announce (replicate 32 2) (replicate 16 1) 7 9,
        ref_announce (replicate 32 3) (replicate 16 1) 7 9]\<rparr>)"
proof -
  have d: "datagrams ref_announce demo_ann 7 0 2 =
      [ref_announce (replicate 32 2) (replicate 16 1) 7 9, ref_announce (replicate 32 3) (replicate 16 1) 7 9]"
    by (simp add: datagrams_def demo_ann_def numeral_2_eq_2)
  have "2 \<le> int (Pool_Len (an_pool demo_ann))" by (simp add: demo_ann_def Pool_Len_def)
  note w = sendUpTo_writes [OF ref_announce_doc demo_ann_ok(1) this]
  show "\<not> ar_closed s \<Longrightarrow> \<not> ar_crashed s \<Longrightarrow> ?thesis" by (simp add: ann_pass_def w d)
qed

lemma demo_next: "phase_next demo_ann 0 = 2" "phase_next demo_ann 2 = 3"
  by (simp_all add: phase_next_def demo_ann_def Pool_Len_def Let_def)

lemma demo_ramp:
  "\<exists>s. announce_run ref_frame demo_ann [A_dial True, A_tick 7 (\<lambda>_. True), A_advance, A_phase 7 (\<lambda>_. True), A_advance, A_cancel,
     A_ctx, A_closer, A_defer] = Some s \<and> ar_advances s = 2 \<and> ar_main s = M_done R_ctx \<and>
     ar_sent s = [ref_announce (replicate 32 2) (replicate 16 1) 7 9, ref_announce (replicate 32 3) (replicate 16 1) 7 9]"
  by (simp add: announce_run_def ann_init_def ann_step_def demo_next demo_pass phased_def demo_ann_def [THEN arg_cong [where f = an_phaseSize]]
      demo_ann_def [THEN arg_cong [where f = an_phaseInterval]] dialled_def Let_def)

theorem phase_ramp_witness:
  "\<exists>s. announce_run ref_frame demo_ann [A_dial True, A_tick 7 (\<lambda>_. True), A_advance, A_phase 7 (\<lambda>_. True), A_advance, A_cancel,
     A_ctx, A_closer, A_defer] = Some s \<and> sint (ar_phase s) = 3"
proof -
  obtain s where s: "announce_run ref_frame demo_ann [A_dial True, A_tick 7 (\<lambda>_. True), A_advance, A_phase 7 (\<lambda>_. True),
     A_advance, A_cancel, A_ctx, A_closer, A_defer] = Some s" "ar_advances s = 2" "ar_main s = M_done R_ctx"
    using demo_ramp by blast
  have "sint (ar_phase s) = 3"
    using phase_ramp [OF ref_announce_doc demo_ann_ok s(1)] s(2,3)
    by (simp add: dialled_def phased_def demo_ann_def Pool_Len_def Let_def)
  with s(1) show ?thesis by blast
qed

text \<open>C39: The announcer's life ends cleanly. \<open>Run\<close> returns the error of the dial, in which case nothing is
  ever sent, of a failed write, or of a context that has indeed ended; a dialled connection is closed by then; and
  after the return nothing more reaches the proxy, although the phase goroutine may go on. Once the context has
  ended, \<open>Run\<close> goes to its return: in every interleaving it makes at most four more steps other than
  ticks (dial, first pass, context, deferred close); as long as it has not returned one of these is possible,
  whatever the dial and the writes give; and these steps alone, with any such outcomes, take it to the return.
  A ticker that is ready may be served any number of times in between.\<close>

theorem announce_ends:
  assumes "announce_doc P enc" "announcer_ok a" "ann_fits a" and "announce_run P a ls = Some s"
  shows "(\<forall>r. ar_main s = M_done r \<longrightarrow>
       result_ok (ar_cancelled s) r \<and> (if r = R_dial then ar_sent s = [] else ar_closed s) \<and>
       (\<forall>ls' t. ann_path P a ls' s = Some t \<longrightarrow> ar_sent t = ar_sent s)) \<and>
     (ar_cancelled s \<longrightarrow>
       (\<forall>ls' t. ann_path P a ls' s = Some t \<longrightarrow>
          length (filter own_label ls') \<le> 4 \<and>
          (\<forall>up epoch ok. (\<exists>r. ar_main t = M_done r) \<or>
             (\<exists>l\<in>{A_dial up, A_first epoch ok, A_ctx, A_defer}. ann_step P a l t \<noteq> None))) \<and>
       (\<forall>up epoch ok. \<exists>ls' t r. set ls' \<subseteq> {A_dial up, A_first epoch ok, A_ctx, A_defer} \<and> length ls' \<le> 4 \<and>
          ann_path P a ls' s = Some t \<and> ar_main t = M_done r))"
proof -
  note inv = announce_run_inv [OF assms]
  have "result_ok (ar_cancelled s) r \<and> (if r = R_dial then ar_sent s = [] else ar_closed s)" if r: "ar_main s = M_done r" for r
  proof -
    have "main_ok a s" "\<not> dialled s \<longrightarrow> ar_sent s = []" using inv unfolding ann_inv_def by blast+
    then show ?thesis using r by (simp add: main_ok_def dialled_def)
  qed
  moreover have "length (filter own_label ls') \<le> 4" if "ann_path P a ls' s = Some t" for ls' t
    using own_steps_rank [OF that] main_rank_le [of "ar_main s"] by linarith
  moreover have "(\<exists>r. ar_main t = M_done r) \<or> (\<exists>l\<in>{A_dial up, A_first epoch ok, A_ctx, A_defer}. ann_step P a l t \<noteq> None)"
    if "ar_cancelled s" "ann_path P a ls' s = Some t" for ls' t up epoch ok
    using own_step_possible [OF ann_invD(1) [OF ann_path_inv [OF assms(1-3) that(2) inv] assms(3)] cancelled_path [OF that(2,1)]]
    unfolding main_rank_0 by blast
  moreover have "\<exists>ls' t r. set ls' \<subseteq> {A_dial up, A_first epoch ok, A_ctx, A_defer} \<and> length ls' \<le> 4 \<and>
      ann_path P a ls' s = Some t \<and> ar_main t = M_done r" if "ar_cancelled s" for up epoch ok
    using cancelled_returns [OF assms(1-3) inv that, of up epoch ok] main_rank_le [of "ar_main s"] order_trans by blast
  ultimately show ?thesis using returned_path [OF assms(1-3) inv] by blast
qed

theorem announce_ends_witness:
  "\<exists>s. announce_run ref_frame demo_ann [A_dial True, A_tick 7 (\<lambda>_. True), A_advance, A_phase 7 (\<lambda>_. True), A_advance, A_cancel,
     A_ctx, A_closer, A_defer] = Some s \<and> ar_main s = M_done R_ctx \<and> ar_closed s"
proof -
  obtain s where s: "announce_run ref_frame demo_ann [A_dial True, A_tick 7 (\<lambda>_. True), A_advance, A_phase 7 (\<lambda>_. True),
     A_advance, A_cancel, A_ctx, A_closer, A_defer] = Some s" "ar_main s = M_done R_ctx"
    using demo_ramp by blast
  have "result_ok (ar_cancelled s) R_ctx \<and> (if R_ctx = R_dial then ar_sent s = [] else ar_closed s)"
    using announce_ends [OF ref_announce_doc demo_ann_ok s(1)] s(2) by blast
  with s show ?thesis by auto
qed

end
