(* ===== verification/Cli.thy ===== *)
theory Cli
  imports Sender_Worker Announce Sink_Format
begin

text \<open>
  \<open>cmd/subtx-gen\<close>: from the command line to the run. The flags are a record (the addresses, which only name
  the target, are left to the transport); the machine and the packages outside the repository
  (\<open>net.ParseIP\<close>, the interface lookup, \<open>shard.ParseScope\<close> and \<open>shard.Prefix\<close>, the number of processors) are
  an environment. Flag values are ASCII.
\<close>

section \<open>Strings\<close>

definition bytes_of :: "string \<Rightarrow> bytes" where
  "bytes_of s = map (\<lambda>c. word_of_nat (of_char c)) s"

definition ToLower :: "string \<Rightarrow> string" where
  "ToLower s = map (\<lambda>c. let n = of_char c :: nat in if 65 \<le> n \<and> n \<le> 90 then char_of (n + 32) else c) s"

text \<open>\<open>strings.TrimSpace\<close>, \<open>strconv.ParseUint(s, base, 16)\<close> and \<open>hex.DecodeString\<close>.\<close>

definition is_space :: "char \<Rightarrow> bool" where
  "is_space c \<longleftrightarrow> (of_char c :: nat) \<in> {9, 10, 11, 12, 13, 32}"

definition TrimSpace :: "string \<Rightarrow> string" where
  "TrimSpace s = rev (dropWhile is_space (rev (dropWhile is_space s)))"

definition digit_of :: "char \<Rightarrow> nat option" where
  "digit_of c =
     (let n = of_char c :: nat in
      if 48 \<le> n \<and> n \<le> 57 then Some (n - 48)
      else if 97 \<le> n \<and> n \<le> 122 then Some (n - 97 + 10)
      else if 65 \<le> n \<and> n \<le> 90 then Some (n - 65 + 10)
      else None)"

fun uint_loop :: "nat \<Rightarrow> nat \<Rightarrow> string \<Rightarrow> nat option" where
  "uint_loop base n [] = Some n"
| "uint_loop base n (c # s) =
     (case digit_of c of
        None \<Rightarrow> None
      | Some d \<Rightarrow>
          if base \<le> d then None
          else if 65535 < n * base + d then None
          else uint_loop base (n * base + d) s)"

definition ParseUint :: "string \<Rightarrow> nat \<Rightarrow> nat option" where
  "ParseUint s base = (if s = [] then None else uint_loop base 0 s)"

fun hex_pairs :: "string \<Rightarrow> bytes option" where
  "hex_pairs [] = Some []"
| "hex_pairs [c] = None"
| "hex_pairs (a # b # s) =
     (case (digit_of a, digit_of b) of
        (Some x, Some y) \<Rightarrow>
          if x < 16 \<and> y < 16 then map_option (Cons (word_of_nat (16 * x + y))) (hex_pairs s) else None
      | _ \<Rightarrow> None)"

definition parseUint16 :: "string \<Rightarrow> u16 option" where
  "parseUint16 s =
     (let s = TrimSpace s;
          hex = take 2 s = ''0x'' \<or> take 2 s = ''0X'';
          base = (if hex then 16 else 10);
          s = (if hex then drop 2 s else s)
      in map_option word_of_nat (ParseUint s base))"

section \<open>The command line\<close>

record gen_flags =
  fl_tcp :: bool
  fl_frameVer :: int
  fl_shardBits :: u64
  fl_subtrees :: int
  fl_subtreeSeed :: string
  fl_pps :: int
  fl_duration :: int
  fl_count :: u64
  fl_workers :: int
  fl_payloadSize :: int
  fl_payloadFormat :: string
  fl_seqStart :: u64
  fl_seqGapEvery :: u64
  fl_seqGapSize :: u64
  fl_seqGapDelay :: int
  fl_logInterval :: int
  fl_printSubtrees :: bool
  fl_subtreeGroup :: string
  fl_announceAddr :: string
  fl_announceInterval :: int
  fl_announceTTL :: nat
  fl_announcePhaseSize :: int
  fl_announcePhaseInterval :: int
  fl_corruptTxIDRate :: nat
  fl_mode :: string
  fl_bindSource :: string
  fl_egressIface :: string
  fl_mcGroupID :: string
  fl_sourceMode :: string
  fl_mcScope :: string
  fl_egressPort :: int

datatype source_mode = SourceModeASM | SourceModeSSM

record gen_env =
  ge_NumCPU :: int
  ge_ParseIP :: "string \<Rightarrow> (bytes \<times> bool) option" \<comment> \<open>the address, and whether \<open>To4\<close> is non-nil\<close>
  ge_Iface :: "string \<Rightarrow> nat option"
  ge_ParseScope :: "string \<Rightarrow> nat option"
  ge_Prefix :: "source_mode \<Rightarrow> nat \<Rightarrow> u16 option"

datatype gen_err =
  Bad_frame_version | Bad_payload_format | Payload_too_small | Bind_required | Bind_invalid | Iface_unknown
  | Bad_source_mode | Bad_scope | Bad_prefix | Bad_group_id | Bad_port | Bad_mode | Bad_subtree_group

record launch =
  la_runner :: Runner
  la_mcast :: "mcast option"
  la_announce :: "(announcer \<times> int) option"

text \<open>The direct-mode fields of the run's configuration; in unicast mode they keep their zero values.\<close>

definition launch_mcast :: "launch \<Rightarrow> mcast" where
  "launch_mcast l =
     (case la_mcast l of
        None \<Rightarrow> \<lparr>mc_bind = [], mc_iface = None, mc_prefix = 0, mc_group = 0, mc_port = 0\<rparr>
      | Some mc \<Rightarrow> mc)"

datatype gen_result = Printed "string list" | Refused gen_err | Ready launch

definition seed_bytes :: "string \<Rightarrow> bytes" where
  "seed_bytes s = (case hex_pairs s of Some b \<Rightarrow> if 0 < length b then b else bytes_of s | None \<Rightarrow> bytes_of s)"

definition frame_version :: "int \<Rightarrow> byte option" where
  "frame_version v = (if v = 1 then Some V1 else if v = 2 then Some V2 else None)"

definition payload_format :: "string \<Rightarrow> PayloadFormat option" where
  "payload_format s =
     (if s = ''brc124'' \<or> s = ''raw'' then Some PayloadBRC124
      else if s = ''brc128'' \<or> s = ''ef'' then Some PayloadBRC128
      else if s = ''mixed'' then Some PayloadMixed
      else None)"

text \<open>\<open>String\<close> gives the spelling the flag accepts.\<close>

lemma payload_format_String: "payload_format (PayloadFormat_String p) = Some p"
  by (cases p) (simp_all add: payload_format_def PayloadFormat_String_def)

definition source_mode_of :: "string \<Rightarrow> source_mode option" where
  "source_mode_of s =
     (if ToLower s = ''asm'' then Some SourceModeASM
      else if ToLower s = ''ssm'' then Some SourceModeSSM else None)"

text \<open>The flags of direct-multicast mode, checked in the order of the code.\<close>

definition direct_config :: "gen_env \<Rightarrow> gen_flags \<Rightarrow> gen_err + mcast" where
  "direct_config env fl =
     (if fl_bindSource fl = [] then Inl Bind_required
      else case ge_ParseIP env (fl_bindSource fl) of
        None \<Rightarrow> Inl Bind_invalid
      | Some (ip, is4) \<Rightarrow>
          if is4 then Inl Bind_invalid
          else case (if fl_egressIface fl \<noteq> [] then map_option Some (ge_Iface env (fl_egressIface fl)) else Some None) of
            None \<Rightarrow> Inl Iface_unknown
          | Some ifc \<Rightarrow>
              (case source_mode_of (fl_sourceMode fl) of
                 None \<Rightarrow> Inl Bad_source_mode
               | Some sm \<Rightarrow>
                   (case ge_ParseScope env (fl_mcScope fl) of
                      None \<Rightarrow> Inl Bad_scope
                    | Some scope \<Rightarrow>
                        (case ge_Prefix env sm scope of
                           None \<Rightarrow> Inl Bad_prefix
                         | Some pfx \<Rightarrow>
                             (case parseUint16 (fl_mcGroupID fl) of
                                None \<Rightarrow> Inl Bad_group_id
                              | Some gid \<Rightarrow>
                                  if fl_egressPort fl < 1 \<or> 65535 < fl_egressPort fl then Inl Bad_port
                                  else Inr \<lparr>mc_bind = ip, mc_iface = ifc, mc_prefix = pfx, mc_group = gid,
                                            mc_port = fl_egressPort fl\<rparr>)))))"

definition mode_config :: "gen_env \<Rightarrow> gen_flags \<Rightarrow> gen_err + Mode \<times> mcast option" where
  "mode_config env fl =
     (if ToLower (fl_mode fl) = ''unicast'' then Inr (ModeUnicast, None)
      else if ToLower (fl_mode fl) = ''direct-multicast'' then
        (case direct_config env fl of Inl e \<Rightarrow> Inl e | Inr mc \<Rightarrow> Inr (ModeDirectMulticast, Some mc))
      else Inl Bad_mode)"

definition announce_config :: "gen_flags \<Rightarrow> Pool \<Rightarrow> gen_err + (announcer \<times> int) option" where
  "announce_config fl pool =
     (if fl_announceAddr fl \<noteq> [] \<and> fl_subtreeGroup fl \<noteq> [] then
        (case ParseGroupIDs (bytes_of (fl_subtreeGroup fl)) of
           Inl _ \<Rightarrow> Inl Bad_subtree_group
         | Inr groupIDs \<Rightarrow>
             Inr (Some (\<lparr>an_groups = groupIDs, an_pool = pool, an_ttl = word_of_nat (fl_announceTTL fl),
                         an_phaseSize = fl_announcePhaseSize fl, an_phaseInterval = fl_announcePhaseInterval fl\<rparr>,
                        fl_announceInterval fl)))
      else Inr None)"

definition subtree_line :: "Pool \<Rightarrow> nat \<Rightarrow> string" where
  "subtree_line pool i = (if i < 10 then ''0'' else []) @ dec i @ ''  '' @ the (Pool_HexAt pool (int i))"

definition gen_main :: "gen_env \<Rightarrow> gen_flags \<Rightarrow> gen_result" where
  "gen_main env fl =
     (let pool = subtree_New (fl_subtrees fl) (seed_bytes (fl_subtreeSeed fl)) in
      if fl_printSubtrees fl then Printed (map (subtree_line pool) [0..<Pool_Len pool])
      else case frame_version (fl_frameVer fl) of
        None \<Rightarrow> Refused Bad_frame_version
      | Some fv \<Rightarrow>
          (case payload_format (fl_payloadFormat fl) of
             None \<Rightarrow> Refused Bad_payload_format
           | Some pf \<Rightarrow>
               if fl_payloadSize fl < MinPayloadSize pf then Refused Payload_too_small
               else
                 let w = (if fl_workers fl \<le> 0 then ge_NumCPU env else fl_workers fl);
                     alloc = seq_New \<lparr>Start = fl_seqStart fl, GapEvery = fl_seqGapEvery fl,
                                      GapSize = fl_seqGapSize fl, GapDelay = fl_seqGapDelay fl\<rparr>
                 in case mode_config env fl of
                      Inl e \<Rightarrow> Refused e
                    | Inr (m, mc) \<Rightarrow>
                        let cfg = \<lparr>c_Mode = m, c_TCP = fl_tcp fl, c_FrameVersion = fv, c_Workers = w,
                              c_PPS = fl_pps fl, c_Duration = fl_duration fl, c_Count = fl_count fl,
                              c_PayloadSize = fl_payloadSize fl, c_PayloadFormat = pf,
                              c_LogInterval = fl_logInterval fl, c_CorruptTxIDRate = fl_corruptTxIDRate fl,
                              c_ShardBits = fl_shardBits fl\<rparr>
                        in case announce_config fl pool of
                             Inl e \<Rightarrow> Refused e
                           | Inr ann \<Rightarrow>
                               Ready \<lparr>la_runner = sender_New cfg pool (Some alloc), la_mcast = mc, la_announce = ann\<rparr>))"

text \<open>The check at the head of \<open>Run\<close>.\<close>

definition Run_refuses :: "Runner \<Rightarrow> bool" where
  "Run_refuses r \<longleftrightarrow> c_PayloadSize (r_cfg r) < MinPayloadSize (c_PayloadFormat (r_cfg r))"

section \<open>Numbers\<close>

definition uint_value :: "nat \<Rightarrow> nat \<Rightarrow> string \<Rightarrow> nat" where
  "uint_value base n s = foldl (\<lambda>a c. a * base + the (digit_of c)) n s"

definition digits :: "nat \<Rightarrow> string \<Rightarrow> bool" where
  "digits base s = list_all (\<lambda>c. case digit_of c of None \<Rightarrow> False | Some d \<Rightarrow> d < base) s"

lemma uint_value_ge: "0 < base \<Longrightarrow> n \<le> uint_value base n s"
proof (induction s arbitrary: n)
  case Nil
  then show ?case by (simp add: uint_value_def)
next
  case (Cons c s)
  have "n \<le> n * base + the (digit_of c)" using Cons.prems by (cases base) auto
  also have "\<dots> \<le> uint_value base n (c # s)" using Cons.IH [OF Cons.prems] by (simp add: uint_value_def)
  finally show ?case .
qed

lemma uint_loop_exact:
  assumes "0 < base" and "n \<le> 65535"
  shows "uint_loop base n s = (if digits base s \<and> uint_value base n s \<le> 65535 then Some (uint_value base n s) else None)"
  using assms(2)
proof (induction s arbitrary: n)
  case Nil
  then show ?case by (simp add: uint_value_def digits_def)
next
  case (Cons c s)
  show ?case
  proof (cases "digit_of c")
    case None
    then show ?thesis by (simp add: digits_def)
  next
    case (Some d)
    have v: "uint_value base n (c # s) = uint_value base (n * base + d) s" using Some by (simp add: uint_value_def)
    have "n * base + d \<le> uint_value base (n * base + d) s" by (rule uint_value_ge [OF assms(1)])
    then show ?thesis using Some Cons.IH [of "n * base + d"] unfolding v by (auto simp: digits_def)
  qed
qed

text \<open>\<open>parseUint16\<close> accepts exactly the 16-bit numbers: after trimming spaces, a nonempty string of decimal
  digits, or of hexadecimal digits behind a \<open>0x\<close> prefix, whose value is below \<open>2 ^ 16\<close>; and it returns that
  value. Everything else is an error, an empty string and hexadecimal digits without the prefix included.\<close>

theorem parseUint16_exact:
  "parseUint16 s =
     (let t = TrimSpace s; hex = take 2 t = ''0x'' \<or> take 2 t = ''0X'';
          base = (if hex then 16 else 10); u = (if hex then drop 2 t else t)
      in if u \<noteq> [] \<and> digits base u \<and> uint_value base 0 u < 2 ^ 16 then Some (word_of_nat (uint_value base 0 u)) else None)"
proof -
  have "ParseUint u base = (if u \<noteq> [] \<and> digits base u \<and> uint_value base 0 u < 2 ^ 16 then Some (uint_value base 0 u) else None)"
    if "0 < base" for u base
    using uint_loop_exact [OF that, of 0 u] by (auto simp: ParseUint_def)
  then show ?thesis by (simp add: parseUint16_def Let_def)
qed

text \<open>The comment of \<open>parseUint16\<close> lists \<open>0B\<close> among the accepted forms; it is refused, as \<open>B\<close> is no decimal digit.\<close>

lemma parse_0B: "parseUint16 ''0B'' = None" "parseUint16 ''0x000B'' = Some 11" "parseUint16 '' 11'' = Some 11"
  by (simp_all add: parseUint16_def TrimSpace_def is_space_def ParseUint_def digit_of_def Let_def)

section \<open>Accepted command lines\<close>

lemma payload_floor: "60 \<le> MinPayloadSize pf"
  by (cases pf) (simp_all add: MinPayloadSize_def MinRawSize_def MinEFSize_def)

text \<open>Everything a \<open>Ready\<close> result says of the flags, in the order of the checks.\<close>

definition accepted :: "gen_env \<Rightarrow> gen_flags \<Rightarrow> launch \<Rightarrow> bool" where
  "accepted env fl l \<longleftrightarrow>
     (\<exists>fv pf m mc ann.
        \<not> fl_printSubtrees fl \<and> frame_version (fl_frameVer fl) = Some fv \<and>
        payload_format (fl_payloadFormat fl) = Some pf \<and> MinPayloadSize pf \<le> fl_payloadSize fl \<and>
        mode_config env fl = Inr (m, mc) \<and>
        announce_config fl (subtree_New (fl_subtrees fl) (seed_bytes (fl_subtreeSeed fl))) = Inr ann \<and>
        l = \<lparr>la_runner = sender_New
               \<lparr>c_Mode = m, c_TCP = fl_tcp fl, c_FrameVersion = fv,
                c_Workers = (if fl_workers fl \<le> 0 then ge_NumCPU env else fl_workers fl),
                c_PPS = fl_pps fl, c_Duration = fl_duration fl, c_Count = fl_count fl,
                c_PayloadSize = fl_payloadSize fl, c_PayloadFormat = pf,
                c_LogInterval = fl_logInterval fl, c_CorruptTxIDRate = fl_corruptTxIDRate fl,
                c_ShardBits = fl_shardBits fl\<rparr>
               (subtree_New (fl_subtrees fl) (seed_bytes (fl_subtreeSeed fl)))
               (Some (seq_New \<lparr>Start = fl_seqStart fl, GapEvery = fl_seqGapEvery fl,
                               GapSize = fl_seqGapSize fl, GapDelay = fl_seqGapDelay fl\<rparr>)),
             la_mcast = mc, la_announce = ann\<rparr>)"

lemma gen_main_ready: "gen_main env fl = Ready l \<longleftrightarrow> accepted env fl l"
  unfolding accepted_def gen_main_def Let_def
  by (auto split: option.splits sum.splits if_splits)

text \<open>What each flag that is parsed must look like, apart from the code that parses it.\<close>

definition uint16_text :: "string \<Rightarrow> bool" where
  "uint16_text s \<longleftrightarrow>
     (let t = TrimSpace s in
      if take 2 t = ''0x'' \<or> take 2 t = ''0X''
      then drop 2 t \<noteq> [] \<and> digits 16 (drop 2 t) \<and> uint_value 16 0 (drop 2 t) \<le> 65535
      else t \<noteq> [] \<and> digits 10 t \<and> uint_value 10 0 t \<le> 65535)"

definition group_part :: "bytes \<Rightarrow> bool" where
  "group_part p \<longleftrightarrow> p = [] \<or> (\<exists>g. hexDecode p = Some g \<and> length g = 16)"

lemma parseUint16_accepts: "(\<exists>v. parseUint16 s = Some v) \<longleftrightarrow> uint16_text s"
  by (auto simp: parseUint16_exact uint16_text_def Let_def)

lemma ParseGroupIDs_accepts: "(\<exists>gs. ParseGroupIDs s = Inr gs) \<longleftrightarrow> list_all group_part (splitComma s)"
proof -
  have "(\<exists>gs. (\<forall>g \<in> set gs. length g = 16) \<and> map hexDecode ps = map Some gs) \<longleftrightarrow>
      list_all (\<lambda>p. \<exists>g. hexDecode p = Some g \<and> length g = 16) ps" for ps
  proof (induction ps)
    case (Cons p ps)
    have "(\<exists>gs. (\<forall>g \<in> set gs. length g = 16) \<and> map hexDecode (p # ps) = map Some gs) \<longleftrightarrow>
        (\<exists>g. hexDecode p = Some g \<and> length g = 16) \<and>
        (\<exists>gs. (\<forall>g \<in> set gs. length g = 16) \<and> map hexDecode ps = map Some gs)"
      by (auto simp: Cons_eq_map_conv)
    then show ?case using Cons.IH by simp
  qed simp
  moreover have "list_all group_part ps \<longleftrightarrow>
      list_all (\<lambda>p. \<exists>g. hexDecode p = Some g \<and> length g = 16) (filter (\<lambda>p. p \<noteq> []) ps)" for ps
    by (auto simp: list_all_iff group_part_def)
  ultimately show ?thesis by (simp add: ParseGroupIDs_exact)
qed

text \<open>The flags of direct-multicast mode that the command accepts.\<close>

definition direct_flags_ok :: "gen_env \<Rightarrow> gen_flags \<Rightarrow> bool" where
  "direct_flags_ok env fl \<longleftrightarrow>
     (\<exists>ip. ge_ParseIP env (fl_bindSource fl) = Some (ip, False)) \<and> fl_bindSource fl \<noteq> [] \<and>
     (fl_egressIface fl = [] \<or> (\<exists>i. ge_Iface env (fl_egressIface fl) = Some i)) \<and>
     (\<exists>scope pfx. ge_ParseScope env (fl_mcScope fl) = Some scope \<and>
        ((ToLower (fl_sourceMode fl) = ''asm'' \<and> ge_Prefix env SourceModeASM scope = Some pfx) \<or>
         (ToLower (fl_sourceMode fl) = ''ssm'' \<and> ge_Prefix env SourceModeSSM scope = Some pfx))) \<and>
     uint16_text (fl_mcGroupID fl) \<and> 1 \<le> fl_egressPort fl \<and> fl_egressPort fl \<le> 65535"

lemma direct_config_accepts: "(\<exists>mc. direct_config env fl = Inr mc) \<longleftrightarrow> direct_flags_ok env fl"
  unfolding direct_flags_ok_def parseUint16_accepts [symmetric] direct_config_def source_mode_of_def
  by (auto split: option.splits if_splits)

text \<open>C36: The command starts a run exactly when every check passes: subtree printing is off; the frame version
  is 1 or 2; the payload format is \<open>brc124\<close> or \<open>raw\<close> with a payload of at least 60 bytes, or \<open>brc128\<close>, \<open>ef\<close> or
  \<open>mixed\<close> with at least 75; the mode is, in any case of letters, \<open>unicast\<close>, or \<open>direct-multicast\<close> with a bind source
  that is an IPv6 address, no interface or one that exists, source mode \<open>asm\<close> or \<open>ssm\<close> with a scope that is known and
  gives a prefix, a group id that is a decimal or \<open>0x\<close> hexadecimal number of 16 bits, and a port from 1 to 65535;
  and, when announcing is on, every nonempty comma-separated part of the group list is the hexadecimal of
  16 bytes. In any other case it prints the subtrees or refuses with an error before anything is sent.\<close>

theorem ready_iff:
  "(\<exists>l. gen_main env fl = Ready l) \<longleftrightarrow>
     \<not> fl_printSubtrees fl \<and> (fl_frameVer fl = 1 \<or> fl_frameVer fl = 2) \<and>
     ((fl_payloadFormat fl \<in> {''brc124'', ''raw''} \<and> 60 \<le> fl_payloadSize fl) \<or>
      (fl_payloadFormat fl \<in> {''brc128'', ''ef'', ''mixed''} \<and> 75 \<le> fl_payloadSize fl)) \<and>
     (ToLower (fl_mode fl) = ''unicast'' \<or>
      (ToLower (fl_mode fl) = ''direct-multicast'' \<and>
       fl_bindSource fl \<noteq> [] \<and> (\<exists>ip. ge_ParseIP env (fl_bindSource fl) = Some (ip, False)) \<and>
       (fl_egressIface fl = [] \<or> (\<exists>i. ge_Iface env (fl_egressIface fl) = Some i)) \<and>
       (\<exists>scope pfx. ge_ParseScope env (fl_mcScope fl) = Some scope \<and>
          ((ToLower (fl_sourceMode fl) = ''asm'' \<and> ge_Prefix env SourceModeASM scope = Some pfx) \<or>
           (ToLower (fl_sourceMode fl) = ''ssm'' \<and> ge_Prefix env SourceModeSSM scope = Some pfx))) \<and>
       uint16_text (fl_mcGroupID fl) \<and> 1 \<le> fl_egressPort fl \<and> fl_egressPort fl \<le> 65535)) \<and>
     (fl_announceAddr fl = [] \<or> fl_subtreeGroup fl = [] \<or>
      list_all group_part (splitComma (bytes_of (fl_subtreeGroup fl))))"
proof -
  have mode: "(\<exists>m mc. mode_config env fl = Inr (m, mc)) \<longleftrightarrow>
      ToLower (fl_mode fl) = ''unicast'' \<or> (ToLower (fl_mode fl) = ''direct-multicast'' \<and> direct_flags_ok env fl)"
    unfolding direct_config_accepts [symmetric] by (auto simp: mode_config_def split: sum.splits)
  have ann: "(\<exists>ann. announce_config fl pool = Inr ann) \<longleftrightarrow>
      fl_announceAddr fl = [] \<or> fl_subtreeGroup fl = [] \<or> list_all group_part (splitComma (bytes_of (fl_subtreeGroup fl)))" for pool
    unfolding ParseGroupIDs_accepts [symmetric] by (auto simp: announce_config_def split: sum.splits)
  have ver: "(\<exists>fv. frame_version (fl_frameVer fl) = Some fv) \<longleftrightarrow> fl_frameVer fl = 1 \<or> fl_frameVer fl = 2"
    by (auto simp: frame_version_def)
  have fmt: "(\<exists>pf. payload_format (fl_payloadFormat fl) = Some pf \<and> MinPayloadSize pf \<le> fl_payloadSize fl) \<longleftrightarrow>
      (fl_payloadFormat fl \<in> {''brc124'', ''raw''} \<and> 60 \<le> fl_payloadSize fl) \<or>
      (fl_payloadFormat fl \<in> {''brc128'', ''ef'', ''mixed''} \<and> 75 \<le> fl_payloadSize fl)"
    by (auto simp: payload_format_def MinPayloadSize_def MinRawSize_def MinEFSize_def)
  have "(\<exists>l. gen_main env fl = Ready l) \<longleftrightarrow>
      \<not> fl_printSubtrees fl \<and> (\<exists>fv. frame_version (fl_frameVer fl) = Some fv) \<and>
      (\<exists>pf. payload_format (fl_payloadFormat fl) = Some pf \<and> MinPayloadSize pf \<le> fl_payloadSize fl) \<and>
      (\<exists>m mc. mode_config env fl = Inr (m, mc)) \<and>
      (\<exists>ann. announce_config fl (subtree_New (fl_subtrees fl) (seed_bytes (fl_subtreeSeed fl))) = Inr ann)"
    unfolding gen_main_ready accepted_def by blast
  then show ?thesis unfolding mode ann ver fmt direct_flags_ok_def by blast
qed

lemma pool_ok:
  assumes "subtree_New n seed = p" and "n < 2 ^ 63"
  shows "(\<forall>i \<in> set (ids p). length i = 32) \<and> length (ids p) < 2 ^ 64"
proof -
  have "length (ids p) = nat n" using Pool_Len_New [of n seed] assms(1) by (simp add: Pool_Len_def)
  moreover have "nat n < 2 ^ 64" using assms(2) by (simp add: nat_less_iff)
  ultimately show ?thesis using assms(1) ids_New_length by auto
qed

lemma direct_config_ok:
  assumes "direct_config env fl = Inr mc"
  shows "1 \<le> mc_port mc \<and> mc_port mc \<le> 65535 \<and> parseUint16 (fl_mcGroupID fl) = Some (mc_group mc) \<and>
     ge_ParseIP env (fl_bindSource fl) = Some (mc_bind mc, False)"
  using assms by (auto simp: direct_config_def split: if_splits option.splits)

lemma accepted_facts:
  assumes "accepted env fl l"
  shows "c_PayloadSize (r_cfg (la_runner l)) = fl_payloadSize fl"
    "r_pool (la_runner l) = subtree_New (fl_subtrees fl) (seed_bytes (fl_subtreeSeed fl))"
    "c_FrameVersion (r_cfg (la_runner l)) = V1 \<or> c_FrameVersion (r_cfg (la_runner l)) = V2"
    "MinPayloadSize (c_PayloadFormat (r_cfg (la_runner l))) \<le> fl_payloadSize fl"
    "0 < c_Workers (r_cfg (la_runner l))"
    "\<exists>cfg a. la_runner l = sender_New cfg (r_pool (la_runner l)) (Some a)"
    "c_Mode (r_cfg (la_runner l)) = (if la_mcast l = None then ModeUnicast else ModeDirectMulticast)"
    "\<And>mc. la_mcast l = Some mc \<Longrightarrow> direct_config env fl = Inr mc"
proof -
  obtain fv pf m mc ann where a: "frame_version (fl_frameVer fl) = Some fv" "MinPayloadSize pf \<le> fl_payloadSize fl"
    "mode_config env fl = Inr (m, mc)"
    and l: "l = \<lparr>la_runner = sender_New
               \<lparr>c_Mode = m, c_TCP = fl_tcp fl, c_FrameVersion = fv,
                c_Workers = (if fl_workers fl \<le> 0 then ge_NumCPU env else fl_workers fl),
                c_PPS = fl_pps fl, c_Duration = fl_duration fl, c_Count = fl_count fl,
                c_PayloadSize = fl_payloadSize fl, c_PayloadFormat = pf,
                c_LogInterval = fl_logInterval fl, c_CorruptTxIDRate = fl_corruptTxIDRate fl,
                c_ShardBits = fl_shardBits fl\<rparr>
               (subtree_New (fl_subtrees fl) (seed_bytes (fl_subtreeSeed fl)))
               (Some (seq_New \<lparr>Start = fl_seqStart fl, GapEvery = fl_seqGapEvery fl,
                               GapSize = fl_seqGapSize fl, GapDelay = fl_seqGapDelay fl\<rparr>)),
             la_mcast = mc, la_announce = ann\<rparr>"
    using assms unfolding accepted_def by blast
  have size: "0 < fl_payloadSize fl" using a(2) payload_floor [of pf] by linarith
  have cfg: "r_cfg (la_runner l) = \<lparr>c_Mode = m, c_TCP = fl_tcp fl, c_FrameVersion = fv,
      c_Workers = (let w = (if fl_workers fl \<le> 0 then ge_NumCPU env else fl_workers fl) in if w \<le> 0 then 1 else w),
      c_PPS = fl_pps fl, c_Duration = fl_duration fl, c_Count = fl_count fl,
      c_PayloadSize = fl_payloadSize fl, c_PayloadFormat = pf,
      c_LogInterval = (if fl_logInterval fl \<le> 0 then 1000000000 else fl_logInterval fl),
      c_CorruptTxIDRate = fl_corruptTxIDRate fl, c_ShardBits = fl_shardBits fl\<rparr>"
    using size by (simp add: l sender_New_def Let_def)
  show "c_PayloadSize (r_cfg (la_runner l)) = fl_payloadSize fl"
    "MinPayloadSize (c_PayloadFormat (r_cfg (la_runner l))) \<le> fl_payloadSize fl"
    "0 < c_Workers (r_cfg (la_runner l))"
    unfolding cfg using a(2) by (simp_all add: Let_def)
  show "c_FrameVersion (r_cfg (la_runner l)) = V1 \<or> c_FrameVersion (r_cfg (la_runner l)) = V2"
    unfolding cfg using a(1) by (auto simp: frame_version_def split: if_splits)
  show pool: "r_pool (la_runner l) = subtree_New (fl_subtrees fl) (seed_bytes (fl_subtreeSeed fl))"
    by (simp add: l sender_New_def Let_def)
  show "\<exists>cfg a. la_runner l = sender_New cfg (r_pool (la_runner l)) (Some a)"
    unfolding pool unfolding l by auto
  have m: "m = (if mc = None then ModeUnicast else ModeDirectMulticast)"
    "\<And>c. mc = Some c \<Longrightarrow> direct_config env fl = Inr c"
    using a(3) by (auto simp: mode_config_def split: if_splits sum.splits)
  show "c_Mode (r_cfg (la_runner l)) = (if la_mcast l = None then ModeUnicast else ModeDirectMulticast)"
    unfolding cfg using m(1) by (simp add: l)
  show "direct_config env fl = Inr c" if "la_mcast l = Some c" for c using m(2) that by (simp add: l)
qed

text \<open>What the workers of an accepted run rely on.\<close>

lemma accepted_send_ok:
  assumes "accepted env fl l" and "fl_payloadSize fl \<le> 10 * 1024 * 1024" and "fl_subtrees fl < 2 ^ 63"
  shows "send_ok (r_cfg (la_runner l)) (r_pool (la_runner l))"
proof -
  note f = accepted_facts [OF assms(1)]
  have "(\<forall>i \<in> set (ids (r_pool (la_runner l))). length i = 32) \<and> length (ids (r_pool (la_runner l))) < 2 ^ 64"
    by (rule pool_ok [OF f(2) [symmetric] assms(3)])
  then show ?thesis using f(1,3,4) assms(2) unfolding send_ok_def by simp
qed

lemma good_label:
  "good_frame ob hash src cfg pool plain n rnd g \<Longrightarrow> token_label wid g W_ok = Some (WSent wid)"
  by (auto simp: good_frame_def token_label_def)

text \<open>An accepted command line runs well. When the command starts a run, with a payload size within the
  protocol's 10 MiB, it starts at least one worker; it is in direct mode exactly when the multicast settings
  were given, with a port in range and the group id that was asked for; and every frame every worker
  produces is a good one: one transaction of exactly the requested size under its TxID, in an encoded frame
  of the requested version, which spends its token as sent whenever the write succeeds. \<open>Run\<close> does not refuse it; and whatever the
  environment does to a worker, it runs without a panic, releases its socket, and counts as sent only good frames,
  in direct mode to the groups of the flags.\<close>

theorem accepted_runs:
  assumes "frame_doc (we_frame we)" and "encode_doc (we_frame we)" and "txid_doc (we_obj we) tx_obj"
    and "gen_main env fl = Ready l" and "fl_payloadSize fl \<le> 10 * 1024 * 1024" and "fl_subtrees fl < 2 ^ 63"
  shows "let r = la_runner l; fs = worker_run (we_frame we) (we_obj we) hash src ins r (worker_start (we_frame we) (r_cfg r) wid seed) in
     \<not> Run_refuses r \<and> 0 < c_Workers (r_cfg r) \<and> c_PayloadSize (r_cfg r) = fl_payloadSize fl \<and>
     (case la_mcast l of
        None \<Rightarrow> c_Mode (r_cfg r) = ModeUnicast
      | Some mc \<Rightarrow> c_Mode (r_cfg r) = ModeDirectMulticast \<and> 1 \<le> mc_port mc \<and> mc_port mc \<le> 65535 \<and>
          parseUint16 (fl_mcGroupID fl) = Some (mc_group mc)) \<and>
     length fs = length ins \<and>
     (\<forall>i < length ins. \<exists>plain. good_frame (we_obj we) hash src (r_cfg r) (r_pool r) plain (word_of_nat i) (snd (ins ! i)) (fs ! i)) \<and>
     (\<forall>i < length ins. token_label wid (fs ! i) W_ok = Some (WSent wid)) \<and>
     (\<exists>plain li. worker_life we (launch_mcast l) wid sd toks fin r = Some li \<and> released (li_socks li) \<and>
        list_all (sent_good we (launch_mcast l) (r_cfg r) (r_pool r) plain) (ln_sent (li_link li)))"
proof -
  have acc: "accepted env fl l" using assms(4) gen_main_ready by simp
  note f = accepted_facts [OF acc]
  define r where "r = la_runner l"
  obtain cfg a where r: "r = sender_New cfg (r_pool r) (Some a)" using f(6) unfolding r_def by blast
  have ok: "send_ok (r_cfg r) (r_pool r)"
    unfolding r_def by (rule accepted_send_ok [OF acc assms(5,6)])
  note inv = worker_start_inv [of "we_frame we" cfg "r_pool r" a wid seed, folded r]
  note good = worker_run_good [OF assms(1-3) ok inv, of hash src ins]
  define fs where "fs = worker_run (we_frame we) (we_obj we) hash src ins r (worker_start (we_frame we) (r_cfg r) wid seed)"
  define plain where "plain = (\<not> GapEnabled a \<and> c_Mode cfg \<noteq> ModeDirectMulticast)"
  have "case la_mcast l of
        None \<Rightarrow> c_Mode (r_cfg r) = ModeUnicast
      | Some mc \<Rightarrow> c_Mode (r_cfg r) = ModeDirectMulticast \<and> 1 \<le> mc_port mc \<and> mc_port mc \<le> 65535 \<and>
          parseUint16 (fl_mcGroupID fl) = Some (mc_group mc)"
    using f(7,8) direct_config_ok [of env fl] unfolding r_def by (cases "la_mcast l") auto
  moreover have "\<not> Run_refuses r" using f(1,4) by (simp add: Run_refuses_def r_def)
  moreover have "0 < c_Workers (r_cfg r)" "c_PayloadSize (r_cfg r) = fl_payloadSize fl"
    using f(1,5) by (simp_all add: r_def)
  moreover have all: "good_frame (we_obj we) hash src (r_cfg r) (r_pool r) plain (word_of_nat i) (snd (ins ! i)) (fs ! i)"
    if "i < length ins" for i
    using good that unfolding fs_def plain_def by simp
  moreover have "length fs = length ins" using good unfolding fs_def by simp
  moreover have "\<forall>i < length ins. \<exists>plain. good_frame (we_obj we) hash src (r_cfg r) (r_pool r) plain (word_of_nat i) (snd (ins ! i)) (fs ! i)"
    using all by blast
  moreover have "\<forall>i < length ins. token_label wid (fs ! i) W_ok = Some (WSent wid)"
    using good_label [OF all] by blast
  moreover have "\<exists>plain li. worker_life we (launch_mcast l) wid sd toks fin r = Some li \<and> released (li_socks li) \<and>
        list_all (sent_good we (launch_mcast l) (r_cfg r) (r_pool r) plain) (ln_sent (li_link li))"
    using worker_life_good [OF assms(1-3) r ok, of "launch_mcast l" wid sd toks fin] by blast
  ultimately show ?thesis unfolding r_def [symmetric] Let_def fs_def [symmetric] by blast
qed

text \<open>The defaults of the command, with four workers' worth of processors.\<close>

definition default_flags :: gen_flags where
  "default_flags = \<lparr>fl_tcp = False, fl_frameVer = 2, fl_shardBits = 2, fl_subtrees = 8,
     fl_subtreeSeed = ''subtx-generator-default'', fl_pps = 1000, fl_duration = 0, fl_count = 0, fl_workers = 0,
     fl_payloadSize = 512, fl_payloadFormat = ''brc128'', fl_seqStart = 1, fl_seqGapEvery = 0, fl_seqGapSize = 1,
     fl_seqGapDelay = 0, fl_logInterval = 1000000000, fl_printSubtrees = False, fl_subtreeGroup = [],
     fl_announceAddr = [], fl_announceInterval = 10000000000, fl_announceTTL = 0, fl_announcePhaseSize = 0,
     fl_announcePhaseInterval = 0, fl_corruptTxIDRate = 0, fl_mode = ''unicast'', fl_bindSource = [],
     fl_egressIface = [], fl_mcGroupID = ''0x000B'', fl_sourceMode = ''asm'', fl_mcScope = ''site'',
     fl_egressPort = 9001\<rparr>"

definition demo_env :: gen_env where
  "demo_env = \<lparr>ge_NumCPU = 4, ge_ParseIP = (\<lambda>_. None), ge_Iface = (\<lambda>_. None), ge_ParseScope = (\<lambda>_. None),
     ge_Prefix = (\<lambda>_ _. None)\<rparr>"

lemma default_ready: "\<exists>l. gen_main demo_env default_flags = Ready l"
proof -
  have "ToLower ''unicast'' = ''unicast''" by (simp add: ToLower_def)
  then show ?thesis
    by (simp add: gen_main_def default_flags_def frame_version_def payload_format_def MinPayloadSize_def
        MinEFSize_def mode_config_def announce_config_def Let_def)
qed

theorem accepted_runs_witness:
  "\<exists>l. gen_main demo_env default_flags = Ready l \<and> c_PayloadSize (r_cfg (la_runner l)) = 512 \<and>
     length (worker_run ref_frame ref_objfmt (\<lambda>s g i. 0) [] [(0, None), (1, None)] (la_runner l)
        (worker_start ref_frame (r_cfg (la_runner l)) 1 (replicate 32 0))) = 2 \<and>
     (\<exists>li. worker_life fair_env (launch_mcast l) 1 (Some (replicate 32 0)) [(0, None, 0)] (WCtx 1) (la_runner l) = Some li \<and>
        released (li_socks li))"
proof -
  obtain l where l: "gen_main demo_env default_flags = Ready l" using default_ready by blast
  have s: "fl_payloadSize default_flags \<le> 10 * 1024 * 1024" "fl_subtrees default_flags < 2 ^ 63"
    "fl_payloadSize default_flags = 512" by (simp_all add: default_flags_def)
  have e: "we_frame fair_env = ref_frame" "we_obj fair_env = ref_objfmt" by (simp_all add: fair_env_def)
  show ?thesis
    using accepted_runs [OF fair_docs l s(1,2), where hash = "\<lambda>s g i. 0" and src = "[]"
        and ins = "[(0, None), (1, None)]" and wid = 1 and seed = "replicate 32 0" and sd = "Some (replicate 32 0)"
        and toks = "[(0, None, 0)]" and fin = "WCtx 1"] l s(3)
    unfolding e Let_def by auto
qed

end
