(* ===== verification/Gen_Process.thy ===== *)
theory Gen_Process
  imports Sender_Fleet Announce_Run Cli
begin

text \<open>
  \<open>cmd/subtx-gen\<close> as a process: from the accepted command line to the exit. The sender's dispatcher and workers
  (\<open>Sender_Fleet\<close>) run beside the announcer's goroutines (\<open>Announce_Run\<close>) under one context: a signal ends it for
  both, the \<open>-duration\<close> ends it for the sender alone. When \<open>Run\<close> of the sender returns, the command prints its
  counters and exits, whatever the announcer is doing.
\<close>

section \<open>The process\<close>

record gen_sys =
  gp_fleet :: fleet
  gp_ann :: "ann_run option"
  gp_seen :: bool
  gp_logged :: "run_result option"
  gp_exit :: "(nat \<times> nat) option"

definition gen_init :: "(nat \<Rightarrow> worker_env) \<Rightarrow> launch \<Rightarrow> gen_sys" where
  "gen_init E l =
     \<lparr>gp_fleet = fleet_init E (la_runner l), gp_ann = map_option (\<lambda>_. ann_init) (la_announce l), gp_seen = False,
      gp_logged = None, gp_exit = None\<rparr>"

definition cancel_fleet :: "fleet \<Rightarrow> fleet" where
  "cancel_fleet f = f\<lparr>fl_run := (fl_run f)\<lparr>cancelled := True\<rparr>\<rparr>"

text \<open>
  \<open>gp_seen\<close>: the announcing goroutine has returned; it logs the error of \<open>Run\<close> unless the context has ended.
\<close>

inductive gen_step :: "frame_pkg \<Rightarrow> (nat \<Rightarrow> worker_env) \<Rightarrow> launch \<Rightarrow> gen_sys \<Rightarrow> gen_sys \<Rightarrow> bool"
  for P E l where
  signal: "gp_exit s = None \<Longrightarrow>
     gen_step P E l s (s\<lparr>gp_fleet := cancel_fleet (gp_fleet s),
       gp_ann := map_option (\<lambda>a. a\<lparr>ar_cancelled := True\<rparr>) (gp_ann s)\<rparr>)"
| timeout: "gp_exit s = None \<Longrightarrow> 0 < c_Duration (r_cfg (la_runner l)) \<Longrightarrow>
     gen_step P E l s (s\<lparr>gp_fleet := cancel_fleet (gp_fleet s)\<rparr>)"
| send: "gp_exit s = None \<Longrightarrow> fleet_step E (launch_mcast l) (la_runner l) (gp_fleet s) f \<Longrightarrow>
     cancelled (fl_run f) = cancelled (fl_run (gp_fleet s)) \<Longrightarrow> gen_step P E l s (s\<lparr>gp_fleet := f\<rparr>)"
| announce: "gp_exit s = None \<Longrightarrow> la_announce l = Some (a, interval) \<Longrightarrow> gp_ann s = Some c \<Longrightarrow> lab \<noteq> A_cancel \<Longrightarrow>
     ann_step P a lab c = Some c' \<Longrightarrow> gen_step P E l s (s\<lparr>gp_ann := Some c'\<rparr>)"
| announced: "gp_exit s = None \<Longrightarrow> gp_ann s = Some c \<Longrightarrow> ar_main c = M_done res \<Longrightarrow> \<not> gp_seen s \<Longrightarrow>
     gen_step P E l s (s\<lparr>gp_seen := True, gp_logged := (if ar_cancelled c then None else Some res)\<rparr>)"
| finished: "gp_exit s = None \<Longrightarrow> returned (fl_run (gp_fleet s)) \<Longrightarrow>
     gen_step P E l s (s\<lparr>gp_exit := Some (n_sent (fl_run (gp_fleet s)), n_errs (fl_run (gp_fleet s)))\<rparr>)"

inductive gen_reach :: "frame_pkg \<Rightarrow> (nat \<Rightarrow> worker_env) \<Rightarrow> launch \<Rightarrow> gen_sys \<Rightarrow> bool" for P E l where
  gen_start: "gen_reach P E l (gen_init E l)"
| gen_more: "gen_reach P E l s \<Longrightarrow> gen_step P E l s t \<Longrightarrow> gen_reach P E l t"

section \<open>Projections\<close>

text \<open>The sender of the process is a run of the fleet, its announcer a run of the announcer.\<close>

lemma cancel_fleet_reach:
  assumes "fleet_reach E mc r f"
  shows "fleet_reach E mc r (cancel_fleet f)"
proof (cases "cancelled (fl_run f)")
  case True
  then have "cancel_fleet f = f" by (simp add: cancel_fleet_def)
  with assms show ?thesis by simp
next
  case False
  then have "protocol r Cancel f ((fl_run f)\<lparr>cancelled := True\<rparr>)" by (simp add: protocol_def)
  then have "fleet_step E mc r f (cancel_fleet f)"
    unfolding cancel_fleet_def by (intro fleet_step.dispatch [of Cancel]) simp_all
  then show ?thesis by (rule fleet_more [OF assms])
qed

lemma gen_fleet_reach: "gen_reach P E l s \<Longrightarrow> fleet_reach E (launch_mcast l) (la_runner l) (gp_fleet s)"
proof (induction rule: gen_reach.induct)
  case gen_start
  show ?case by (simp add: gen_init_def fleet_start)
next
  case (gen_more s t)
  from gen_more.hyps(2) gen_more.IH show ?case
    by cases (auto intro: cancel_fleet_reach fleet_more)
qed

text \<open>The part of the invariant about the announcer and the exit.\<close>

definition gen_inv :: "(bytes \<Rightarrow> bytes \<Rightarrow> u32 \<Rightarrow> u16 \<Rightarrow> bytes) \<Rightarrow> launch \<Rightarrow> gen_sys \<Rightarrow> bool" where
  "gen_inv enc l s \<longleftrightarrow>
     (case gp_ann s of
        None \<Rightarrow> la_announce l = None \<and> gp_logged s = None
      | Some c \<Rightarrow> (\<exists>a i. la_announce l = Some (a, i) \<and> ann_inv enc a c)) \<and>
     gp_logged s \<in> {None, Some R_dial, Some (R_send WriteErr)} \<and>
     (case gp_exit s of
        None \<Rightarrow> True
      | Some e \<Rightarrow> returned (fl_run (gp_fleet s)) \<and> e = (n_sent (fl_run (gp_fleet s)), n_errs (fl_run (gp_fleet s))))"

text \<open>What the announcer of an accepted command line relies on.\<close>

definition announce_docs :: "frame_pkg \<Rightarrow> (bytes \<Rightarrow> bytes \<Rightarrow> u32 \<Rightarrow> u16 \<Rightarrow> bytes) \<Rightarrow> launch \<Rightarrow> bool" where
  "announce_docs P enc l \<longleftrightarrow>
     announce_doc P enc \<and> (\<forall>a i. la_announce l = Some (a, i) \<longrightarrow> announcer_ok a \<and> ann_fits a)"

lemma gen_inv_step:
  assumes "announce_docs P enc l" and "gen_inv enc l s" and "gen_step P E l s t"
  shows "gen_inv enc l t"
  using assms(3)
proof cases
  case signal
  have "ann_inv enc a (c\<lparr>ar_cancelled := True\<rparr>)"
    if "gp_ann s = Some c" "la_announce l = Some (a, i)" "ann_inv enc a c" for a i c
  proof -
    have d: "announce_doc P enc" "announcer_ok a" "ann_fits a" using assms(1) that(2) by (auto simp: announce_docs_def)
    have "ann_step P a A_cancel c = Some (c\<lparr>ar_cancelled := True\<rparr>)"
      using ann_invD(1) [OF that(3) d(3)] by (simp add: ann_step_def)
    then show ?thesis by (rule ann_step_inv [OF d that(3)])
  qed
  then show ?thesis using assms(2) signal by (auto simp: gen_inv_def split: option.splits)
next
  case (announce a i c lab c')
  have d: "announce_doc P enc" "announcer_ok a" "ann_fits a" using assms(1) announce(3) by (auto simp: announce_docs_def)
  have "ann_inv enc a c" using assms(2) announce(3,4) by (simp add: gen_inv_def)
  from ann_step_inv [OF d this announce(6)] show ?thesis
    using assms(2) announce by (simp add: gen_inv_def)
next
  case (announced c res)
  then obtain a i where a: "la_announce l = Some (a, i)" "ann_inv enc a c" using assms(2) by (auto simp: gen_inv_def)
  have "ann_fits a" using assms(1) a(1) by (auto simp: announce_docs_def)
  from ann_invD(7) [OF a(2) this] have "ar_cancelled c \<or> res \<in> {R_dial, R_send WriteErr}"
    using announced(4) by (cases res) (auto simp: main_ok_def)
  then show ?thesis using assms(2) announced a by (auto simp: gen_inv_def)
qed (use assms(2) in \<open>auto simp: gen_inv_def split: option.splits\<close>)

lemma gen_reach_inv:
  assumes "announce_docs P enc l"
  shows "gen_reach P E l s \<Longrightarrow> gen_inv enc l s"
proof (induction rule: gen_reach.induct)
  case gen_start
  have "la_announce l = Some ai \<Longrightarrow> \<exists>a i. ai = (a, i) \<and> ann_inv enc a ann_init" for ai
    by (cases ai) (simp add: ann_inv_init)
  then show ?case by (auto simp: gen_inv_def gen_init_def split: option.split)
next
  case (gen_more s t)
  then show ?case using gen_inv_step [OF assms] by blast
qed

section \<open>Accepted command lines\<close>

lemma announce_config_ok:
  assumes "announce_config fl pool = Inr (Some (a, i))"
  shows "an_pool a = pool" "an_phaseSize a = fl_announcePhaseSize fl" "\<forall>g \<in> set (an_groups a). length g = 16"
proof -
  obtain gs where gs: "ParseGroupIDs (bytes_of (fl_subtreeGroup fl)) = Inr gs" "an_groups a = gs"
    and a: "an_pool a = pool" "an_phaseSize a = fl_announcePhaseSize fl"
    using assms by (auto simp: announce_config_def split: if_splits sum.splits)
  show "an_pool a = pool" "an_phaseSize a = fl_announcePhaseSize fl" by (fact a)+
  show "\<forall>g \<in> set (an_groups a). length g = 16"
    using gs by (auto simp: ParseGroupIDs_def parse_parts_Inr split: if_splits)
qed

lemma accepted_announce:
  assumes "accepted env fl l" and "la_announce l = Some (a, i)"
    and "fl_subtrees fl < 2 ^ 31" "fl_announcePhaseSize fl + max 0 (fl_subtrees fl) < 2 ^ 31"
  shows "announcer_ok a \<and> ann_fits a \<and> an_pool a = r_pool (la_runner l)"
proof -
  let ?pool = "subtree_New (fl_subtrees fl) (seed_bytes (fl_subtreeSeed fl))"
  have cfg: "announce_config fl ?pool = Inr (Some (a, i))"
    using assms(1,2) unfolding accepted_def by auto
  note ok = announce_config_ok [OF cfg]
  have len: "length (ids ?pool) = nat (fl_subtrees fl)" using Pool_Len_New [of "fl_subtrees fl"] by (simp add: Pool_Len_def)
  have "\<forall>i \<in> set (ids ?pool). length i = 32" using pool_ok [OF refl, of "fl_subtrees fl"] assms(3) by simp
  moreover have "r_pool (la_runner l) = ?pool" by (rule accepted_facts(2) [OF assms(1)])
  ultimately show ?thesis
    using ok len assms(3,4) by (auto simp: announcer_ok_def ann_fits_def Pool_Len_def split: if_splits)
qed

lemma accepted_docs:
  assumes "accepted env fl l" and "announce_doc P enc"
    and "fl_subtrees fl < 2 ^ 31" "fl_announcePhaseSize fl + max 0 (fl_subtrees fl) < 2 ^ 31"
  shows "announce_docs P enc l"
  using accepted_announce [OF assms(1) _ assms(3,4)] assms(2) by (auto simp: announce_docs_def)

section \<open>Properties\<close>

definition worker_docs :: "(nat \<Rightarrow> worker_env) \<Rightarrow> bool" where
  "worker_docs E \<longleftrightarrow> (\<forall>i. frame_doc (we_frame (E i)) \<and> encode_doc (we_frame (E i)) \<and> txid_doc (we_obj (E i)) tx_obj)"


text \<open>The default flags with announcing on, its connection dialled, and a signal.\<close>

definition announce_flags :: gen_flags where
  "announce_flags = default_flags\<lparr>fl_announceAddr := ''[::1]:9000'', fl_subtreeGroup := ''0000000000000000000000000000000a''\<rparr>"

lemma announce_ready:
  "\<exists>l a i. gen_main demo_env announce_flags = Ready l \<and> la_announce l = Some (a, i)"
proof -
  have "ToLower ''unicast'' = ''unicast''" by (simp add: ToLower_def)
  moreover have "ParseGroupIDs (bytes_of ''0000000000000000000000000000000a'') = Inr [[0, 0, 0, 0, 0, 0, 0, 0, 0, 0, 0, 0, 0, 0, 0, 0xA]]"
    by code_simp
  ultimately show ?thesis
    by (simp add: gen_main_def announce_flags_def default_flags_def frame_version_def payload_format_def MinPayloadSize_def
        MinEFSize_def mode_config_def announce_config_def Let_def)
qed

lemma demo_process:
  "\<exists>l s c. gen_main demo_env announce_flags = Ready l \<and> gen_reach ref_frame (\<lambda>_. fair_env) l s \<and> gp_ann s = Some c \<and>
     ar_cancelled c \<and> dialled c"
proof -
  obtain l a i where l: "gen_main demo_env announce_flags = Ready l" "la_announce l = Some (a, i)" using announce_ready by blast
  let ?E = "\<lambda>_ :: nat. fair_env"
  define s0 where "s0 = gen_init ?E l"
  have s0: "gp_ann s0 = Some ann_init" "gp_exit s0 = None" by (simp_all add: s0_def gen_init_def l(2))
  have r0: "gen_reach ref_frame ?E l s0" unfolding s0_def by (rule gen_start)
  obtain c where c: "ann_step ref_frame a (A_dial True) ann_init = Some c" "dialled c"
    by (cases "phased a") (simp_all add: ann_step_def ann_init_def dialled_def)
  have "gen_step ref_frame ?E l s0 (s0\<lparr>gp_ann := Some c\<rparr>)"
    by (rule gen_step.announce [where lab = "A_dial True", OF s0(2) l(2) s0(1) _ c(1)]) simp
  then have s1: "gen_reach ref_frame ?E l (s0\<lparr>gp_ann := Some c\<rparr>)" by (rule gen_more [OF r0])
  have "gen_step ref_frame ?E l (s0\<lparr>gp_ann := Some c\<rparr>) ((s0\<lparr>gp_ann := Some c\<rparr>)\<lparr>gp_fleet := cancel_fleet (gp_fleet s0),
      gp_ann := Some (c\<lparr>ar_cancelled := True\<rparr>)\<rparr>)"
    using gen_step.signal [where s = "s0\<lparr>gp_ann := Some c\<rparr>" and P = ref_frame and E = ?E and l = l] s0(2) by simp
  from gen_more [OF s1 this] l(1) c(2) show ?thesis
    by (intro exI [of _ l] exI [of _ "(s0\<lparr>gp_ann := Some c\<rparr>)\<lparr>gp_fleet := cancel_fleet (gp_fleet s0),
      gp_ann := Some (c\<lparr>ar_cancelled := True\<rparr>)\<rparr>"] exI [of _ "c\<lparr>ar_cancelled := True\<rparr>"]) (simp add: dialled_def)
qed


end
