(* ===== verification/End_To_End.thy ===== *)
theory End_To_End
  imports Gen_Process Sink_Process
begin

text \<open>
  The repository's two processes on one wire: the generator's workers submit over TCP to the relay of a
  \<open>tunnel-sink\<close>, one connection per worker. What the run counts as sent is what the sink relays and records.
\<close>

section \<open>The connections of a run that has returned\<close>

text \<open>
  A TCP run on connections that do not fail: the lane of a started worker is buffered TCP, and the buffer of one
  that has not started or has left is empty.
\<close>

definition lane_ok :: "worker_pc \<Rightarrow> link \<Rightarrow> bool" where
  "lane_ok pc l \<longleftrightarrow>
     (pc \<notin> {W_start, W_exit} \<longrightarrow> ln_tr l = Tcp) \<and> (ln_tr l \<noteq> Tcp \<longrightarrow> ln_sent l = []) \<and>
     (pc \<in> {W_start, W_exit} \<longrightarrow> bw_buf (ln_buf l) = [])"

definition lanes_inv :: "fleet \<Rightarrow> bool" where
  "lanes_inv s \<longleftrightarrow> length (wks (fl_run s)) = length (fl_ws s) \<and>
     (\<forall>i < length (fl_ws s). lane_ok (wks (fl_run s) ! i) (fw_l (fl_ws s ! i)))"

definition tcp_run :: "(nat \<Rightarrow> worker_env) \<Rightarrow> Runner \<Rightarrow> bool" where
  "tcp_run E r \<longleftrightarrow> c_Mode (r_cfg r) = ModeUnicast \<and> c_TCP (r_cfg r) \<and> (\<forall>i. quiet (we_net (E i)))"

lemma release_empties:
  assumes "link_inv env mc cfg pool plain l" and "quiet (we_net env)" and "ln_tr l = Tcp"
  shows "bw_buf (ln_buf (worker_release env l)) = []"
proof -
  have l: "\<not> bw_err (ln_buf l)" "holds (concat (map snd (ln_sent l))) (ln_buf l)" using assms by (simp_all add: link_inv_def)
  obtain ok b where f: "bw_Flush (we_net env) (ln_buf l) = (ok, b)" by (metis surj_pair)
  have "\<not> bw_err b" using bw_Flush_ok [OF assms(2) l(1)] f by simp
  then show ?thesis using bw_Flush_holds [OF l(2) f] f assms(3) by (simp add: worker_release_def)
qed

lemma write_tr:
  "write_out env mc r qd f fw = (res, l) \<Longrightarrow> ln_tr l = ln_tr (fw_l fw)"
  by (auto simp: write_out_def worker_write_def Let_def case_prod_beta split: frame_result.splits transport.splits)

text \<open>A step that changes one worker, or none.\<close>

lemma lanes_inv_put:
  assumes "lanes_inv s" and "length (fl_ws t) = length (fl_ws s)" and "length (wks (fl_run t)) = length (wks (fl_run s))"
    and "\<And>j. j \<noteq> i \<Longrightarrow> wks (fl_run t) ! j = wks (fl_run s) ! j"
    and "\<And>j. j \<noteq> i \<Longrightarrow> fw_l (fl_ws t ! j) = fw_l (fl_ws s ! j)"
    and "i < length (fl_ws s) \<Longrightarrow> lane_ok (wks (fl_run t) ! i) (fw_l (fl_ws t ! i))"
  shows "lanes_inv t"
proof -
  have "lane_ok (wks (fl_run t) ! j) (fw_l (fl_ws t ! j))" if "j < length (fl_ws t)" for j
    using that assms by (cases "j = i") (simp_all add: lanes_inv_def)
  then show ?thesis using assms(1-3) by (simp add: lanes_inv_def)
qed

lemma lanes_inv_same:
  assumes "lanes_inv s" and "fl_run t = fl_run s" and "length (fl_ws t) = length (fl_ws s)"
    and "\<And>j. j < length (fl_ws s) \<Longrightarrow> fw_l (fl_ws t ! j) = fw_l (fl_ws s ! j)"
  shows "lanes_inv t"
  using assms by (simp add: lanes_inv_def)

lemma lanes_inv_init: "lanes_inv (fleet_init E r)"
  by (simp add: lanes_inv_def fleet_init_def run_init_def empty_slot_def fleet_size_def link_new_def bw_new_def lane_ok_def)

lemma run_step_others:
  assumes "run_step cnt cap l s = Some t"
    and "l \<in> {Cancel, DCheck, DPace, DSend, DCtx, DAdd} \<or>
      l \<in> {WDial i False, WDial i True, WRecv i, WSent i, WRetry i, WBuildErr i, WSockClosed i, WCtx i, WClosed i} \<and> j \<noteq> i"
  shows "wks t ! j = wks s ! j"
  using assms by (cases l) (auto simp: leave_def move_def release_def split: if_splits)

lemma lanes_inv_step:
  assumes "fleet_step E mc r s t" and inv: "lanes_inv s" and tcp: "tcp_run E r" and frames: "frames_inv E mc r s"
  shows "lanes_inv t"
  using assms(1)
proof (cases rule: fleet_step.cases)
  case (dispatch l u)
  note st = dispatch(3) [unfolded protocol_def]
  have "wks u ! j = wks (fl_run s) ! j" for j by (rule run_step_others [OF st, of 0]) (use dispatch(2) in blast)
  then show ?thesis using run_step_wks [OF st] inv by (simp add: dispatch(1) lanes_inv_def)
next
  case (no_start i u)
  note st = no_start(2) [unfolded protocol_def]
  have "wks (fl_run s) ! i = W_start" "wks u ! i = W_exit" using st by (auto simp: at_pc_def move_def split: if_splits)
  then show ?thesis using run_step_wks [OF st] run_step_others [OF st, of i] inv
    by (intro lanes_inv_put [OF inv, of _ i]) (auto simp: no_start(1) lanes_inv_def lane_ok_def)
next
  case (start i u tr evs seed)
  note st = start(2) [unfolded protocol_def]
  have i: "wks u ! i = W_idle" using st by (auto simp: at_pc_def move_def split: if_splits)
  have "tr = Tcp" using start(3) tcp by (auto simp: worker_open_def tcp_run_def split: if_splits)
  then show ?thesis using i run_step_wks [OF st] run_step_others [OF st, of i]
    by (intro lanes_inv_put [OF inv, of _ i]) (auto simp: start(1) link_new_def lane_ok_def)
next
  case (receive i u rnd res w ph)
  note st = receive(2) [unfolded protocol_def]
  have i: "wks (fl_run s) ! i = W_idle" "wks u ! i = W_busy" using st by (auto simp: at_pc_def move_def split: if_splits)
  then show ?thesis using run_step_wks [OF st] run_step_others [OF st, of i] inv
    by (intro lanes_inv_put [OF inv, of _ i]) (auto simp: receive(1) lanes_inv_def lane_ok_def)
next
  case (finish i f num qd res l lab u l')
  note st = finish(5) [unfolded protocol_def]
  have lab: "lab \<in> {WSent i, WRetry i, WBuildErr i, WSockClosed i}"
    using finish(4) by (auto simp: token_label_def split: frame_result.splits write_result.splits)
  have i: "i < length (fl_ws s)" using finish(2) by (simp add: in_phase_def)
  have busy: "wks (fl_run s) ! i = W_busy" using token_label_busy [OF finish(4) st] by (simp add: at_pc_def)
  have "ln_tr (fw_l (fl_ws s ! i)) = Tcp" using inv i busy by (simp add: lanes_inv_def lane_ok_def)
  then have tr: "ln_tr l = Tcp" using write_tr [OF finish(3)] by simp
  have n: "length (wks (fl_run s)) = length (fl_ws s)" using inv by (simp add: lanes_inv_def)
  have pc: "wks u ! i = (if Sender_Worker.leaves lab then W_exit else W_idle)"
    using lab st i n by (auto simp: move_def release_def at_pc_def nth_list_update split: if_splits)
  have "slot_ok (E i) mc r (fl_ws s ! i)" "fw_ph (fl_ws s ! i) = Ph_out f num" using slot_of [OF frames finish(2)] by simp_all
  then have "link_inv (E i) mc (r_cfg r) (r_pool r) (plain_run r) l"
    using write_out_good [OF _ _ finish(3,4)] by (auto simp: slot_ok_def)
  from release_empties [OF this _ tr] have "bw_buf (ln_buf (worker_release (E i) l)) = []" using tcp by (simp add: tcp_run_def)
  then have "lane_ok (wks u ! i) l'" using tr pc by (simp add: finish(6) lane_ok_def)
  then show ?thesis using i run_step_wks [OF st] run_step_others [OF st, of i] lab
    by (intro lanes_inv_put [OF inv, of _ i]) (auto simp: finish(1))
next
  case (leave_loop lab i u)
  note st = leave_loop(3) [unfolded protocol_def]
  have i: "wks (fl_run s) ! i = W_idle" "wks u ! i = W_exit"
    using leave_loop(2) st by (auto simp: at_pc_def move_def split: if_splits)
  then have tr: "ln_tr (fw_l (fl_ws s ! i)) = Tcp" using inv leave_loop(4) by (simp add: lanes_inv_def lane_ok_def)
  have "link_inv (E i) mc (r_cfg r) (r_pool r) (plain_run r) (fw_l (fl_ws s ! i))"
    using frames leave_loop(4) by (auto simp: frames_inv_def slot_ok_def)
  from release_empties [OF this _ tr] have "bw_buf (ln_buf (worker_release (E i) (fw_l (fl_ws s ! i)))) = []"
    using tcp by (simp add: tcp_run_def)
  then show ?thesis using i tr run_step_wks [OF st] run_step_others [OF st, of i] leave_loop(2,4)
    by (intro lanes_inv_put [OF inv, of _ i]) (auto simp: leave_loop(1) lane_ok_def)
qed (intro lanes_inv_same [OF inv]; auto simp: to_phase_def in_phase_def nth_list_update)+

lemma fleet_lanes:
  assumes "fleet_docs E r" "tcp_run E r"
  shows "fleet_reach E mc r s \<Longrightarrow> lanes_inv s"
proof (induction rule: fleet_reach.induct)
  case fleet_start
  show ?case by (rule lanes_inv_init)
next
  case (fleet_more s t)
  show ?case
    by (rule lanes_inv_step [OF fleet_more.hyps(2) fleet_more.IH assms(2) fleet_frames_inv [OF fleet_more.hyps(1) assms(1)]])
qed

text \<open>What a connection of a run that has returned has carried.\<close>

lemma connection_bytes:
  assumes "fleet_docs E r" "tcp_run E r" "fleet_reach E mc r s" "returned (fl_run s)" and i: "i < length (fl_ws s)"
    and "sent_by i s \<noteq> []"
  shows "bw_out (ln_buf (fw_l (fl_ws s ! i))) = concat (map snd (sent_by i s))"
proof -
  let ?l = "fw_l (fl_ws s ! i)"
  have inv: "lanes_inv s" by (rule fleet_lanes [OF assms(1-3)])
  have sent: "ln_sent ?l = sent_by i s" using fleet_links [OF assms(3)] i by (simp add: links_inv_def)
  have "i < length (wks (fl_run s))" using inv i by (simp add: lanes_inv_def)
  then have "wks (fl_run s) ! i \<in> set (wks (fl_run s))" by (rule nth_mem)
  then have "wks (fl_run s) ! i = W_exit" using assms(4) by (auto simp: returned_def)
  then have l: "ln_tr ?l = Tcp" "bw_buf (ln_buf ?l) = []" using inv i sent assms(6) by (auto simp: lanes_inv_def lane_ok_def)
  have "link_inv (E i) mc (r_cfg r) (r_pool r) (plain_run r) ?l"
    using fleet_frames_inv [OF assms(3,1)] i by (auto simp: frames_inv_def slot_ok_def)
  then have "\<not> bw_err (ln_buf ?l)" "holds (concat (map snd (ln_sent ?l))) (ln_buf ?l)"
    using assms(2) l(1) by (simp_all add: link_inv_def tcp_run_def)
  then show ?thesis using l(2) sent by (simp add: holds_def)
qed

lemma wire_generated:
  assumes "fleet_docs E r" "fleet_reach E mc r s" "\<forall>i. we_obj (E i) = ob"
  shows "list_all (generated ob (r_cfg r) (r_pool r)) (map snd (sent_by i s))"
proof -
  have "generated ob (r_cfg r) (r_pool r) (snd (snd e))" if "wire_good (E i) mc r e" for e
    using that assms(3) unfolding wire_good_def good_num_def good_frame_num_def generated_def good_frame_def by (metis (no_types, lifting))
  then show ?thesis using fleet_frames_inv [OF assms(2,1)]
    by (auto simp: frames_inv_def list_all_iff sent_by_def)
qed

lemma sent_per_connection:
  assumes "fleet_reach E mc r s"
  shows "sum_list (map (\<lambda>i. length (sent_by i s)) (filter (\<lambda>i. sent_by i s \<noteq> []) [0..<length (fl_ws s)])) = n_sent (fl_run s)"
proof -
  have "sum_list (map (\<lambda>i. length (sent_by i s)) (filter (\<lambda>i. sent_by i s \<noteq> []) [0..<length (fl_ws s)])) =
      (\<Sum>i\<leftarrow>[0..<length (fl_ws s)]. length (sent_by i s))"
    by (rule sum_list_map_filter) auto
  also have "\<dots> = length (fl_wire s)"
  proof -
    have "\<forall>x \<in> set (fl_wire s). fst x < length (fl_ws s)" using fleet_links [OF assms] unfolding links_inv_def by blast
    from length_split [OF this] show ?thesis by (simp add: sent_by_def)
  qed
  also have "\<dots> = n_sent (fl_run s)" using fleet_run [OF assms] by simp
  finally show ?thesis .
qed

section \<open>The sink's side\<close>

lemma objs_of_append: "objs_of k (xs @ ys) = objs_of k xs @ objs_of k ys"
  by (simp add: objs_of_def List.map_filter_def)

lemma submission_objs:
  "objs_of (lane_key dirSent ''txn'') (Op_open # replicate n (Op_record dirSent ''txn'' sz 0 0) @ [Op_close]) = replicate n (sz, 0, 0)"
  by (induction n) (simp_all add: objs_of_def List.map_filter_def)

lemma totals_same:
  assumes "0 < n"
  shows "totals (replicate n (sz, 0, 0)) = \<lparr>objects = of_nat n, lt_bytes = word_of_int (int n * sz), minSize = sz, maxSize = sz,
     nodes = 0, subtrees = 0\<rparr>"
  using assms by (simp add: totals_def map_replicate_const [symmetric] sum_list_replicate)

lemma submissions:
  assumes "list_all2 (\<lambda>i h. hd_ops h = Op_open # replicate (f i) (Op_record dirSent ''txn'' sz 0 0) @ [Op_close]) ks hs" and "0 \<le> sz"
  shows "objs_of (lane_key dirSent ''txn'') (concat (map hd_ops hs)) = replicate (sum_list (map f ks)) (sz, 0, 0) \<and>
     sizes_ok (concat (map hd_ops hs))"
  using assms(1)
proof (induction rule: list_all2_induct)
  case Nil
  then show ?case by (simp add: objs_of_def List.map_filter_def sizes_ok_def)
next
  case (Cons i ks h hs)
  have "sizes_ok (hd_ops h)" using assms(2) Cons(1) by (auto simp: sizes_ok_def list_all_iff)
  moreover have "objs_of (lane_key dirSent ''txn'') (hd_ops h) = replicate (f i) (sz, 0, 0)"
    unfolding Cons(1) by (rule submission_objs)
  ultimately show ?case
    using Cons.IH by (simp only: list.map concat.simps sum_list.Cons objs_of_append sizes_ok_append replicate_add)
qed

text \<open>Operations in any order whose objects in a lane are all alike.\<close>

lemma same_objects:
  assumes "mset ops = mset ops'" and "sizes_ok ops'" and "objs_of k ops' = replicate n x"
  shows "lanes (sink_session ops) k = (if n = 0 then None else Some (totals (replicate n x)))"
proof -
  have "sizes_ok ops" using assms(2) mset_eq_setD [OF assms(1)] unfolding sizes_ok_def list_all_iff by metis
  moreover have m: "mset (objs_of k ops) = mset (replicate n x)" using objs_of_mset [OF assms(1)] assms(3) by simp
  moreover have "objs_of k ops = [] \<longleftrightarrow> n = 0" using mset_eq_length [OF m] by auto
  ultimately show ?thesis using totals_mset [OF m] by (simp add: session_lanes)
qed

section \<open>A short run\<close>

text \<open>One token served over TCP without numbering.\<close>

lemma plain_send:
  assumes "fleet_reach E mc r s" "fleet_docs E r" "tcp_run E r" "in_phase i (Ph_look txid) s" "fl_pfa s = None"
    and "plain_run r" "at_pc (fl_run s) i W_busy"
  shows "\<exists>t. fleet_reach E mc r t \<and> fl_run t = move i W_idle ((fl_run s)\<lparr>n_sent := Suc (n_sent (fl_run s))\<rparr>) \<and>
     length (fl_ws t) = length (fl_ws s)"
proof -
  have i: "i < length (fl_ws s)" using assms(4) by (simp add: in_phase_def)
  define s1 where "s1 = to_phase i (Ph_plain txid) s"
  have "fleet_step E mc r s s1"
    unfolding s1_def by (rule fleet_step.look [OF assms(4)]) (use assms(5,6) in \<open>simp add: plain_run_def\<close>)
  with assms(1) have r1: "fleet_reach E mc r s1" by (rule fleet_more)
  have ph1: "in_phase i (Ph_plain txid) s1" using i by (simp add: s1_def in_phase_def to_phase_def)
  obtain v a f w where e: "fetch_next (fl_plain s1) = (v, a)" "emit (E i) mc r None txid (fw_w (fl_ws s1 ! i)) = (f, w)"
    by (metis surj_pair)
  define s2 where "s2 = put_w i ((fl_ws s1 ! i)\<lparr>fw_w := w, fw_ph := Ph_out f None\<rparr>) (s1\<lparr>fl_plain := a\<rparr>)"
  have "fleet_step E mc r s1 s2" unfolding s2_def by (rule fleet_step.plain [where E = E and v = v, OF ph1 e])
  with r1 have r2: "fleet_reach E mc r s2" by (rule fleet_more)
  have i2: "i < length (fl_ws s2)" "fl_run s2 = fl_run s" using i by (simp_all add: s2_def s1_def to_phase_def)
  have ph: "in_phase i (Ph_out f None) s2" using i i2 by (simp add: s2_def in_phase_def s1_def to_phase_def)
  have slot: "slot_ok (E i) mc r (fl_ws s2 ! i)" using slot_of [OF fleet_frames_inv [OF r2 assms(2)] ph] by blast
  then obtain bs where bs: "f = Built bs" using ph by (auto simp: slot_ok_def in_phase_def good_num_def good_frame_num_def)
  have "ln_tr (fw_l (fl_ws s2 ! i)) = Tcp"
    using fleet_lanes [OF assms(2,3) r2] i2 assms(7) by (auto simp: lanes_inv_def lane_ok_def at_pc_def)
  moreover have quiet: "quiet (we_net (E i))" using assms(3) by (simp add: tcp_run_def)
  ultimately have l: "ln_tr (fw_l (fl_ws s2 ! i)) = Tcp" "\<not> bw_err (ln_buf (fw_l (fl_ws s2 ! i)))"
    "holds (concat (map snd (ln_sent (fw_l (fl_ws s2 ! i))))) (ln_buf (fw_l (fl_ws s2 ! i)))"
    using slot by (simp_all add: slot_ok_def link_inv_def)
  obtain l' where w: "write_out (E i) mc r 0 f (fl_ws s2 ! i) = (W_ok, l')"
    using tcp_send_quiet [OF quiet l(2,3), of "c_PPS (r_cfg r)" 0 bs] l(1) bs by (auto simp: write_out_def worker_write_def)
  define u where "u = move i W_idle ((fl_run s)\<lparr>n_sent := Suc (n_sent (fl_run s))\<rparr>)"
  define t where "t = put_w i ((fl_ws s2 ! i)\<lparr>fw_l := l', fw_ph := Ph_none\<rparr>)
      (s2\<lparr>fl_run := u, fl_wire := fl_wire s2 @ [(i, None, last (ln_sent l'))]\<rparr>)"
  have "fleet_step E mc r s2 t"
    unfolding t_def using fleet_step.finish [where E = E and lab = "WSent i" and t = u and l' = l', OF ph w] bs assms(7) i2(2)
    by (simp add: token_label_def protocol_def u_def)
  with r2 have "fleet_reach E mc r t" by (rule fleet_more)
  then show ?thesis by (intro exI [of _ t]) (simp add: t_def u_def s2_def s1_def to_phase_def)
qed

text \<open>The first worker sends one frame, the second cannot connect, and the run is cancelled.\<close>

lemma fair_tcp: "tcp_run (\<lambda>_. fair_env) (fair_runner ModeUnicast)" "plain_run (fair_runner ModeUnicast)"
  "c_Workers (r_cfg (fair_runner ModeUnicast)) = 2" "c_FrameVersion (r_cfg (fair_runner ModeUnicast)) = V2"
  "c_PayloadSize (r_cfg (fair_runner ModeUnicast)) = 512"
  by (simp_all add: tcp_run_def plain_run_def quiet_def fair_env_def fair_runner_def sender_New_def demo_cfg_def demo_alloc_def
      seq_New_def GapEnabled_def Let_def)

lemma fair_run_returned:
  "\<exists>s. fleet_reach (\<lambda>_. fair_env) fair_mc (fair_runner ModeUnicast) s \<and> returned (fl_run s) \<and> n_sent (fl_run s) = 1"
proof -
  let ?r = "fair_runner ModeUnicast" and ?E = "\<lambda>_ :: nat. fair_env"
  let ?at = "\<lambda>c d k ws. \<lparr>issued = 1, n_sent = k, n_errs = 0, chan = 0, closed = c, cancelled = c, disp = d,
       wks = ws, dropped = 0, late = 0, by_count = False\<rparr>"
  obtain s txid where s: "fleet_reach ?E fair_mc ?r s" "in_phase 0 (Ph_look txid) s" "fl_pfa s = None"
    "fl_run s = ?at False D_top 0 [W_busy, W_start]"
    using fair_fleet_taken [of ModeUnicast] by auto
  have busy: "at_pc (fl_run s) 0 W_busy" by (simp add: s(4) at_pc_def)
  obtain t where t: "fleet_reach ?E fair_mc ?r t" "fl_run t = ?at False D_top 1 [W_idle, W_start]"
    "length (fl_ws t) = length (fl_ws s)"
    using plain_send [OF s(1) fair_fleet_docs fair_tcp(1) s(2,3) fair_tcp(2) busy] s(4) by (auto simp: move_def)
  have len: "0 < length (fl_ws t)" using s(2) t(3) by (simp add: in_phase_def)
  have "run_path (c_Count (r_cfg ?r)) (nat (c_Workers (r_cfg ?r) * 2)) [Cancel, DCheck] (fl_run t) =
      Some (?at True D_done 1 [W_idle, W_start])"
    by (simp add: t(2) leave_def)
  from dispatch_path [OF t(1) _ this] have r3: "fleet_reach ?E fair_mc ?r (t\<lparr>fl_run := ?at True D_done 1 [W_idle, W_start]\<rparr>)" by simp
  have "fleet_reach ?E fair_mc ?r (t\<lparr>fl_run := ?at True D_done 1 [W_idle, W_exit]\<rparr>)"
    using fleet_more [OF r3 fleet_step.no_start [where i = 1 and t = "?at True D_done 1 [W_idle, W_exit]"]]
    by (simp add: protocol_def at_pc_def move_def)
  from fleet_more [OF this fleet_step.leave_loop [where i = 0 and lab = "WCtx 0" and t = "?at True D_done 1 [W_exit, W_exit]"]] len
  have "\<exists>u. fleet_reach ?E fair_mc ?r u \<and> fl_run u = ?at True D_done 1 [W_exit, W_exit]"
    by (auto simp: protocol_def at_pc_def move_def intro!: exI)
  then show ?thesis by (auto simp: returned_def)
qed

section \<open>Property\<close>

text \<open>C17: A run, end to end. When a run over TCP with frame version 2 (the sink refuses version-1 frames) and a payload
  within the protocol's limits and the sink's \<open>-max-object\<close> has returned, on connections that did not fail, and each
  worker's connection went to a sink's submit relay whose dial of the edge's transaction port and writes to it succeed,
  its bytes cut into reads in any way: the
  sink forwards every connection's bytes unchanged to that port, and, whatever the order in which its handlers took
  turns, its statistics show exactly as many sent transactions as the run counts as sent, each of the frame's full
  size; nothing is lost, duplicated or misread between the generator's counter and the sink's.\<close>

theorem run_end_to_end:
  assumes "size_doc ob" "header_doc P" "txid_doc ob tx_obj" and "fleet_docs E r" "\<forall>i. we_obj (E i) = ob" and "tcp_run E r"
    and "c_FrameVersion (r_cfg r) = V2" "c_PayloadSize (r_cfg r) \<le> maxObject rl" "dial_ok (txPort rl)"
    and "fleet_reach E mc r s" "returned (fl_run s)"
    and "\<forall>i < length (fl_ws s). concat (chunks i) = bw_out (ln_buf (fw_l (fl_ws s ! i)))"
  shows "\<exists>hs. list_all2 (\<lambda>i h. relay_handle P ob rd rl dial_ok (\<lambda>_. True) (chunked (chunks i)) = Some h \<and>
         hd_port h = Some (txPort rl) \<and> concat (hd_fwd h) = concat (chunks i))
       (filter (\<lambda>i. sent_by i s \<noteq> []) [0..<length (fl_ws s)]) hs \<and>
     (\<forall>ops. mset ops = mset (concat (map hd_ops hs)) \<longrightarrow>
        lanes (sink_session ops) (lane_key dirSent ''txn'') =
          (if n_sent (fl_run s) = 0 then None
           else Some \<lparr>objects = of_nat (n_sent (fl_run s)),
             lt_bytes = word_of_int (int (n_sent (fl_run s)) * (92 + c_PayloadSize (r_cfg r))),
             minSize = 92 + c_PayloadSize (r_cfg r), maxSize = 92 + c_PayloadSize (r_cfg r), nodes = 0, subtrees = 0\<rparr>))"
proof -
  let ?sz = "92 + c_PayloadSize (r_cfg r)" and ?is = "filter (\<lambda>i. sent_by i s \<noteq> []) [0..<length (fl_ws s)]"
  let ?good = "\<lambda>i h. relay_handle P ob rd rl dial_ok (\<lambda>_. True) (chunked (chunks i)) = Some h \<and>
      hd_port h = Some (txPort rl) \<and> concat (hd_fwd h) = concat (chunks i) \<and>
      hd_ops h = Op_open # replicate (length (sent_by i s)) (Op_record dirSent ''txn'' ?sz 0 0) @ [Op_close]"
  have send: "send_ok (r_cfg r) (r_pool r)" using assms(4) by (simp add: fleet_docs_def)
  have "\<exists>h. ?good i h" if "i \<in> set ?is" for i
  proof -
    have i: "i < length (fl_ws s)" "sent_by i s \<noteq> []" using that by auto
    note bytes = connection_bytes [OF assms(4,6,10,11) i]
    have "concat (chunks i) = concat (map snd (sent_by i s))" using assms(12) i(1) bytes by simp
    with framed_submission [where fs = "map snd (sent_by i s)" and chunks = "chunks i" and rd = rd and dial_ok = dial_ok and r = rl,
        OF assms(1-3) send assms(7,8) _ wire_generated [OF assms(4,10,5)] this assms(9)]
    show ?thesis using i(2) by auto
  qed
  then have "\<exists>h. \<forall>i \<in> set ?is. ?good i (h i)" by (rule bchoice [OF ballI])
  then obtain h where h: "\<And>i. i \<in> set ?is \<Longrightarrow> ?good i (h i)" by blast
  have all: "list_all2 ?good ?is (map h ?is)" using h by (simp add: list_all2_map2 list_all2_same)
  have "0 \<le> ?sz" using send MinPayloadSize_def by (auto simp: send_ok_def MinRawSize_def MinEFSize_def split: PayloadFormat.splits)
  then have objs: "objs_of (lane_key dirSent ''txn'') (concat (map hd_ops (map h ?is))) =
      replicate (sum_list (map (\<lambda>i. length (sent_by i s)) ?is)) (?sz, 0, 0)" "sizes_ok (concat (map hd_ops (map h ?is)))"
    using submissions [OF list_all2_mono [OF all], of "\<lambda>i. length (sent_by i s)" ?sz] by auto
  note n = sent_per_connection [OF assms(10)]
  have "lanes (sink_session ops) (lane_key dirSent ''txn'') =
      (if n_sent (fl_run s) = 0 then None else Some (totals (replicate (n_sent (fl_run s)) (?sz, 0, 0))))"
    if ops: "mset ops = mset (concat (map hd_ops (map h ?is)))" for ops
    using same_objects [OF ops objs(2), of _ "n_sent (fl_run s)" "(?sz, 0, 0)"] objs(1) n by simp
  moreover have "list_all2 (\<lambda>i h. relay_handle P ob rd rl dial_ok (\<lambda>_. True) (chunked (chunks i)) = Some h \<and>
         hd_port h = Some (txPort rl) \<and> concat (hd_fwd h) = concat (chunks i)) ?is (map h ?is)"
    by (rule list_all2_mono [OF all]) blast
  ultimately show ?thesis by (intro exI [of _ "map h ?is"]) (simp add: totals_same)
qed

theorem run_end_to_end_witness:
  "\<exists>s (hs :: handled list). fleet_reach (\<lambda>_. fair_env) fair_mc (fair_runner ModeUnicast) s \<and> returned (fl_run s) \<and>
     lanes (sink_session (concat (map hd_ops hs))) (lane_key dirSent ''txn'') =
       Some \<lparr>objects = 1, lt_bytes = 604, minSize = 604, maxSize = 604, nodes = 0, subtrees = 0\<rparr>"
proof -
  let ?r = "fair_runner ModeUnicast" and ?E = "\<lambda>_ :: nat. fair_env"
  let ?rl = "\<lparr>txPort = 8725, subtreePort = 8726, blockPort = 8727, maxObject = 1000\<rparr>"
  obtain s where s: "fleet_reach ?E fair_mc ?r s" "returned (fl_run s)" "n_sent (fl_run s) = 1"
    using fair_run_returned by blast
  have ob: "\<forall>i. we_obj (?E i) = ref_objfmt" by (simp add: fair_env_def)
  have size: "c_PayloadSize (r_cfg ?r) \<le> maxObject ?rl" by (simp add: fair_tcp)
  have cut: "\<forall>i < length (fl_ws s). concat [bw_out (ln_buf (fw_l (fl_ws s ! i)))] = bw_out (ln_buf (fw_l (fl_ws s ! i)))" by simp
  from run_end_to_end [OF ref_objfmt_size ref_header_doc ref_objfmt_txid fair_fleet_docs ob fair_tcp(1,4) size _ s(1,2) cut,
      of "\<lambda>_. True" ref_reader]
  obtain hs :: "handled list" where "\<forall>ops. mset ops = mset (concat (map hd_ops hs)) \<longrightarrow>
      lanes (sink_session ops) (lane_key dirSent ''txn'') =
        Some \<lparr>objects = 1, lt_bytes = 604, minSize = 604, maxSize = 604, nodes = 0, subtrees = 0\<rparr>"
    by (auto simp: s(3) fair_tcp)
  with s(1,2) show ?thesis by blast
qed

end
