(* ===== verification/Spec2Isabelle.thy ===== *)
theory Spec2Isabelle
  imports Send_Anchor Send_Block_Announce Pacer Sender_Log Sink_Log End_To_End
begin

text \<open>
  A verification library for \<open>subtx-generator\<close>: the load generator, the object and frame senders and the
  \<open>tunnel-sink\<close> of the transaction-sharding fabric. The repository is one side of a protocol: it makes
  well-formed objects, wraps some of them in frames, paces and numbers them, puts them on sockets, and
  (\<open>tunnel-sink\<close>) takes such streams apart again. The library models these parts as they are written and states
  what one part promises the next; the closing theory puts producers and sink together.

  \<^bold>\<open>Layers and theories.\<close>

  Shared vocabulary. \<open>Prelude\<close>: bytes, fixed-width integers, byte orders, slices whose bounds panic is \<open>None\<close>.
  \<open>Go_Std\<close>: SHA-256 and the ChaCha8 generator, computable; \<open>Go_Fmt\<close>: decimal and hexadecimal digits, padding. \<open>Shard_Common\<close>: the external packages
  \<open>frame\<close>, \<open>objfmt\<close>, \<open>seqhash\<close> and \<open>shard\<close> as parameters, with what the repository's own comments say of them as
  named predicates (\<open>frame_doc\<close>, \<open>encode_doc\<close>, \<open>txid_doc\<close>, \<open>subtree_doc\<close>, \<open>block_doc\<close>); \<open>Objfmt_Ref\<close>: an instance of
  them that satisfies all, used by witnesses only. \<open>Lane\<close> and \<open>Frames\<close>: the two interfaces between producers and
  readers, a bare lane of self-delimiting objects (locale \<open>lane_codec\<close>) and a stream of 92-byte-header frames
  (locale \<open>frame_emitter\<close>).

  Making objects. \<open>Tx\<close>, \<open>Tx_Wire\<close> (\<open>internal/tx\<close>): the transaction builders, store by store over the reused
  slice, and their wire grammar: every accepted size yields exactly one transaction of that size, every other
  size an error, and concatenations split again. \<open>Merkle\<close>, \<open>Subtree_Pool\<close>, \<open>Block_Hdr\<close> (\<open>internal/merkle\<close>,
  \<open>subtree\<close>, \<open>blockhdr\<close>): the root against a recursive tree, the deterministic pool, the compact difficulty and
  the nonce search. \<open>Frame_Enc\<close> (\<open>internal/frame\<close>): the version switch and the legacy encoder.

  Numbering and pacing. \<open>Seq\<close> (\<open>internal/seq\<close>): the allocator with gap injection, its retransmit list filtered in
  place, and the per-flow map, through the locale \<open>sequencer\<close>; \<open>Seq_Conc\<close>: \<open>Next\<close> as atomic steps of any number
  of workers, with uniqueness by rule induction and a refinement to the sequential method. \<open>Pacer\<close>
  (\<open>internal/rate\<close>): the ticker pacers behind the locale \<open>paced\<close>, and their tokens over time by the period of their
  own ticker. \<open>Announce\<close> and \<open>Announce_Run\<close>
  (\<open>internal/announce\<close>): group-id parsing and one announce pass; and \<open>Sender.Run\<close> from the dial to its return, with
  its three goroutines.

  The sender (\<open>internal/sender\<close>). \<open>Sender_Frame\<close>: configuration and what one token makes of a frame.
  \<open>Sender_Run\<close>: \<open>Run\<close> as a transition system of the dispatcher, the token channel and the workers: the count
  is never exceeded, every token is accounted for, the only deadlock is characterised, and a healthy run ends
  with exactly \<open>Count\<close> frames. \<open>Tcp_Lane\<close>: the buffered TCP lane, \<open>bufio.Writer\<close> included, behind the locale
  \<open>byte_sink\<close>. \<open>Sender_Worker\<close>: the whole life of a worker (socket, seed, tokens, release), which emits steps of
  \<open>Sender_Run\<close> while it makes the frames of \<open>Sender_Frame\<close> and writes them to \<open>Tcp_Lane\<close> or as datagrams.
  \<open>Sender_Fleet\<close>: all workers of a run together, one step per access to what they share: the token protocol of
  \<open>Sender_Run\<close> (which the fleet refines), the pointer \<open>r.pfa\<close> read and written without a lock, and the allocators
  of \<open>Seq_Conc\<close> behind it. Its invariants say that every frame counted is right in every interleaving, that the
  counter is the number of writes the workers' connections accepted, which frames are stamped, and how
  often a sequence number of a flow can appear: once with gap injection, once per installed allocator without.
  \<open>Sender_Log\<close>: the periodic logger beside the fleet, which reads \<open>sent\<close> and \<open>bytes\<close> while the workers add to them:
  its reports add up to the frames and the time of the run, and the bytes lag by one frame per worker at most.

  The commands. \<open>Send_Anchor\<close>, \<open>Send_Block_Announce\<close>, \<open>Send_Subtree_Data\<close>: the three frame senders, each an
  interpretation of \<open>frame_emitter\<close>. \<open>Push\<close>, \<open>Send_Subtree_Push\<close>, \<open>Send_Block_Push\<close>: the push loop with its dial
  backoff, shared by both commands through the locale \<open>push_source\<close>; with it, what a run delivers under any pattern of
  failed writes and dials. \<open>Cli\<close> (\<open>cmd/subtx-gen\<close>): from flag values to a
  refusal or a configured run, and that accepted runs are good runs. \<open>Gen_Process\<close>: the process from there to its
  exit, the fleet of workers and the announcer under one context with signals and the run's deadline.

  The sink (\<open>cmd/tunnel-sink\<close>). \<open>Sink_Sniff\<close>: which class a stream has. \<open>Sink_Pump\<close>: the two pumps, both
  interpretations of the locale \<open>stream_pump\<close>, whose lemmas give termination, verbatim relaying and the balance
  of the books. \<open>Sink_Stats\<close>, \<open>Sink_Format\<close>, \<open>Sink_Summary\<close>: the statistics, the renderings and the table.
  \<open>Sink_Frames\<close> and \<open>Sink_Lanes\<close>: the emitters of the repository composed with the pumps. \<open>Sink\<close>: the two connection
  handlers and a submission from the generator to the edge. \<open>Sink_Process\<close>: the process from its flags to the
  summary it prints on exit, all connections interleaved with the signal and the shutdown. \<open>Sink_Lines\<close>: the line
  printed per object and how it is read back; \<open>Sink_Report\<close>: the text of the summary and
  how its rows are read back; \<open>Sink_Log\<close>: the whole output read back, counted lane by lane, against the statistics and
  against the summary.

  Both processes. \<open>End_To_End\<close>: a run over TCP whose connections end at a sink's submit relay. In every interleaving
  of the workers, of the reads and of the sink's handlers, the sink relays what the run wrote and its statistics
  show exactly the transactions the run counted as sent.

  \<^bold>\<open>Correspondence.\<close> Names are the source's, prefixed where they clash. A struct is a record, an enumeration a
  datatype, \<open>uint64\<close> and its kin are words, \<open>int\<close> is \<open>int\<close> where the values are bounded by the flags checked and
  wrap-around is written out where it can occur (\<open>phase_next\<close>, \<open>groupIdx\<close>, statistics totals). Panics are \<open>None\<close>, errors
  are values. Reads, writes, dials, timers, random bytes and instants are inputs, so every theorem ranges over
  all their outcomes. The sink's object lines and its summary are text; other log output is
  its fields.

  \<^bold>\<open>Termination and fuel.\<close> No definition uses fuel. Loops that end are functions with a measure; loops whose end
  depends on a parameter (the candidate walk, the pumps) are \<open>partial_function (option)\<close>, and the theorems prove a
  result exists under the documented laws of the parameter. Concurrent parts are step relations; the bound
  \<open>6 * Count + 2 * w + 3\<close> on healthy runs is proved, not assumed.

  \<^bold>\<open>Idealised.\<close> A frame is counted when its write was accepted: on TCP it may then still be in the buffer, and be lost
  with the connection (\<open>fl_wire\<close> of \<open>Sender_Fleet\<close> and \<open>ln_sent\<close> of \<open>Sender_Worker\<close> list counted frames). A failed write
  of the sink's relay delivers none of its bytes. The payload of a run is at most 10 MiB (\<open>send_ok\<close>), which the command
  does not check. The sink's summary and its exit are one step. Slices fit in memory: the panics of \<open>make\<close>
  for a huge gap (\<open>Allocator_Next\<close>) or a negative \<open>-subtrees\<close> (\<open>announce_main\<close>) are left out.

  \<^bold>\<open>Not modelled.\<close> Flag parsing and usage text, the texts of notices and warnings, the
  quotients of the rate logger, and \<open>ci/main.go\<close>, which only configures an external
  pipeline: they are input and output without a state of their own. A signal is a step that may come at any time. The bodies of the external packages, which
  are not part of the repository, are parameters.
\<close>

end
